(* ===== verification/C_Prelude.thy ===== *)
theory C_Prelude
  imports Main "HOL-Library.Word" "HOL-Library.Signed_Division"
begin

text \<open>
  What the models of the three C programs share: the machine integer types, the ways an
  operation of the code can fail, sequencing of operations that may fail, array accesses with
  their bounds, and the \<open>for\<close> loop with a \<open>break\<close> that searches an array.

  A C \<open>int\<close> that only counts or indexes is an \<^typ>\<open>int\<close>; where a product or a quotient of the
  code can leave the range of \<open>int\<close>, the model checks it with \<open>chk_int\<close>. An integer whose
  width matters (addresses, tags, counters) is a word.
\<close>

type_synonym u8 = "8 word"
type_synonym u16 = "16 word"
type_synonym u32 = "32 word"
type_synonym u64 = "64 word"

subsection \<open>Failures and sequencing\<close>

text \<open>
  \<open>Panic\<close> is the simulators' own \<open>panic\<close> (first line of the message printed, process exits) and \<open>Assert_Failed\<close> a
  failed \<open>assert\<close>; \<open>Exit_Failure\<close> is the message printed before \<open>exit(1)\<close>, \<open>Exit_Success\<close> that before \<open>exit(0)\<close>. \<open>Diverges\<close> is a loop
  that does not end. The others are accesses or operations that C leaves undefined; the model
  stops there. \<open>Type_Confusion\<close> is an access through a pointer to memory that at that moment
  holds data of another kind (a page used as a page table, say).
\<close>

datatype fault =
    Out_Of_Bounds
  | Null_Deref
  | Dangling
  | Diverges
  | Div_Zero
  | Int_Overflow
  | Type_Confusion
  | Assert_Failed
  | Panic string
  | Exit_Failure string
  | Exit_Success string

type_synonym 'a res = "fault + 'a"

definition bindE :: "'a res \<Rightarrow> ('a \<Rightarrow> 'b res) \<Rightarrow> 'b res" where
  "bindE m f = (case m of Inl e \<Rightarrow> Inl e | Inr x \<Rightarrow> f x)"

definition guardE :: "bool \<Rightarrow> fault \<Rightarrow> unit res" where
  "guardE b e = (if b then Inr () else Inl e)"

lemma bindE_Inl [simp]: "bindE (Inl e) f = Inl e"
  by (simp add: bindE_def)

lemma bindE_Inr [simp]: "bindE (Inr x) f = f x"
  by (simp add: bindE_def)

lemma bindE_eq_Inr [simp]: "bindE m f = Inr y \<longleftrightarrow> (\<exists>x. m = Inr x \<and> f x = Inr y)"
  by (cases m) auto

lemma bindE_assoc: "bindE (bindE m f) g = bindE m (\<lambda>x. bindE (f x) g)"
  by (cases m) auto

lemma bindE_cong [fundef_cong]:
  "m = m' \<Longrightarrow> (\<And>x. m' = Inr x \<Longrightarrow> f x = f' x) \<Longrightarrow> bindE m f = bindE m' f'"
  by (cases m') auto

lemma guardE_simps [simp]:
  "guardE True e = Inr ()" "guardE False e = Inl e" "guardE b e = Inr u \<longleftrightarrow> b"
  by (auto simp: guardE_def)

text \<open>Running a list of commands stops at the first failure, as the process would.\<close>

fun foldE :: "('s \<Rightarrow> 'c \<Rightarrow> 's res) \<Rightarrow> 's \<Rightarrow> 'c list \<Rightarrow> 's res" where
  "foldE f s [] = Inr s"
| "foldE f s (c # cs) = bindE (f s c) (\<lambda>s'. foldE f s' cs)"

lemma foldE_append: "foldE f s (xs @ ys) = bindE (foldE f s xs) (\<lambda>s'. foldE f s' ys)"
  by (induction xs arbitrary: s) (auto simp: bindE_assoc)

text \<open>
  An invariant kept by every command, each run from a state where it does not fail, holds at
  the end, and the run does not fail.
\<close>

lemma foldE_invariant:
  assumes step: "\<And>s c. P s \<Longrightarrow> c \<in> set cs \<Longrightarrow> \<exists>s'. f s c = Inr s' \<and> P s'"
  shows "P s \<Longrightarrow> \<exists>s'. foldE f s cs = Inr s' \<and> P s'"
  using step
proof (induction cs arbitrary: s)
  case Nil
  then show ?case by simp
next
  case (Cons c cs)
  from Cons.prems(1) Cons.prems(2)[of s c] obtain s1 where s1: "f s c = Inr s1" "P s1"
    by auto
  have "\<exists>s'. foldE f s1 cs = Inr s' \<and> P s'"
    by (rule Cons.IH) (use s1 Cons.prems(2) in auto)
  with s1 show ?case by simp
qed

subsection \<open>Signed 32-bit results\<close>

definition chk_int :: "int \<Rightarrow> int res" where
  "chk_int x = (if - (2 ^ 31) \<le> x \<and> x < 2 ^ 31 then Inr x else Inl Int_Overflow)"

definition div_int :: "int \<Rightarrow> int \<Rightarrow> int res" where
  "div_int a b = (if b = 0 then Inl Div_Zero else chk_int (a sdiv b))"

lemma chk_int_Inr [simp]: "chk_int x = Inr y \<longleftrightarrow> y = x \<and> - (2 ^ 31) \<le> x \<and> x < 2 ^ 31"
  by (auto simp: chk_int_def)

lemma sdiv_nonneg_int: "0 \<le> a \<Longrightarrow> 0 < b \<Longrightarrow> a sdiv b = a div (b::int)"
  by (simp add: signed_divide_int_def sgn_if)

lemma uint_drop_bit_div: "uint (drop_bit n (w :: 'a::len word)) = uint w div 2 ^ n"
proof -
  have "take_bit LENGTH('a) (uint w) = uint w"
    by (rule take_bit_int_eq_self) simp_all
  then have "uint (drop_bit n w) = drop_bit n (uint w)"
    by (simp only: unsigned_drop_bit_eq)
  then show ?thesis by (simp only: drop_bit_eq_div)
qed

lemma unat_ucast_mod: "unat (ucast (w :: 'a::len word) :: 'b::len word) = unat w mod 2 ^ LENGTH('b)"
  by (simp add: unsigned_ucast_eq take_bit_eq_mod)

lemma unat_eqI: "unat a = unat b \<Longrightarrow> a = b"
  by (rule unsigned_word_eqI)

subsection \<open>Arrays\<close>

definition arr_get :: "'a list \<Rightarrow> int \<Rightarrow> 'a res" where
  "arr_get xs i = (if 0 \<le> i \<and> i < int (length xs) then Inr (xs ! nat i) else Inl Out_Of_Bounds)"

definition arr_set :: "'a list \<Rightarrow> int \<Rightarrow> 'a \<Rightarrow> 'a list res" where
  "arr_set xs i v =
     (if 0 \<le> i \<and> i < int (length xs) then Inr (xs[nat i := v]) else Inl Out_Of_Bounds)"

lemma nat_int_pred [simp]: "nat (int n - 1) = n - Suc 0"
  by arith

lemma arr_get_Inr: "arr_get xs i = Inr v \<longleftrightarrow> 0 \<le> i \<and> i < int (length xs) \<and> v = xs ! nat i"
  by (auto simp: arr_get_def)

lemma arr_get_nat [simp]: "n < length xs \<Longrightarrow> arr_get xs (int n) = Inr (xs ! n)"
  by (simp add: arr_get_def)

lemma arr_set_nat [simp]: "n < length xs \<Longrightarrow> arr_set xs (int n) v = Inr (xs[n := v])"
  by (simp add: arr_set_def)

lemma arr_set_Inr: "arr_set xs i v = Inr ys \<longleftrightarrow> 0 \<le> i \<and> i < int (length xs) \<and> ys = xs[nat i := v]"
  by (auto simp: arr_set_def)

subsection \<open>The search loop\<close>

text \<open>
  \<open>for (i = i0; i < n; i++) if (P(xs[i])) { found = i; break; }\<close> with \<open>found = -1\<close> before the
  loop: the index of the first element that satisfies \<open>P\<close>, or \<open>-1\<close>.
\<close>

function search_loop :: "('a \<Rightarrow> bool) \<Rightarrow> 'a list \<Rightarrow> int \<Rightarrow> int \<Rightarrow> int res" where
  "search_loop P xs n i =
     (if i < n
      then bindE (arr_get xs i) (\<lambda>x. if P x then Inr i else search_loop P xs n (i + 1))
      else Inr (-1))"
  by pat_completeness auto
termination
  by (relation "measure (\<lambda>(P, xs, n, i). nat (n - i))") auto

declare search_loop.simps [simp del]

text \<open>The loop's abstract counterpart.\<close>

fun first_index :: "('a \<Rightarrow> bool) \<Rightarrow> 'a list \<Rightarrow> nat option" where
  "first_index P [] = None"
| "first_index P (x # xs) = (if P x then Some 0 else map_option Suc (first_index P xs))"

lemma first_index_None: "first_index P xs = None \<longleftrightarrow> (\<forall>x \<in> set xs. \<not> P x)"
  by (induction xs) auto

lemma first_index_Some:
  "first_index P xs = Some i \<Longrightarrow> i < length xs \<and> P (xs ! i) \<and> (\<forall>j < i. \<not> P (xs ! j))"
proof (induction xs arbitrary: i)
  case Nil
  then show ?case by simp
next
  case (Cons x xs)
  show ?case
  proof (cases "P x")
    case True
    with Cons.prems show ?thesis by simp
  next
    case False
    with Cons.prems obtain k where "i = Suc k" "first_index P xs = Some k"
      by (auto split: if_splits)
    with False Cons.IH[of k] show ?thesis
      by (auto simp: nth_Cons split: nat.splits)
  qed
qed

lemma search_loop_from:
  assumes "k \<le> length xs"
  shows "search_loop P xs (int (length xs)) (int k) =
    (case first_index P (drop k xs) of None \<Rightarrow> Inr (-1) | Some j \<Rightarrow> Inr (int (k + j)))"
  using assms
proof (induction "length xs - k" arbitrary: k)
  case 0
  then show ?case by (simp add: search_loop.simps)
next
  case (Suc d)
  then have k: "k < length xs" by simp
  have step: "search_loop P xs (int (length xs)) (int k) =
    (if P (xs ! k) then Inr (int k) else search_loop P xs (int (length xs)) (int (Suc k)))"
    using k by (subst search_loop.simps) (simp add: add.commute)
  have dk: "drop k xs = xs ! k # drop (Suc k) xs"
    using k by (simp add: Cons_nth_drop_Suc)
  have "d = length xs - Suc k" using Suc.hyps(2) by simp
  from Suc.hyps(1)[OF this] k step dk show ?case
    by (auto split: option.splits)
qed

lemma search_loop_eq:
  assumes "n = int (length xs)"
  shows "search_loop P xs n 0 =
    (case first_index P xs of None \<Rightarrow> Inr (-1) | Some j \<Rightarrow> Inr (int j))"
  using search_loop_from[of 0 xs P] assms by (simp split: option.splits)

text \<open>A sum over the threads, one of which has moved.\<close>

lemma sum_one_moved:
  fixes f :: "nat \<Rightarrow> 'a::comm_monoid_add"
  assumes "c < n" and "\<And>d. d \<noteq> c \<Longrightarrow> f' d = f d"
  shows "(\<Sum>d < n. f' d) + f c = (\<Sum>d < n. f d) + f' c"
proof -
  have "(\<Sum>d \<in> {..<n} - {c}. f' d) = (\<Sum>d \<in> {..<n} - {c}. f d)" using assms(2) by (intro sum.cong) auto
  then show ?thesis using assms(1) by (simp add: sum.remove[of "{..<n}" c] add.commute add.left_commute)
qed

end
