(* ===== verification/Recency.thy ===== *)
theory Recency
  imports C_Prelude
begin

text \<open>
  Recency lists: the most recently used element first. \<open>to_front\<close> marks an element as the most
  recently used one and \<open>recency\<close> is the list that a history of uses leaves behind. The locale
  \<open>recency_stack\<close> is the contract between a component that keeps such a list (the LRU stack of
  the cache simulator) and the one that asks it for a victim.
\<close>

definition to_front :: "'a \<Rightarrow> 'a list \<Rightarrow> 'a list" where
  "to_front x xs = x # remove1 x xs"

lemma set_to_front [simp]: "set (to_front x xs) = insert x (set xs)"
proof (rule set_eqI)
  fix y
  show "y \<in> set (to_front x xs) \<longleftrightarrow> y \<in> insert x (set xs)"
    by (cases "y = x") (simp_all add: to_front_def)
qed

lemma length_to_front: "x \<in> set xs \<Longrightarrow> length (to_front x xs) = length xs"
  using length_pos_if_in_set[of x xs] by (simp add: to_front_def length_remove1)

lemma length_to_front_new: "x \<notin> set xs \<Longrightarrow> length (to_front x xs) = Suc (length xs)"
  by (simp add: to_front_def remove1_idem)

lemma distinct_to_front [simp]: "distinct xs \<Longrightarrow> distinct (to_front x xs)"
  by (simp add: to_front_def)

lemma to_front_split: "x \<notin> set ys \<Longrightarrow> to_front x (ys @ x # zs) = x # ys @ zs"
  by (simp add: to_front_def remove1_append)

lemma to_front_new: "x \<notin> set xs \<Longrightarrow> to_front x xs = x # xs"
  by (simp add: to_front_def remove1_idem)

lemma to_front_filter: "distinct xs \<Longrightarrow> to_front x xs = x # filter (\<lambda>y. y \<noteq> x) xs"
  by (simp add: to_front_def distinct_remove1_removeAll removeAll_filter_not_eq eq_commute)

lemma set_fold_to_front [simp]: "set (fold to_front ns xs) = set ns \<union> set xs"
  by (induction ns arbitrary: xs) auto

subsection \<open>Histories\<close>

definition recency :: "'a list \<Rightarrow> 'a list" where
  "recency ns = rev (remdups ns)"

lemma set_recency [simp]: "set (recency ns) = set ns"
  by (simp add: recency_def)

lemma distinct_recency [simp]: "distinct (recency ns)"
  by (simp add: recency_def)

lemma recency_Nil [simp]: "recency [] = []"
  by (simp add: recency_def)

lemma remdups_snoc: "remdups (ns @ [x]) = filter (\<lambda>y. y \<noteq> x) (remdups ns) @ [x]"
  by (induction ns) auto

lemma recency_snoc: "recency (ns @ [x]) = to_front x (recency ns)"
  by (simp add: recency_def remdups_snoc to_front_filter rev_filter)

lemma fold_to_front:
  assumes "distinct xs"
  shows "fold to_front ns xs = recency ns @ filter (\<lambda>y. y \<notin> set ns) xs"
  using assms
proof (induction ns rule: rev_induct)
  case Nil
  then show ?case by simp
next
  case (snoc n ns)
  have "fold to_front (ns @ [n]) xs = to_front n (recency ns @ filter (\<lambda>y. y \<notin> set ns) xs)"
    using snoc by simp
  also have "\<dots> = n # filter (\<lambda>y. y \<noteq> n) (recency ns)
      @ filter (\<lambda>y. y \<noteq> n) (filter (\<lambda>y. y \<notin> set ns) xs)"
    using snoc.prems by (subst to_front_filter) auto
  also have "\<dots> = recency (ns @ [n]) @ filter (\<lambda>y. y \<notin> set (ns @ [n])) xs"
    by (auto simp: recency_snoc to_front_filter intro: filter_cong)
  finally show ?case .
qed

text \<open>An element is last when everything else has been used since.\<close>

lemma last_fold_to_front:
  assumes "distinct xs" and "n \<in> set xs" and "n \<notin> set ns" and "set xs - {n} \<subseteq> set ns"
  shows "last (fold to_front ns xs) = n"
proof -
  have "filter (\<lambda>y. y \<notin> set ns) xs = filter (\<lambda>y. y = n) xs"
    using assms by (intro filter_cong) auto
  moreover have "filter (\<lambda>y. y = n) xs = [n]"
    using assms(1,2) by (induction xs) (auto simp: filter_empty_conv)
  ultimately show ?thesis
    using assms(1) by (simp add: fold_to_front)
qed

subsection \<open>The contract of a recency stack\<close>

locale recency_stack =
  fixes get :: "'s \<Rightarrow> int res"
    and touch :: "'s \<Rightarrow> int \<Rightarrow> 's res"
    and ranks :: "'s \<Rightarrow> int list"
    and inv :: "'s \<Rightarrow> bool"
  assumes get_last: "inv s \<Longrightarrow> ranks s \<noteq> [] \<Longrightarrow> get s = Inr (last (ranks s))"
    and touch_front: "inv s \<Longrightarrow> n \<in> set (ranks s) \<Longrightarrow>
      \<exists>s'. touch s n = Inr s' \<and> inv s' \<and> ranks s' = to_front n (ranks s)"
    and ranks_distinct: "inv s \<Longrightarrow> distinct (ranks s)"
begin

text \<open>The victim is one of the ways.\<close>

lemma get_member: "inv s \<Longrightarrow> ranks s \<noteq> [] \<Longrightarrow> \<exists>n \<in> set (ranks s). get s = Inr n"
  using get_last last_in_set by blast

text \<open>A history of uses never fails and leaves the ways in order of their last use.\<close>

lemma touch_all:
  "inv s \<Longrightarrow> set ns \<subseteq> set (ranks s) \<Longrightarrow>
    \<exists>s'. foldE touch s ns = Inr s' \<and> inv s' \<and> ranks s' = fold to_front ns (ranks s)"
proof (induction ns arbitrary: s)
  case Nil
  then show ?case by simp
next
  case (Cons n ns)
  then obtain s1 where s1: "touch s n = Inr s1" "inv s1" "ranks s1 = to_front n (ranks s)"
    using touch_front[of s n] by auto
  then have "set ns \<subseteq> set (ranks s1)" using Cons.prems(2) by auto
  with Cons.IH[OF s1(2)] s1 show ?case by simp
qed

text \<open>
  The victim is the way whose last use is the oldest: once every other way has been used since,
  it is \<open>n\<close>.
\<close>

lemma victim_is_least_recent:
  assumes "inv s" and "n \<in> set (ranks s)" and "set ns = set (ranks s) - {n}"
  shows "bindE (foldE touch s (n # ns)) get = Inr n"
proof -
  have "set (n # ns) \<subseteq> set (ranks s)" using assms(2,3) by auto
  then obtain s' where s': "foldE touch s (n # ns) = Inr s'" "inv s'"
    "ranks s' = fold to_front ns (to_front n (ranks s))"
    using touch_all[OF assms(1), of "n # ns"] by auto
  have "n \<notin> set ns" "set (to_front n (ranks s)) - {n} \<subseteq> set ns"
    using assms(3) by auto
  then have "last (ranks s') = n"
    using s'(3) ranks_distinct[OF assms(1)]
      last_fold_to_front[of "to_front n (ranks s)" n ns] by simp
  moreover have "ranks s' \<noteq> []"
    using s'(3) by (metis empty_iff insertI1 list.set(1) set_fold_to_front set_to_front Un_iff)
  ultimately show ?thesis
    using s' get_last by (simp del: foldE.simps)
qed

text \<open>Using the victim again and again goes round all the ways in a fixed order.\<close>

lemma rotate_victim:
  assumes "inv s" and "ranks s \<noteq> []"
  shows "\<exists>s'. bindE (get s) (touch s) = Inr s' \<and> inv s'
    \<and> ranks s' = last (ranks s) # butlast (ranks s)"
proof -
  let ?n = "last (ranks s)"
  have "?n \<notin> set (butlast (ranks s))"
    using ranks_distinct[OF assms(1)] assms(2)
    by (metis append_butlast_last_id distinct_append disjoint_iff list.set_intros(1))
  then have "to_front ?n (butlast (ranks s) @ [?n]) = ?n # butlast (ranks s)"
    by (simp add: to_front_split)
  then have "to_front ?n (ranks s) = ?n # butlast (ranks s)"
    using assms(2) by simp
  moreover obtain s' where "touch s ?n = Inr s'" "inv s'" "ranks s' = to_front ?n (ranks s)"
    using touch_front[OF assms(1), of ?n] assms(2) by auto
  ultimately show ?thesis
    using get_last[OF assms] by simp
qed

end

end
