(* ===== verification/Lru_Stack.thy ===== *)
theory Lru_Stack
  imports Recency
begin

text \<open>
  The LRU stack of the cache simulator (\<open>cache_simulator/lrustack.c\<close>): an array of way numbers
  in recency order, the most recently used first. The model keeps the array and its loops; the
  abstraction is the list of way numbers, on which marking a way as most recently used is a
  move to the front.
\<close>

subsection \<open>The structure and its operations\<close>

record lru_stack_t =
  lru_size :: int
  order :: "int list"

text \<open>
  \<open>malloc\<close> hands out a block with arbitrary contents: it is the argument \<open>block\<close>, and the loop
  of \<open>init_lru_stack\<close> overwrites it.
\<close>

function init_order_loop :: "int \<Rightarrow> int \<Rightarrow> int list \<Rightarrow> int list res" where
  "init_order_loop sz i ord =
     (if i < sz then bindE (arr_set ord i i) (\<lambda>ord'. init_order_loop sz (i + 1) ord')
      else Inr ord)"
  by pat_completeness auto
termination
  by (relation "measure (\<lambda>(sz, i, ord). nat (sz - i))") auto

declare init_order_loop.simps [simp del]

definition init_lru_stack :: "int list \<Rightarrow> int \<Rightarrow> lru_stack_t res" where
  "init_lru_stack block sz =
     bindE (init_order_loop sz 0 block) (\<lambda>ord. Inr \<lparr>lru_size = sz, order = ord\<rparr>)"

definition lru_stack_get_lru :: "lru_stack_t \<Rightarrow> int res" where
  "lru_stack_get_lru stack = arr_get (order stack) (lru_size stack - 1)"

function shift_loop :: "int list \<Rightarrow> int \<Rightarrow> int list res" where
  "shift_loop ord i =
     (if i > 0
      then bindE (arr_get ord (i - 1)) (\<lambda>v.
           bindE (arr_set ord i v) (\<lambda>ord'. shift_loop ord' (i - 1)))
      else Inr ord)"
  by pat_completeness auto
termination
  by (relation "measure (\<lambda>(ord, i). nat i)") auto

declare shift_loop.simps [simp del]

definition lru_stack_set_mru :: "lru_stack_t \<Rightarrow> int \<Rightarrow> lru_stack_t res" where
  "lru_stack_set_mru stack n =
     bindE (search_loop (\<lambda>v. v = n) (order stack) (lru_size stack) 0) (\<lambda>position.
       if position = -1 then Inr stack
       else
         bindE (shift_loop (order stack) position) (\<lambda>ord.
         bindE (arr_set ord 0 n) (\<lambda>ord'. Inr (stack\<lparr>order := ord'\<rparr>))))"

subsection \<open>The invariant and the functional behaviour\<close>

definition lru_inv :: "lru_stack_t \<Rightarrow> bool" where
  "lru_inv st \<longleftrightarrow> lru_size st = int (length (order st)) \<and> distinct (order st)
     \<and> set (order st) = {0..<lru_size st}"

lemma init_order_loop_from:
  "k \<le> length ord \<Longrightarrow>
    init_order_loop (int (length ord)) (int k) ord
      = Inr (take k ord @ map int [k..<length ord])"
proof (induction "length ord - k" arbitrary: k ord)
  case 0
  then show ?case by (simp add: init_order_loop.simps)
next
  case (Suc d)
  then have k: "k < length ord" by simp
  let ?ord = "ord[k := int k]"
  have "init_order_loop (int (length ?ord)) (int (Suc k)) ?ord
      = Inr (take (Suc k) ?ord @ map int [Suc k..<length ?ord])"
    by (rule Suc.hyps(1)) (use Suc.hyps(2) k in auto)
  moreover have "take (Suc k) ?ord = take k ord @ [int k]"
    using k by (simp add: take_Suc_conv_app_nth)
  moreover have "[k..<length ord] = k # [Suc k..<length ord]"
    using k by (simp add: upt_conv_Cons)
  ultimately show ?case
    using k by (subst init_order_loop.simps) (simp add: add.commute)
qed

lemma init_lru_stack_eq:
  assumes "int (length block) = sz"
  shows "init_lru_stack block sz
    = Inr \<lparr>lru_size = sz, order = map int [0..<length block]\<rparr>"
  using init_order_loop_from[of 0 block] assms by (auto simp: init_lru_stack_def)

lemma init_lru_stack_inv:
  assumes "int (length block) = sz" and "init_lru_stack block sz = Inr st"
  shows "lru_inv st"
  using assms
  by (auto simp: init_lru_stack_eq lru_inv_def distinct_map image_int_atLeastLessThan)

lemma shift_loop_eq:
  "length ys < length ord \<Longrightarrow> take (Suc (length ys)) ord = ys @ [x] \<Longrightarrow>
    \<exists>z. shift_loop ord (int (length ys)) = Inr (z # ys @ drop (Suc (length ys)) ord)"
proof (induction ys arbitrary: ord x rule: rev_induct)
  case Nil
  then show ?case
    by (cases ord) (auto simp: shift_loop.simps)
next
  case (snoc y ys)
  let ?n = "length ys"
  let ?ord = "ord[Suc ?n := y]"
  have n: "Suc ?n < length ord" using snoc.prems(1) by simp
  have y: "ord ! ?n = y"
    using snoc.prems(2) n by (metis append.assoc append_Cons length_append_singleton lessI
        nth_append_length nth_take less_SucI)
  have "take (Suc (Suc ?n)) ord = ys @ [y, x]"
    using snoc.prems(2) by simp
  then have "take (Suc ?n) (take (Suc (Suc ?n)) ord) = ys @ [y]"
    by simp
  then have "take (Suc ?n) ord = ys @ [y]"
    by (simp add: min_def)
  then obtain z where z: "shift_loop ?ord (int ?n) = Inr (z # ys @ drop (Suc ?n) ?ord)"
    using snoc.IH[of ?ord y] n by auto
  have "drop (Suc ?n) ?ord = y # drop (Suc (Suc ?n)) ord"
    using n by (simp add: drop_update_swap Cons_nth_drop_Suc[symmetric])
  moreover have "shift_loop ord (int (Suc ?n)) = shift_loop ?ord (int ?n)"
    using n y by (subst shift_loop.simps)
      (simp add: arr_get_def arr_set_def nat_add_distrib)
  ultimately show ?case using z by simp
qed

lemma lru_stack_set_mru_eq:
  assumes "lru_inv st" and "n \<in> set (order st)"
  shows "lru_stack_set_mru st n = Inr (st\<lparr>order := to_front n (order st)\<rparr>)"
proof -
  obtain ys zs where ord: "order st = ys @ n # zs" and n: "n \<notin> set ys"
    using assms(2) by (meson split_list_first)
  have "first_index (\<lambda>v. v = n) (ys @ n # zs) = Some (length ys)"
    using n by (induction ys) auto
  then have pos: "search_loop (\<lambda>v. v = n) (order st) (lru_size st) 0 = Inr (int (length ys))"
    using assms(1) ord by (simp add: search_loop_eq lru_inv_def)
  obtain z where "shift_loop (order st) (int (length ys)) = Inr (z # ys @ zs)"
    using shift_loop_eq[of ys "order st" n] ord by auto
  with pos show ?thesis
    using n ord by (simp add: lru_stack_set_mru_def arr_set_def to_front_split)
qed

lemma lru_stack_get_lru_eq:
  assumes "lru_inv st" and "order st \<noteq> []"
  shows "lru_stack_get_lru st = Inr (last (order st))"
  using assms by (simp add: lru_stack_get_lru_def lru_inv_def arr_get_def last_conv_nth)

lemma lru_set_mru_absent:
  assumes "lru_inv st" and "n \<notin> set (order st)"
  shows "lru_stack_set_mru st n = Inr st"
proof -
  have "first_index (\<lambda>v. v = n) (order st) = None"
    using assms(2) by (auto simp: first_index_None)
  then show ?thesis
    using assms(1) by (simp add: lru_stack_set_mru_def search_loop_eq lru_inv_def)
qed

lemma lru_inv_to_front:
  assumes "lru_inv st" and "n \<in> set (order st)"
  shows "lru_inv (st\<lparr>order := to_front n (order st)\<rparr>)"
  using assms by (auto simp: lru_inv_def length_to_front)

subsection \<open>The stack keeps the contract\<close>

interpretation lru: recency_stack lru_stack_get_lru lru_stack_set_mru order lru_inv
proof (unfold_locales, goal_cases)
  case (1 s)
  then show ?case by (rule lru_stack_get_lru_eq)
next
  case (2 s n)
  then show ?case by (auto simp: lru_stack_set_mru_eq intro: lru_inv_to_front)
next
  case (3 s)
  then show ?case by (simp add: lru_inv_def)
qed

end
