(* ===== verification/Lru_Test.thy ===== *)
theory Lru_Test
  imports Lru_Stack
begin

text \<open>
  The test program of the LRU stack (\<open>cache_simulator/lrustacktest.c\<close>), as the list of results it
  prints: test number, expected and actual value. Theorems about the stack as its client sees
  it, over any history of uses.
\<close>

type_synonym test_run = "lru_stack_t \<times> (int \<times> int \<times> int) list"

text \<open>\<open>assert_equal(test_num++, expected, lru_stack_get_lru(stack))\<close> appends a result.\<close>

definition expect_lru :: "int \<Rightarrow> test_run \<Rightarrow> test_run res" where
  "expect_lru expected run = (case run of (st, results) \<Rightarrow>
     bindE (lru_stack_get_lru st) (\<lambda>actual.
       Inr (st, results @ [(int (length results) + 1, expected, actual)])))"

definition mark :: "int \<Rightarrow> test_run \<Rightarrow> test_run res" where
  "mark n run = (case run of (st, results) \<Rightarrow>
     bindE (lru_stack_set_mru st n) (\<lambda>st'. Inr (st', results)))"

definition mark_lru :: "test_run \<Rightarrow> test_run res" where
  "mark_lru run = bindE (lru_stack_get_lru (fst run)) (\<lambda>n. mark n run)"

definition count_down :: "int \<Rightarrow> int \<Rightarrow> int list" where
  "count_down hi lo = rev [lo..hi]"

definition run_t_tests :: "int list \<Rightarrow> (int \<times> int \<times> int) list res" where
  "run_t_tests block =
     (let n = 8 in
      bindE (init_lru_stack block n) (\<lambda>st.
      bindE (foldE (\<lambda>run i. mark i run) (st, []) (count_down (n - 1) 0)) (\<lambda>r1.
      bindE (expect_lru (n - 1) r1) (\<lambda>r2.
      bindE (foldE (\<lambda>run i. bindE (mark i run) (expect_lru (i - 1))) r2 (count_down (n - 1) 1)) (\<lambda>r3.
      bindE (mark 4 r3) (\<lambda>r4.
      bindE (foldE (\<lambda>run i. mark_lru run) r4 [0..n - 2]) (\<lambda>r5.
      bindE (expect_lru 4 r5) (\<lambda>r6. Inr (snd r6)))))))))"

lemma block_8_cells: "length block = 8 \<Longrightarrow> run_t_tests block = run_t_tests (replicate 8 0)"
  using init_lru_stack_eq[of block 8] init_lru_stack_eq[of "replicate 8 0" 8]
  by (simp add: run_t_tests_def Let_def)

text \<open>
  The test program of the LRU stack runs without fault and each of its nine checks succeeds,
  whatever the uninitialized array holds.
\<close>

lemma lru_tests_succeed:
  assumes "length block = 8"
  shows "\<exists>results. run_t_tests block = Inr results \<and> length results = 9
    \<and> (\<forall>(num, expected, actual) \<in> set results. expected = actual)"
proof -
  have "run_t_tests (replicate 8 0) = Inr
    [(1, 7, 7), (2, 6, 6), (3, 5, 5), (4, 4, 4), (5, 3, 3), (6, 2, 2), (7, 1, 1), (8, 0, 0), (9, 4, 4)]"
    by code_simp
  then show ?thesis using block_8_cells[OF assms] by simp
qed

lemma lru_tests_succeed_example:
  "\<exists>results. run_t_tests [5, 5, 5, 5, 9, 9, 9, 9] = Inr results
    \<and> (\<forall>(num, expected, actual) \<in> set results. expected = actual)"
  using lru_tests_succeed[of "[5, 5, 5, 5, 9, 9, 9, 9]"] by auto



end
