(* ===== verification/Cache_Sim.thy ===== *)
theory Cache_Sim
  imports Lru_Stack
begin

unbundle bit_operations_syntax

text \<open>
  The cache simulator (\<open>cache_simulator/cachesim.h\<close>, \<open>cachesim.c\<close>): the cache as an array of
  sets, each with its blocks and its LRU stack, the address split, one access, and the loop over
  a trace. The globals of \<open>cachesim.c\<close> are the fields of the record \<open>cachesim\<close>.
\<close>

subsection \<open>Data\<close>

definition MEMREAD :: int where "MEMREAD = 0"

definition MEMWRITE :: int where "MEMWRITE = 1"

definition IFETCH :: int where "IFETCH = 2"

text \<open>
  The tag of an address is 64 bits wide, but \<open>cache_block_t\<close> keeps it in an \<open>int\<close>, so \<open>tag\<close> is a
  32-bit word here; it is read back with its sign.
\<close>

record cache_block_t =
  tag :: u32
  valid :: int
  dirty :: int

record cache_set_t =
  set_size :: int
  stack :: lru_stack_t
  blocks :: "cache_block_t list"

record cachesim =
  accesses :: u64
  hits :: u64
  misses :: u64
  writebacks :: u64
  cache :: "cache_set_t list"
  block_size :: int
  cache_size :: int
  ways :: int
  num_sets :: int
  num_offset_bits :: int
  num_index_bits :: int

subsection \<open>Initialization\<close>

function log_loop :: "int \<Rightarrow> int \<Rightarrow> int" where
  "log_loop x val = (if x > 1 then log_loop (x sdiv 2) (val + 1) else val)"
  by pat_completeness auto
termination
  by (relation "measure (\<lambda>(x, val). nat x)") (auto simp: sdiv_nonneg_int)

declare log_loop.simps [simp del]

definition simple_log_2 :: "int \<Rightarrow> int" where
  "simple_log_2 x = log_loop x 0"

text \<open>
  What \<open>malloc\<close> returns holds arbitrary data: \<open>junk_block i\<close> and \<open>junk_order i\<close> are the contents
  of the two arrays allocated for set \<open>i\<close>, cell by cell.
\<close>

record junk =
  junk_block :: "int \<Rightarrow> nat \<Rightarrow> cache_block_t"
  junk_order :: "int \<Rightarrow> nat \<Rightarrow> int"

definition malloc_array :: "(nat \<Rightarrow> 'a) \<Rightarrow> int \<Rightarrow> 'a list" where
  "malloc_array contents n = map contents [0..<nat n]"

function clear_blocks_loop :: "int \<Rightarrow> int \<Rightarrow> cache_block_t list \<Rightarrow> cache_block_t list res" where
  "clear_blocks_loop w j bs =
     (if j < w
      then bindE (arr_get bs j) (\<lambda>b.
           bindE (arr_set bs j (b\<lparr>tag := 0, valid := 0, dirty := 0\<rparr>)) (\<lambda>bs'.
             clear_blocks_loop w (j + 1) bs'))
      else Inr bs)"
  by pat_completeness auto
termination
  by (relation "measure (\<lambda>(w, j, bs). nat (w - j))") auto

declare clear_blocks_loop.simps [simp del]

definition init_set :: "junk \<Rightarrow> int \<Rightarrow> int \<Rightarrow> cache_set_t res" where
  "init_set jk w i =
     bindE (init_lru_stack (malloc_array (junk_order jk i) w) w) (\<lambda>st.
     bindE (clear_blocks_loop w 0 (malloc_array (junk_block jk i) w)) (\<lambda>bs.
       Inr \<lparr>set_size = w, stack = st, blocks = bs\<rparr>))"

function init_sets_loop :: "junk \<Rightarrow> int \<Rightarrow> int \<Rightarrow> int \<Rightarrow> cache_set_t list res" where
  "init_sets_loop jk w n i =
     (if i < n
      then bindE (init_set jk w i) (\<lambda>cs.
           bindE (init_sets_loop jk w n (i + 1)) (\<lambda>rest. Inr (cs # rest)))
      else Inr [])"
  by pat_completeness auto
termination
  by (relation "measure (\<lambda>(jk, w, n, i). nat (n - i))") auto

declare init_sets_loop.simps [simp del]

definition cachesim_init :: "junk \<Rightarrow> int \<Rightarrow> int \<Rightarrow> int \<Rightarrow> cachesim res" where
  "cachesim_init jk bsize csize w =
     bindE (chk_int (bsize * w)) (\<lambda>set_bytes.
     bindE (div_int csize set_bytes) (\<lambda>n.
     bindE (init_sets_loop jk w n 0) (\<lambda>sets.
       Inr \<lparr>accesses = 0, hits = 0, misses = 0, writebacks = 0, cache = sets,
            block_size = bsize, cache_size = csize, ways = w, num_sets = n,
            num_offset_bits = simple_log_2 bsize, num_index_bits = simple_log_2 n\<rparr>)))"

subsection \<open>One access\<close>

definition block_addr_of :: "cachesim \<Rightarrow> u64 \<Rightarrow> u64" where
  "block_addr_of s pa = drop_bit (nat (num_offset_bits s)) pa"

text \<open>The mask \<open>(1 << num_index_bits) - 1\<close> is an \<open>int\<close>, and so is the resulting set index.\<close>

definition set_index_of :: "cachesim \<Rightarrow> u64 \<Rightarrow> int" where
  "set_index_of s ba =
     sint (ucast (ba AND word_of_int (2 ^ nat (num_index_bits s) - 1)) :: u32)"

definition tag_of :: "cachesim \<Rightarrow> u64 \<Rightarrow> u64" where
  "tag_of s ba = drop_bit (nat (num_index_bits s)) ba"

text \<open>\<open>set->blocks[i].valid && set->blocks[i].tag == tag\<close>: the \<open>int\<close> is sign-extended.\<close>

definition block_matches :: "u64 \<Rightarrow> cache_block_t \<Rightarrow> bool" where
  "block_matches t b \<longleftrightarrow> valid b \<noteq> 0 \<and> scast (tag b) = t"

text \<open>\<open>set\<close> points into the cache array: what the code writes through it is stored there.\<close>

definition put_set :: "cachesim \<Rightarrow> int \<Rightarrow> cache_set_t \<Rightarrow> cachesim res" where
  "put_set s idx cs = bindE (arr_set (cache s) idx cs) (\<lambda>sets. Inr (s\<lparr>cache := sets\<rparr>))"

definition access_hit :: "cachesim \<Rightarrow> int \<Rightarrow> cache_set_t \<Rightarrow> int \<Rightarrow> int \<Rightarrow> cachesim res" where
  "access_hit s idx cs hit access_type =
     (let s1 = s\<lparr>hits := hits s + 1\<rparr> in
      bindE (if access_type = MEMWRITE
             then bindE (arr_get (blocks cs) hit) (\<lambda>b. arr_set (blocks cs) hit (b\<lparr>dirty := 1\<rparr>))
             else Inr (blocks cs)) (\<lambda>bs.
      bindE (lru_stack_set_mru (stack cs) hit) (\<lambda>st.
        put_set s1 idx (cs\<lparr>blocks := bs, stack := st\<rparr>))))"

definition choose_victim :: "cachesim \<Rightarrow> cache_set_t \<Rightarrow> (int \<times> cachesim) res" where
  "choose_victim s cs =
     bindE (lru_stack_get_lru (stack cs)) (\<lambda>way.
     bindE (arr_get (blocks cs) way) (\<lambda>b.
       Inr (way, if dirty b \<noteq> 0 then s\<lparr>writebacks := writebacks s + 1\<rparr> else s)))"

definition fill_block ::
    "cachesim \<Rightarrow> int \<Rightarrow> cache_set_t \<Rightarrow> int \<Rightarrow> u64 \<Rightarrow> int \<Rightarrow> cachesim res" where
  "fill_block s idx cs way t access_type =
     bindE (arr_get (blocks cs) way) (\<lambda>b.
     bindE (arr_set (blocks cs) way
        (b\<lparr>tag := ucast t, valid := 1, dirty := if access_type = MEMWRITE then 1 else 0\<rparr>)) (\<lambda>bs.
     bindE (lru_stack_set_mru (stack cs) way) (\<lambda>st.
       put_set s idx (cs\<lparr>blocks := bs, stack := st\<rparr>))))"

definition cachesim_access :: "cachesim \<Rightarrow> u64 \<Rightarrow> int \<Rightarrow> cachesim res" where
  "cachesim_access s physical_addr access_type =
     (let s1 = s\<lparr>accesses := accesses s + 1\<rparr>;
          block_addr = block_addr_of s1 physical_addr;
          set_index = set_index_of s1 block_addr;
          t = tag_of s1 block_addr
      in
      bindE (arr_get (cache s1) set_index) (\<lambda>cs.
      bindE (search_loop (block_matches t) (blocks cs) (ways s1) 0) (\<lambda>hit.
        if hit \<noteq> -1 then access_hit s1 set_index cs hit access_type
        else
          let s2 = s1\<lparr>misses := misses s1 + 1\<rparr> in
          bindE (search_loop (\<lambda>b. valid b = 0) (blocks cs) (ways s2) 0) (\<lambda>invalid.
          bindE (if invalid = -1 then choose_victim s2 cs else Inr (invalid, s2))
            (\<lambda>(way, s3). fill_block s3 set_index cs way t access_type)))))"

subsection \<open>The trace loop\<close>

text \<open>
  A line of the trace is an access type, an address and an instruction word, which is read and
  not used. \<open>fscanf\<close>'s trailing white space sets the end-of-file flag together with the last
  line; on an empty file the flag is not set before the first read, whose failure leaves \<open>t\<close> and
  \<open>address\<close> unwritten: \<open>unread\<close> is what these two variables then hold.
\<close>

record trace_file =
  rest :: "(int \<times> u64 \<times> u64) list"
  eof :: bool

definition open_trace :: "(int \<times> u64 \<times> u64) list \<Rightarrow> trace_file" where
  "open_trace ls = \<lparr>rest = ls, eof = False\<rparr>"

definition next_line ::
    "int \<times> u64 \<Rightarrow> trace_file \<Rightarrow> cachesim \<Rightarrow> (bool \<times> trace_file \<times> cachesim) res" where
  "next_line unread tr s =
     (if eof tr then Inr (False, tr, s)
      else
        let ((t, address), tr') =
          (case rest tr of
             [] \<Rightarrow> (unread, tr\<lparr>eof := True\<rparr>)
           | (t, address, instr) # ls \<Rightarrow> ((t, address), \<lparr>rest = ls, eof = (ls = [])\<rparr>))
        in bindE (cachesim_access s address t) (\<lambda>s'. Inr (True, tr', s')))"

function trace_loop :: "int \<times> u64 \<Rightarrow> trace_file \<Rightarrow> cachesim \<Rightarrow> cachesim res" where
  "trace_loop unread tr s =
     bindE (next_line unread tr s) (\<lambda>(more, tr', s').
       if more then trace_loop unread tr' s' else Inr s')"
  by pat_completeness auto
termination
  by (relation "measure (\<lambda>(unread, tr, s). length (rest tr) + (if eof tr then 0 else 1))")
    (auto simp: next_line_def split: if_splits list.splits)

declare trace_loop.simps [simp del]

text \<open>What \<open>cachesim_print_stats\<close> prints, in its order.\<close>

definition cachesim_stats :: "cachesim \<Rightarrow> u64 \<times> u64 \<times> u64 \<times> u64" where
  "cachesim_stats s = (accesses s, hits s, misses s, writebacks s)"

text \<open>\<open>main\<close>, from the arguments as numbers and the lines of the trace to the printed line.\<close>

definition cachesim_main ::
    "junk \<Rightarrow> int \<times> u64 \<Rightarrow> (int \<times> u64 \<times> u64) list \<Rightarrow> int \<Rightarrow> int \<Rightarrow> int
      \<Rightarrow> (u64 \<times> u64 \<times> u64 \<times> u64) res" where
  "cachesim_main jk unread ls bsize csize w =
     bindE (cachesim_init jk bsize csize w) (\<lambda>s.
     bindE (trace_loop unread (open_trace ls) s) (\<lambda>s'. Inr (cachesim_stats s')))"

end
