(* ===== verification/Linked_List.thy ===== *)
theory Linked_List
  imports C_Prelude
begin

text \<open>
  Singly linked lists in memory, as the scheduler's ready queue, its I/O queue and the swap
  queue of the virtual-memory simulator use them: a small heap with \<open>malloc\<close> and \<open>free\<close>, the
  list that a chain of \<open>next\<close> pointers represents, the head/tail representation of a FIFO queue,
  and the contract of such a queue as a locale.
\<close>

subsection \<open>A heap of cells\<close>

text \<open>
  \<open>brk\<close> is the next address \<open>malloc\<close> hands out (an address is never handed out twice) and
  \<open>avail\<close> the number of cells that still fit: with none left \<open>malloc\<close> returns \<open>NULL\<close>.
\<close>

record 'a heap =
  cells :: "nat \<Rightarrow> 'a option"
  brk :: nat
  avail :: nat

definition heap_ok :: "'a heap \<Rightarrow> bool" where
  "heap_ok h \<longleftrightarrow> (\<forall>a. cells h a \<noteq> None \<longrightarrow> a < brk h)"

definition heap_alloc :: "'a heap \<Rightarrow> 'a \<Rightarrow> (nat \<times> 'a heap) option" where
  "heap_alloc h v = (if avail h = 0 then None
     else Some (brk h, h\<lparr>cells := (cells h)(brk h \<mapsto> v), brk := Suc (brk h), avail := avail h - 1\<rparr>))"

definition heap_free :: "'a heap \<Rightarrow> nat \<Rightarrow> 'a heap res" where
  "heap_free h a = (if cells h a = None then Inl Dangling
     else Inr (h\<lparr>cells := (cells h)(a := None), avail := Suc (avail h)\<rparr>))"

definition load :: "'a heap \<Rightarrow> nat option \<Rightarrow> 'a res" where
  "load h p = (case p of None \<Rightarrow> Inl Null_Deref
     | Some a \<Rightarrow> (case cells h a of None \<Rightarrow> Inl Dangling | Some v \<Rightarrow> Inr v))"

definition store :: "'a heap \<Rightarrow> nat option \<Rightarrow> 'a \<Rightarrow> 'a heap res" where
  "store h p v = (case p of None \<Rightarrow> Inl Null_Deref
     | Some a \<Rightarrow> (case cells h a of None \<Rightarrow> Inl Dangling
         | Some _ \<Rightarrow> Inr (h\<lparr>cells := (cells h)(a \<mapsto> v)\<rparr>)))"

lemma load_Some [simp]: "cells h a = Some v \<Longrightarrow> load h (Some a) = Inr v"
  by (simp add: load_def)

lemma load_None [simp]: "load h None = Inl Null_Deref"
  by (simp add: load_def)

lemma store_Some [simp]:
  "cells h a = Some w \<Longrightarrow> store h (Some a) v = Inr (h\<lparr>cells := (cells h)(a \<mapsto> v)\<rparr>)"
  by (simp add: store_def)

lemma heap_ok_store: "heap_ok h \<Longrightarrow> cells h a \<noteq> None \<Longrightarrow> heap_ok (h\<lparr>cells := (cells h)(a \<mapsto> v)\<rparr>)"
  by (auto simp: heap_ok_def)

lemma heap_fresh: "heap_ok h \<Longrightarrow> cells h (brk h) = None"
  by (auto simp: heap_ok_def)

subsection \<open>Chains of pointers\<close>

fun chain :: "(nat \<Rightarrow> nat option) \<Rightarrow> nat option \<Rightarrow> nat list \<Rightarrow> nat option \<Rightarrow> bool" where
  "chain nxt p [] q \<longleftrightarrow> p = q"
| "chain nxt p (a # as) q \<longleftrightarrow> p = Some a \<and> chain nxt (nxt a) as q"

lemma chain_append: "chain nxt p (as @ bs) q \<longleftrightarrow> (\<exists>r. chain nxt p as r \<and> chain nxt r bs q)"
  by (induction as arbitrary: p) auto

lemma chain_cong:
  "chain nxt p as q \<Longrightarrow> (\<And>a. a \<in> set as \<Longrightarrow> nxt' a = nxt a) \<Longrightarrow> chain nxt' p as q"
  by (induction as arbitrary: p) auto

lemma chain_upd: "a \<notin> set as \<Longrightarrow> chain (nxt(a := y)) p as q \<longleftrightarrow> chain nxt p as q"
  by (induction as arbitrary: p) auto

lemma chain_det: "chain nxt p as None \<Longrightarrow> chain nxt p bs None \<Longrightarrow> as = bs"
proof (induction as arbitrary: p bs)
  case Nil
  then show ?case by (cases bs) auto
next
  case (Cons a as)
  then show ?case by (cases bs) auto
qed

text \<open>A chain that ends cannot pass the same cell twice.\<close>

lemma chain_hd_notin: "chain nxt (nxt a) as None \<Longrightarrow> a \<notin> set as"
proof
  assume ch: "chain nxt (nxt a) as None" and "a \<in> set as"
  then obtain bs cs where "as = bs @ a # cs" by (meson split_list)
  with ch have "chain nxt (nxt a) cs None" by (auto simp: chain_append)
  with ch have "as = cs" by (rule chain_det)
  with \<open>as = bs @ a # cs\<close> show False by simp
qed

lemma chain_distinct: "chain nxt p as None \<Longrightarrow> distinct as"
  by (induction as arbitrary: p) (auto dest: chain_hd_notin)

subsection \<open>A queue by its head and tail\<close>

definition fifo :: "(nat \<Rightarrow> nat option) \<Rightarrow> nat option \<Rightarrow> nat option \<Rightarrow> nat list \<Rightarrow> bool" where
  "fifo nxt fr bk as \<longleftrightarrow> chain nxt fr as None \<and> bk = (if as = [] then None else Some (last as))"

lemma fifo_distinct: "fifo nxt fr bk as \<Longrightarrow> distinct as"
  by (auto simp: fifo_def dest: chain_distinct)

lemma fifo_head_None: "fifo nxt fr bk as \<Longrightarrow> fr = None \<longleftrightarrow> as = []"
  by (cases as) (auto simp: fifo_def)

lemma fifo_tail_None: "fifo nxt fr bk as \<Longrightarrow> bk = None \<longleftrightarrow> as = []"
  by (auto simp: fifo_def)

lemma fifo_empty: "fifo nxt None None []"
  by (simp add: fifo_def)

lemma fifo_det: "fifo nxt fr bk as \<Longrightarrow> fifo nxt fr bk bs \<Longrightarrow> as = bs"
  by (auto simp: fifo_def dest: chain_det)

lemma fifo_cong:
  "fifo nxt fr bk as \<Longrightarrow> (\<And>a. a \<in> set as \<Longrightarrow> nxt' a = nxt a) \<Longrightarrow> fifo nxt' fr bk as"
  by (auto simp: fifo_def intro: chain_cong)

lemma fifo_enqueue_first:
  "fifo nxt fr bk [] \<Longrightarrow> fifo (nxt(a := None)) (Some a) (Some a) [a]"
  by (simp add: fifo_def)

lemma fifo_enqueue:
  assumes "fifo nxt fr (Some t) as" and "a \<notin> set as"
  shows "fifo (nxt(a := None, t := Some a)) fr (Some a) (as @ [a])"
proof -
  obtain bs where as: "as = bs @ [t]"
    using assms(1) by (cases as rule: rev_cases) (auto simp: fifo_def)
  have "t \<notin> set bs" using fifo_distinct[OF assms(1)] as by simp
  moreover have "chain nxt fr (bs @ [t]) None" using assms(1) as by (simp add: fifo_def)
  ultimately show ?thesis
    using assms(2) as by (auto simp: fifo_def chain_append chain_upd)
qed

lemma fifo_dequeue:
  assumes "fifo nxt fr bk (a # as)"
  shows "fr = Some a" and "fifo nxt (nxt a) (if nxt a = None then None else bk) as"
    and "a \<notin> set as"
  using assms fifo_distinct[OF assms] by (cases as; auto simp: fifo_def)+

lemma fifo_unlink:
  assumes "fifo nxt fr bk (as @ a # bs)"
  shows "fifo (if as = [] then nxt else nxt(last as := nxt a)) (if as = [] then nxt a else fr)
    (if bk = Some a then (if as = [] then None else Some (last as)) else bk) (as @ bs)"
proof (cases as rule: rev_cases)
  case Nil
  then show ?thesis
    using assms fifo_distinct[OF assms] by (cases bs rule: rev_cases) (auto simp: fifo_def)
next
  case (snoc cs c)
  have dist: "distinct (cs @ c # a # bs)" using fifo_distinct[OF assms] snoc by simp
  have "chain nxt fr cs (Some c)" "chain nxt (nxt a) bs None"
    using assms snoc by (auto simp: fifo_def chain_append)
  then have "chain (nxt(c := nxt a)) fr (cs @ c # bs) None"
    using dist by (auto simp: chain_append chain_upd)
  then show ?thesis
    using assms snoc dist by (cases bs rule: rev_cases) (auto simp: fifo_def)
qed

subsection \<open>The contract of a FIFO queue\<close>

text \<open>
  \<open>put\<close> appends an element (that satisfies \<open>fresh\<close> in the current state) and \<open>get\<close> takes the
  first one out; \<open>items\<close> relates a state to the elements it holds, in order.
\<close>

fun get_n :: "('s \<Rightarrow> ('e option \<times> 's) res) \<Rightarrow> nat \<Rightarrow> 's \<Rightarrow> ('e option list \<times> 's) res" where
  "get_n get 0 s = Inr ([], s)"
| "get_n get (Suc n) s = bindE (get s) (\<lambda>(x, s').
     bindE (get_n get n s') (\<lambda>(xs, s''). Inr (x # xs, s'')))"

locale fifo_queue =
  fixes put :: "'s \<Rightarrow> 'e \<Rightarrow> 's res"
    and get :: "'s \<Rightarrow> ('e option \<times> 's) res"
    and items :: "'s \<Rightarrow> 'e list \<Rightarrow> bool"
    and fresh :: "'s \<Rightarrow> 'e set"
  assumes put_law: "items s xs \<Longrightarrow> x \<in> fresh s \<Longrightarrow>
      \<exists>s'. put s x = Inr s' \<and> items s' (xs @ [x]) \<and> fresh s - {x} \<subseteq> fresh s'"
    and get_empty: "items s [] \<Longrightarrow> get s = Inr (None, s)"
    and get_law: "items s (x # xs) \<Longrightarrow> \<exists>s'. get s = Inr (Some x, s') \<and> items s' xs"
begin

lemma put_list_items:
  "items s xs \<Longrightarrow> distinct ys \<Longrightarrow> set ys \<subseteq> fresh s \<Longrightarrow>
    \<exists>s'. foldE put s ys = Inr s' \<and> items s' (xs @ ys)"
proof (induction ys arbitrary: s xs)
  case Nil
  then show ?case by simp
next
  case (Cons y ys)
  then obtain s1 where s1: "put s y = Inr s1" "items s1 (xs @ [y])" "fresh s - {y} \<subseteq> fresh s1"
    using put_law[of s xs y] by auto
  then have "set ys \<subseteq> fresh s1" using Cons.prems(2,3) by auto
  with Cons.IH[OF s1(2)] Cons.prems(2) s1(1) show ?case by simp
qed

lemma get_n_items:
  "items s (xs @ ys) \<Longrightarrow> \<exists>s'. get_n get (length xs) s = Inr (map Some xs, s') \<and> items s' ys"
proof (induction xs arbitrary: s)
  case Nil
  then show ?case by simp
next
  case (Cons x xs)
  then obtain s1 where s1: "get s = Inr (Some x, s1)" "items s1 (xs @ ys)"
    using get_law[of s x "xs @ ys"] by auto
  with Cons.IH[OF s1(2)] show ?case by auto
qed

text \<open>First in, first out: what was in the queue comes out first, then the new elements in order.\<close>

lemma first_in_first_out:
  assumes "items s xs" and "distinct ys" and "set ys \<subseteq> fresh s"
  shows "\<exists>s'. bindE (foldE put s ys) (get_n get (length xs + length ys)) = Inr (map Some (xs @ ys), s')
    \<and> items s' []"
proof -
  obtain s1 where s1: "foldE put s ys = Inr s1" "items s1 (xs @ ys)"
    using put_list_items[OF assms] by auto
  then show ?thesis using get_n_items[of s1 "xs @ ys" "[]"] by auto
qed

end

end
