(* ===== verification/Cache_Memory.thy ===== *)
theory Cache_Memory
  imports Cache_Sim Linked_List
begin

text \<open>
  The cache simulator in memory (\<open>cache_simulator/lrustack.c\<close>, \<open>cachesim.c\<close>): the same program as
  \<open>Lru_Stack\<close> and \<open>Cache_Sim\<close>, now with the objects that it allocates, the pointers between them,
  and \<open>malloc\<close> and \<open>free\<close>. Every access goes through the pointers that the code follows, so an
  access through \<open>NULL\<close> or after a \<open>free\<close>, and a second \<open>free\<close>, are failures of the model.
\<close>

subsection \<open>Objects\<close>

text \<open>
  The heap is that of \<open>Linked_List\<close>; \<open>avail\<close> counts the objects that still fit. The program
  allocates four kinds of object: the array \<open>cache\<close>, the blocks of a set, the struct of a stack
  and its array \<open>order\<close>.
\<close>

record stack_cell =
  sc_size :: int
  sc_order :: "nat option"

record set_cell =
  cell_size :: int
  cell_stack :: "nat option"
  cell_blocks :: "nat option"

datatype mem_object =
    Set_Array "set_cell list"
  | Block_Array "cache_block_t list"
  | Stack_Struct stack_cell
  | Order_Array "int list"

type_synonym memory = "mem_object heap"

text \<open>
  \<open>malloc\<close> for \<open>n\<close> elements: a negative \<open>n\<close>, converted to an unsigned size, is more than any memory has; \<open>malloc(0)\<close> is an
  object of its own. \<open>free(NULL)\<close> does nothing.
\<close>

definition malloc_obj :: "memory \<Rightarrow> int \<Rightarrow> mem_object \<Rightarrow> nat option \<times> memory" where
  "malloc_obj h n obj =
     (if n < 0 then (None, h)
      else case heap_alloc h obj of None \<Rightarrow> (None, h) | Some (a, h') \<Rightarrow> (Some a, h'))"

definition free_obj :: "memory \<Rightarrow> nat option \<Rightarrow> memory res" where
  "free_obj h p = (case p of None \<Rightarrow> Inr h | Some a \<Rightarrow> heap_free h a)"

text \<open>The typed accesses: \<open>p[i]\<close> for each kind of array, and the fields of a stack.\<close>

definition read_set :: "memory \<Rightarrow> nat option \<Rightarrow> int \<Rightarrow> set_cell res" where
  "read_set h p i = bindE (load h p) (\<lambda>obj.
     case obj of Set_Array xs \<Rightarrow> arr_get xs i | _ \<Rightarrow> Inl Type_Confusion)"

definition write_set :: "memory \<Rightarrow> nat option \<Rightarrow> int \<Rightarrow> set_cell \<Rightarrow> memory res" where
  "write_set h p i c = bindE (load h p) (\<lambda>obj.
     case obj of Set_Array xs \<Rightarrow> bindE (arr_set xs i c) (\<lambda>ys. store h p (Set_Array ys))
     | _ \<Rightarrow> Inl Type_Confusion)"

definition read_block :: "memory \<Rightarrow> nat option \<Rightarrow> int \<Rightarrow> cache_block_t res" where
  "read_block h p i = bindE (load h p) (\<lambda>obj.
     case obj of Block_Array xs \<Rightarrow> arr_get xs i | _ \<Rightarrow> Inl Type_Confusion)"

definition write_block :: "memory \<Rightarrow> nat option \<Rightarrow> int \<Rightarrow> cache_block_t \<Rightarrow> memory res" where
  "write_block h p i b = bindE (load h p) (\<lambda>obj.
     case obj of Block_Array xs \<Rightarrow> bindE (arr_set xs i b) (\<lambda>ys. store h p (Block_Array ys))
     | _ \<Rightarrow> Inl Type_Confusion)"

definition load_stack :: "memory \<Rightarrow> nat option \<Rightarrow> stack_cell res" where
  "load_stack h p = bindE (load h p) (\<lambda>obj.
     case obj of Stack_Struct s \<Rightarrow> Inr s | _ \<Rightarrow> Inl Type_Confusion)"

definition read_order :: "memory \<Rightarrow> nat option \<Rightarrow> int \<Rightarrow> int res" where
  "read_order h p i = bindE (load_stack h p) (\<lambda>s. bindE (load h (sc_order s)) (\<lambda>obj.
     case obj of Order_Array xs \<Rightarrow> arr_get xs i | _ \<Rightarrow> Inl Type_Confusion))"

definition write_order :: "memory \<Rightarrow> nat option \<Rightarrow> int \<Rightarrow> int \<Rightarrow> memory res" where
  "write_order h p i v = bindE (load_stack h p) (\<lambda>s. bindE (load h (sc_order s)) (\<lambda>obj.
     case obj of Order_Array xs \<Rightarrow>
         bindE (arr_set xs i v) (\<lambda>ys. store h (sc_order s) (Order_Array ys))
     | _ \<Rightarrow> Inl Type_Confusion))"

subsection \<open>The LRU stack\<close>

function init_order_mem :: "nat option \<Rightarrow> int \<Rightarrow> int \<Rightarrow> memory \<Rightarrow> memory res" where
  "init_order_mem st sz i h =
     (if i < sz then bindE (write_order h st i i) (\<lambda>h'. init_order_mem st sz (i + 1) h') else Inr h)"
  by pat_completeness auto
termination
  by (relation "measure (\<lambda>(st, sz, i, h). nat (sz - i))") auto

declare init_order_mem.simps [simp del]

text \<open>\<open>junk_st\<close> and \<open>junk\<close> are what the two objects hold when \<open>malloc\<close> returns them.\<close>

definition init_lru_stack_mem ::
    "stack_cell \<Rightarrow> (nat \<Rightarrow> int) \<Rightarrow> int \<Rightarrow> memory \<Rightarrow> (nat option \<times> memory) res" where
  "init_lru_stack_mem junk_st junk sz h =
     (let (st, h1) = malloc_obj h 1 (Stack_Struct junk_st) in
      bindE (load_stack h1 st) (\<lambda>s.
      bindE (store h1 st (Stack_Struct (s\<lparr>sc_size := sz\<rparr>))) (\<lambda>h2.
        let (ord, h3) = malloc_obj h2 sz (Order_Array (malloc_array junk sz)) in
        bindE (load_stack h3 st) (\<lambda>s'.
        bindE (store h3 st (Stack_Struct (s'\<lparr>sc_order := ord\<rparr>))) (\<lambda>h4.
        bindE (init_order_mem st sz 0 h4) (\<lambda>h5. Inr (st, h5)))))))"

definition lru_stack_get_lru_mem :: "memory \<Rightarrow> nat option \<Rightarrow> int res" where
  "lru_stack_get_lru_mem h st = bindE (load_stack h st) (\<lambda>s. read_order h st (sc_size s - 1))"

function find_order_mem :: "memory \<Rightarrow> nat option \<Rightarrow> int \<Rightarrow> int \<Rightarrow> int res" where
  "find_order_mem h st n i =
     bindE (load_stack h st) (\<lambda>s.
       if i < sc_size s
       then bindE (read_order h st i) (\<lambda>v. if v = n then Inr i else find_order_mem h st n (i + 1))
       else Inr (-1))"
  by pat_completeness auto
termination
  by (relation "measure (\<lambda>(h, st, n, i).
      case load_stack h st of Inl _ \<Rightarrow> 0 | Inr s \<Rightarrow> nat (sc_size s - i))") auto

declare find_order_mem.simps [simp del]

function shift_order_mem :: "nat option \<Rightarrow> int \<Rightarrow> memory \<Rightarrow> memory res" where
  "shift_order_mem st i h =
     (if i > 0
      then bindE (read_order h st (i - 1)) (\<lambda>v.
           bindE (write_order h st i v) (\<lambda>h'. shift_order_mem st (i - 1) h'))
      else Inr h)"
  by pat_completeness auto
termination
  by (relation "measure (\<lambda>(st, i, h). nat i)") auto

declare shift_order_mem.simps [simp del]

definition lru_stack_set_mru_mem :: "memory \<Rightarrow> nat option \<Rightarrow> int \<Rightarrow> memory res" where
  "lru_stack_set_mru_mem h st n =
     bindE (find_order_mem h st n 0) (\<lambda>position.
       if position = -1 then Inr h
       else bindE (shift_order_mem st position h) (\<lambda>h'. write_order h' st 0 n))"

definition lru_stack_cleanup :: "memory \<Rightarrow> nat option \<Rightarrow> memory res" where
  "lru_stack_cleanup h st =
     bindE (load_stack h st) (\<lambda>s. bindE (free_obj h (sc_order s)) (\<lambda>h'. free_obj h' st))"

subsection \<open>Initialization\<close>

record cache_globals =
  g_accesses :: u64
  g_hits :: u64
  g_misses :: u64
  g_writebacks :: u64
  g_cache :: "nat option"
  g_block_size :: int
  g_cache_size :: int
  g_ways :: int
  g_num_sets :: int
  g_num_offset_bits :: int
  g_num_index_bits :: int

text \<open>What the objects hold when \<open>malloc\<close> returns them: the arrays of each set, its stack, and \<open>cache\<close>.\<close>

record mem_junk =
  junk_data :: junk
  junk_stack :: "int \<Rightarrow> stack_cell"
  junk_cell :: "nat \<Rightarrow> set_cell"

definition update_set ::
    "memory \<Rightarrow> nat option \<Rightarrow> int \<Rightarrow> (set_cell \<Rightarrow> set_cell) \<Rightarrow> memory res" where
  "update_set h p i f = bindE (read_set h p i) (\<lambda>c. write_set h p i (f c))"

function clear_blocks_mem :: "nat option \<Rightarrow> int \<Rightarrow> int \<Rightarrow> int \<Rightarrow> memory \<Rightarrow> memory res" where
  "clear_blocks_mem c i w j h =
     (if j < w
      then bindE (read_set h c i) (\<lambda>cell.
           bindE (read_block h (cell_blocks cell) j) (\<lambda>b.
           bindE (write_block h (cell_blocks cell) j (b\<lparr>tag := 0, valid := 0, dirty := 0\<rparr>)) (\<lambda>h'.
             clear_blocks_mem c i w (j + 1) h')))
      else Inr h)"
  by pat_completeness auto
termination
  by (relation "measure (\<lambda>(c, i, w, j, h). nat (w - j))") auto

declare clear_blocks_mem.simps [simp del]

definition init_set_mem :: "mem_junk \<Rightarrow> nat option \<Rightarrow> int \<Rightarrow> int \<Rightarrow> memory \<Rightarrow> memory res" where
  "init_set_mem jk c w i h =
     bindE (update_set h c i (\<lambda>cell. cell\<lparr>cell_size := w\<rparr>)) (\<lambda>h1.
       let (bs, h2) = malloc_obj h1 w (Block_Array (malloc_array (junk_block (junk_data jk) i) w)) in
       bindE (update_set h2 c i (\<lambda>cell. cell\<lparr>cell_blocks := bs\<rparr>)) (\<lambda>h3.
       bindE (init_lru_stack_mem (junk_stack jk i) (junk_order (junk_data jk) i) w h3) (\<lambda>(st, h4).
       bindE (update_set h4 c i (\<lambda>cell. cell\<lparr>cell_stack := st\<rparr>)) (\<lambda>h5.
         clear_blocks_mem c i w 0 h5))))"

function init_sets_mem :: "mem_junk \<Rightarrow> nat option \<Rightarrow> int \<Rightarrow> int \<Rightarrow> int \<Rightarrow> memory \<Rightarrow> memory res" where
  "init_sets_mem jk c w n i h =
     (if i < n then bindE (init_set_mem jk c w i h) (\<lambda>h'. init_sets_mem jk c w n (i + 1) h')
      else Inr h)"
  by pat_completeness auto
termination
  by (relation "measure (\<lambda>(jk, c, w, n, i, h). nat (n - i))") auto

declare init_sets_mem.simps [simp del]

definition cachesim_init_mem ::
    "mem_junk \<Rightarrow> int \<Rightarrow> int \<Rightarrow> int \<Rightarrow> memory \<Rightarrow> (cache_globals \<times> memory) res" where
  "cachesim_init_mem jk bsize csize w h =
     bindE (chk_int (bsize * w)) (\<lambda>set_bytes.
     bindE (div_int csize set_bytes) (\<lambda>n.
       let (c, h1) = malloc_obj h n (Set_Array (malloc_array (junk_cell jk) n)) in
       bindE (init_sets_mem jk c w n 0 h1) (\<lambda>h2.
         Inr (\<lparr>g_accesses = 0, g_hits = 0, g_misses = 0, g_writebacks = 0, g_cache = c,
               g_block_size = bsize, g_cache_size = csize, g_ways = w, g_num_sets = n,
               g_num_offset_bits = simple_log_2 bsize, g_num_index_bits = simple_log_2 n\<rparr>, h2))))"

subsection \<open>One access\<close>

text \<open>\<open>set\<close> is the address of an element of the array \<open>cache\<close>: the pair of that pointer and an index.\<close>

function find_block_mem ::
    "(cache_block_t \<Rightarrow> bool) \<Rightarrow> memory \<Rightarrow> nat option \<times> int \<Rightarrow> int \<Rightarrow> int \<Rightarrow> int res" where
  "find_block_mem P h st w i =
     (if i < w
      then bindE (read_set h (fst st) (snd st)) (\<lambda>cell.
           bindE (read_block h (cell_blocks cell) i) (\<lambda>b.
             if P b then Inr i else find_block_mem P h st w (i + 1)))
      else Inr (-1))"
  by pat_completeness auto
termination
  by (relation "measure (\<lambda>(P, h, st, w, i). nat (w - i))") auto

declare find_block_mem.simps [simp del]

definition access_hit_mem ::
    "cache_globals \<Rightarrow> memory \<Rightarrow> nat option \<times> int \<Rightarrow> int \<Rightarrow> int \<Rightarrow> (cache_globals \<times> memory) res" where
  "access_hit_mem g h st hit access_type =
     (let g1 = g\<lparr>g_hits := g_hits g + 1\<rparr> in
      bindE (if access_type = MEMWRITE
             then bindE (read_set h (fst st) (snd st)) (\<lambda>cell.
                  bindE (read_block h (cell_blocks cell) hit) (\<lambda>b.
                    write_block h (cell_blocks cell) hit (b\<lparr>dirty := 1\<rparr>)))
             else Inr h) (\<lambda>h1.
      bindE (read_set h1 (fst st) (snd st)) (\<lambda>cell.
      bindE (lru_stack_set_mru_mem h1 (cell_stack cell) hit) (\<lambda>h2. Inr (g1, h2)))))"

definition choose_victim_mem ::
    "cache_globals \<Rightarrow> memory \<Rightarrow> nat option \<times> int \<Rightarrow> (int \<times> cache_globals) res" where
  "choose_victim_mem g h st =
     bindE (read_set h (fst st) (snd st)) (\<lambda>cell.
     bindE (lru_stack_get_lru_mem h (cell_stack cell)) (\<lambda>way.
     bindE (read_block h (cell_blocks cell) way) (\<lambda>b.
       Inr (way, if dirty b \<noteq> 0 then g\<lparr>g_writebacks := g_writebacks g + 1\<rparr> else g))))"

definition fill_block_mem ::
    "cache_globals \<Rightarrow> memory \<Rightarrow> nat option \<times> int \<Rightarrow> int \<Rightarrow> u64 \<Rightarrow> int \<Rightarrow> (cache_globals \<times> memory) res" where
  "fill_block_mem g h st way t access_type =
     bindE (read_set h (fst st) (snd st)) (\<lambda>cell.
     bindE (read_block h (cell_blocks cell) way) (\<lambda>b.
     bindE (write_block h (cell_blocks cell) way
        (b\<lparr>tag := ucast t, valid := 1, dirty := if access_type = MEMWRITE then 1 else 0\<rparr>)) (\<lambda>h1.
     bindE (read_set h1 (fst st) (snd st)) (\<lambda>cell'.
     bindE (lru_stack_set_mru_mem h1 (cell_stack cell') way) (\<lambda>h2. Inr (g, h2))))))"

definition cachesim_access_mem ::
    "cache_globals \<Rightarrow> memory \<Rightarrow> u64 \<Rightarrow> int \<Rightarrow> (cache_globals \<times> memory) res" where
  "cachesim_access_mem g h physical_addr access_type =
     (let g1 = g\<lparr>g_accesses := g_accesses g + 1\<rparr>;
          block_addr = drop_bit (nat (g_num_offset_bits g1)) physical_addr;
          set_index = sint (ucast (block_addr AND word_of_int (2 ^ nat (g_num_index_bits g1) - 1)) :: u32);
          t = drop_bit (nat (g_num_index_bits g1)) block_addr;
          st = (g_cache g1, set_index)
      in
      bindE (find_block_mem (block_matches t) h st (g_ways g1) 0) (\<lambda>hit.
        if hit \<noteq> -1 then access_hit_mem g1 h st hit access_type
        else
          let g2 = g1\<lparr>g_misses := g_misses g1 + 1\<rparr> in
          bindE (find_block_mem (\<lambda>b. valid b = 0) h st (g_ways g2) 0) (\<lambda>invalid.
          bindE (if invalid = -1 then choose_victim_mem g2 h st else Inr (invalid, g2))
            (\<lambda>(way, g3). fill_block_mem g3 h st way t access_type))))"

subsection \<open>Cleaning up\<close>

function cleanup_loop :: "nat option \<Rightarrow> int \<Rightarrow> int \<Rightarrow> memory \<Rightarrow> memory res" where
  "cleanup_loop c n i h =
     (if i < n
      then bindE (read_set h c i) (\<lambda>cell.
           bindE (free_obj h (cell_blocks cell)) (\<lambda>h1.
           bindE (read_set h1 c i) (\<lambda>cell'.
           bindE (lru_stack_cleanup h1 (cell_stack cell')) (\<lambda>h2. cleanup_loop c n (i + 1) h2))))
      else Inr h)"
  by pat_completeness auto
termination
  by (relation "measure (\<lambda>(c, n, i, h). nat (n - i))") auto

declare cleanup_loop.simps [simp del]

definition cachesim_cleanup :: "cache_globals \<Rightarrow> memory \<Rightarrow> memory res" where
  "cachesim_cleanup g h =
     bindE (cleanup_loop (g_cache g) (g_num_sets g) 0 h) (\<lambda>h'. free_obj h' (g_cache g))"

subsection \<open>The program\<close>

text \<open>
  \<open>fopen\<close> gives \<open>NULL\<close> when the file cannot be opened, and then \<open>feof\<close> is called with it; the
  lines of a trace that it opens are as in \<open>Cache_Sim\<close>.
\<close>

definition next_line_mem ::
    "int \<times> u64 \<Rightarrow> trace_file option \<Rightarrow> cache_globals \<Rightarrow> memory
      \<Rightarrow> (bool \<times> trace_file option \<times> cache_globals \<times> memory) res" where
  "next_line_mem unread input g h =
     (case input of
        None \<Rightarrow> Inl Null_Deref
      | Some tr \<Rightarrow>
          if eof tr then Inr (False, input, g, h)
          else
            let ((t, address), tr') =
              (case rest tr of
                 [] \<Rightarrow> (unread, tr\<lparr>eof := True\<rparr>)
               | (t, address, instr) # ls \<Rightarrow> ((t, address), \<lparr>rest = ls, eof = (ls = [])\<rparr>))
            in bindE (cachesim_access_mem g h address t) (\<lambda>(g', h'). Inr (True, Some tr', g', h')))"

function trace_loop_mem ::
    "int \<times> u64 \<Rightarrow> trace_file option \<Rightarrow> cache_globals \<Rightarrow> memory \<Rightarrow> (cache_globals \<times> memory) res" where
  "trace_loop_mem unread input g h =
     bindE (next_line_mem unread input g h) (\<lambda>(more, input', g', h').
       if more then trace_loop_mem unread input' g' h' else Inr (g', h'))"
  by pat_completeness auto
termination
  by (relation "measure (\<lambda>(unread, input, g, h).
      case input of None \<Rightarrow> 0 | Some tr \<Rightarrow> length (rest tr) + (if eof tr then 0 else 1))")
    (auto simp: next_line_mem_def split: if_splits list.splits option.splits)

declare trace_loop_mem.simps [simp del]

definition cachesim_stats_mem :: "cache_globals \<Rightarrow> u64 \<times> u64 \<times> u64 \<times> u64" where
  "cachesim_stats_mem g = (g_accesses g, g_hits g, g_misses g, g_writebacks g)"

text \<open>
  \<open>main\<close> on the arguments after the program's name: its status, the line it prints and the
  memory it leaves. \<open>atol\<close> gives a \<open>long\<close>, which the call of \<open>cachesim_init\<close> converts to \<open>int\<close>.
\<close>

definition to_int :: "u64 \<Rightarrow> int" where
  "to_int x = sint (ucast x :: u32)"

definition cachesim_program ::
    "(string \<Rightarrow> u64) \<Rightarrow> (string \<Rightarrow> (int \<times> u64 \<times> u64) list option) \<Rightarrow> mem_junk \<Rightarrow> int \<times> u64
      \<Rightarrow> string list \<Rightarrow> memory \<Rightarrow> (int \<times> (u64 \<times> u64 \<times> u64 \<times> u64) option \<times> memory) res" where
  "cachesim_program atol fopen jk unread args h =
     (if length args \<noteq> 4 then Inr (1, None, h)
      else
        let input = map_option open_trace (fopen (args ! 0)) in
        bindE (cachesim_init_mem jk (to_int (atol (args ! 1))) (to_int (atol (args ! 2)))
                 (to_int (atol (args ! 3))) h) (\<lambda>(g, h1).
        bindE (trace_loop_mem unread input g h1) (\<lambda>(g', h2).
        bindE (cachesim_cleanup g' h2) (\<lambda>h3. Inr (0, Some (cachesim_stats_mem g'), h3)))))"

end
