(* ===== verification/Cache_Safety.thy ===== *)
theory Cache_Safety
  imports Cache_Sim
begin

text \<open>
  The cache simulator never leaves its arrays: the geometry that \<open>cachesim_init\<close> derives, the
  invariant it establishes, and its preservation by every access, for every 64-bit address.
\<close>

subsection \<open>The logarithm\<close>

lemma log_loop_bounds:
  "1 \<le> x \<Longrightarrow> 0 \<le> v \<Longrightarrow> v \<le> log_loop x v
    \<and> 2 ^ nat (log_loop x v - v) \<le> x \<and> x < 2 ^ (nat (log_loop x v - v) + 1)"
proof (induction x v rule: log_loop.induct)
  case (1 x v)
  show ?case
  proof (cases "x > 1")
    case False
    with "1.prems" show ?thesis by (simp add: log_loop.simps)
  next
    case True
    let ?r = "log_loop (x div 2) (v + 1)"
    have rec: "log_loop x v = ?r"
      using True by (subst log_loop.simps) (simp add: sdiv_nonneg_int)
    have "1 \<le> x div 2" using True by simp
    with "1.IH"[OF True] "1.prems" True
    have IH: "v + 1 \<le> ?r" "2 ^ nat (?r - (v + 1)) \<le> x div 2"
      "x div 2 < 2 ^ (nat (?r - (v + 1)) + 1)"
      by (simp_all add: sdiv_nonneg_int)
    have "nat (?r - v) = nat (?r - (v + 1)) + 1"
      using IH(1) by linarith
    then have pow: "(2::int) ^ nat (?r - v) = 2 * 2 ^ nat (?r - (v + 1))" by simp
    have "2 * 2 ^ nat (?r - (v + 1)) \<le> x" "x < 4 * 2 ^ nat (?r - (v + 1))"
      using IH(2,3) by simp_all
    with IH(1) rec pow show ?thesis by simp
  qed
qed

lemma simple_log_2_small: "x < 1 \<Longrightarrow> simple_log_2 x = 0"
  by (simp add: simple_log_2_def log_loop.simps)

lemma simple_log_2_nonneg: "0 \<le> simple_log_2 x"
proof (cases "1 \<le> x")
  case True
  then show ?thesis using log_loop_bounds[of x 0] by (simp add: simple_log_2_def)
next
  case False
  then show ?thesis by (simp add: simple_log_2_def log_loop.simps)
qed

lemma simple_log_2_bounds:
  assumes "1 \<le> x"
  shows "2 ^ nat (simple_log_2 x) \<le> x" and "x < 2 ^ (nat (simple_log_2 x) + 1)"
  using log_loop_bounds[of x 0] assms by (auto simp: simple_log_2_def)

lemma simple_log_2_less_31:
  assumes "x < 2 ^ 31"
  shows "nat (simple_log_2 x) < 31"
proof (cases "1 \<le> x")
  case True
  then have "(2::int) ^ nat (simple_log_2 x) < 2 ^ 31"
    using simple_log_2_bounds(1)[OF True] assms by linarith
  then show ?thesis by (rule power_less_imp_less_exp[rotated]) simp
next
  case False
  then show ?thesis by (simp add: simple_log_2_def log_loop.simps)
qed

subsection \<open>The set index\<close>

lemma set_index_eq:
  assumes "nat (num_index_bits s) < 31"
  shows "set_index_of s ba = uint ba mod 2 ^ nat (num_index_bits s)"
proof -
  let ?n = "nat (num_index_bits s)"
  have mask: "word_of_int (2 ^ ?n - 1) = (mask ?n :: u64)"
    by (simp add: mask_eq_exp_minus_1)
  have and_mask: "uint (ba AND mask ?n) = uint ba mod 2 ^ ?n"
    by (simp only: take_bit_eq_mask[symmetric] unsigned_take_bit_eq) (simp only: take_bit_eq_mod)
  have small: "uint ba mod 2 ^ ?n < 2 ^ 31"
    by (rule less_le_trans[OF pos_mod_bound]) (use assms power_increasing[of ?n 31 "2::int"] in auto)
  have index: "uint (ucast (ba AND mask ?n) :: u32) = uint ba mod 2 ^ ?n"
    using small and_mask by (simp add: unsigned_ucast_eq take_bit_int_eq_self)
  show ?thesis
    unfolding set_index_of_def mask sint_uint index
    using small by (intro signed_take_bit_int_eq_self) (auto intro: order_trans[OF _ pos_mod_sign])
qed

subsection \<open>The invariant\<close>

definition set_ok :: "int \<Rightarrow> cache_set_t \<Rightarrow> bool" where
  "set_ok w cs \<longleftrightarrow> lru_inv (stack cs) \<and> lru_size (stack cs) = w \<and> w = int (length (blocks cs))"

definition sim_ok :: "cachesim \<Rightarrow> bool" where
  "sim_ok s \<longleftrightarrow> 1 \<le> ways s \<and> 1 \<le> num_sets s \<and> num_sets s < 2 ^ 31
     \<and> num_sets s = int (length (cache s))
     \<and> num_index_bits s = simple_log_2 (num_sets s)
     \<and> (\<forall>cs \<in> set (cache s). set_ok (ways s) cs)"

lemma set_ok_order: "set_ok w cs \<Longrightarrow> set (order (stack cs)) = {0..<w}"
  unfolding set_ok_def lru_inv_def by metis

lemma set_ok_order_ne: "set_ok w cs \<Longrightarrow> 1 \<le> w \<Longrightarrow> order (stack cs) \<noteq> []"
  by (auto simp: set_ok_def lru_inv_def)

lemma set_index_in_bounds:
  assumes "sim_ok s"
  shows "0 \<le> set_index_of s ba" and "set_index_of s ba < int (length (cache s))"
proof -
  have n: "nat (num_index_bits s) < 31"
    using assms simple_log_2_less_31 by (simp add: sim_ok_def)
  then show "0 \<le> set_index_of s ba" by (simp add: set_index_eq)
  have "uint ba mod 2 ^ nat (num_index_bits s) < 2 ^ nat (num_index_bits s)" by simp
  also have "\<dots> \<le> num_sets s"
    using assms simple_log_2_bounds(1)[of "num_sets s"] unfolding sim_ok_def by metis
  finally show "set_index_of s ba < int (length (cache s))"
    using assms n by (simp add: set_index_eq sim_ok_def)
qed

lemma set_index_upd [simp]:
  "set_index_of (s\<lparr>accesses := a\<rparr>) ba = set_index_of s ba"
  "block_addr_of (s\<lparr>accesses := a\<rparr>) pa = block_addr_of s pa"
  "tag_of (s\<lparr>accesses := a\<rparr>) ba = tag_of s ba"
  by (simp_all add: set_index_of_def block_addr_of_def tag_of_def)

subsection \<open>The geometry fields never change\<close>

definition same_geometry :: "cachesim \<Rightarrow> cachesim \<Rightarrow> bool" where
  "same_geometry s s' \<longleftrightarrow> ways s' = ways s \<and> num_sets s' = num_sets s
     \<and> num_index_bits s' = num_index_bits s \<and> num_offset_bits s' = num_offset_bits s
     \<and> length (cache s') = length (cache s)"

subsection \<open>One set: the blocks and the stack after a way is used\<close>

definition use_way :: "cache_set_t \<Rightarrow> int \<Rightarrow> cache_block_t \<Rightarrow> cache_set_t" where
  "use_way cs w b = cs\<lparr>blocks := (blocks cs)[nat w := b],
     stack := (stack cs)\<lparr>order := to_front w (order (stack cs))\<rparr>\<rparr>"

lemma set_ok_use_way: "set_ok n cs \<Longrightarrow> 0 \<le> w \<Longrightarrow> w < n \<Longrightarrow> set_ok n (use_way cs w b)"
  using lru_inv_to_front[of "stack cs" w] set_ok_order[of n cs]
  by (simp add: set_ok_def use_way_def)

lemma set_mru_way:
  assumes "set_ok n cs" and "0 \<le> w" and "w < n"
  shows "lru_stack_set_mru (stack cs) w
    = Inr ((stack cs)\<lparr>order := to_front w (order (stack cs))\<rparr>)"
  using assms set_ok_order[OF assms(1)] by (intro lru_stack_set_mru_eq) (auto simp: set_ok_def)

definition block_of :: "cache_set_t \<Rightarrow> int \<Rightarrow> cache_block_t" where
  "block_of cs w = blocks cs ! nat w"

text \<open>The way that a miss fills: the first invalid one, or the least recently used.\<close>

definition fill_way :: "cache_set_t \<Rightarrow> int" where
  "fill_way cs = (case first_index (\<lambda>b. valid b = 0) (blocks cs) of
     Some i \<Rightarrow> int i | None \<Rightarrow> last (order (stack cs)))"

lemma fill_way_bounds:
  assumes "set_ok n cs" and "1 \<le> n"
  shows "0 \<le> fill_way cs" and "fill_way cs < n"
proof -
  have "last (order (stack cs)) \<in> {0..<n}"
    using last_in_set[OF set_ok_order_ne[OF assms]] set_ok_order[OF assms(1)] by simp
  then show "0 \<le> fill_way cs" and "fill_way cs < n"
    using assms by (auto simp: fill_way_def set_ok_def split: option.splits
        dest: first_index_Some)
qed

text \<open>A miss writes back when every way is valid and the least recently used one is dirty.\<close>

definition evicts_dirty :: "cache_set_t \<Rightarrow> bool" where
  "evicts_dirty cs \<longleftrightarrow> first_index (\<lambda>b. valid b = 0) (blocks cs) = None
     \<and> dirty (block_of cs (fill_way cs)) \<noteq> 0"

definition filled :: "cache_set_t \<Rightarrow> u64 \<Rightarrow> int \<Rightarrow> cache_set_t" where
  "filled cs t access_type = use_way cs (fill_way cs) ((block_of cs (fill_way cs))
     \<lparr>tag := ucast t, valid := 1, dirty := if access_type = MEMWRITE then 1 else 0\<rparr>)"

definition touched :: "cache_set_t \<Rightarrow> int \<Rightarrow> int \<Rightarrow> cache_set_t" where
  "touched cs w access_type = use_way cs w
     (if access_type = MEMWRITE then (block_of cs w)\<lparr>dirty := 1\<rparr> else block_of cs w)"

text \<open>
  The closed form of an access: which of the two branches it takes, the set it stores, and the
  counters it moves.
\<close>

definition access_result :: "cachesim \<Rightarrow> u64 \<Rightarrow> int \<Rightarrow> cachesim" where
  "access_result s pa access_type =
     (let ba = block_addr_of s pa; idx = nat (set_index_of s ba); t = tag_of s ba;
          cs = cache s ! idx
      in case first_index (block_matches t) (blocks cs) of
        Some w \<Rightarrow> s\<lparr>accesses := accesses s + 1, hits := hits s + 1,
                   cache := (cache s)[idx := touched cs (int w) access_type]\<rparr>
      | None \<Rightarrow> s\<lparr>accesses := accesses s + 1, misses := misses s + 1,
                writebacks := (if evicts_dirty cs then writebacks s + 1 else writebacks s),
                cache := (cache s)[idx := filled cs t access_type]\<rparr>)"

lemma access_hit_eq:
  assumes "set_ok n cs" and "w < length (blocks cs)" and "0 \<le> idx" "idx < int (length (cache s))"
  shows "access_hit s idx cs (int w) at
    = Inr (s\<lparr>hits := hits s + 1, cache := (cache s)[nat idx := touched cs (int w) at]\<rparr>)"
proof -
  have "lru_stack_set_mru (stack cs) (int w)
      = Inr ((stack cs)\<lparr>order := to_front (int w) (order (stack cs))\<rparr>)"
    using assms by (intro set_mru_way) (auto simp: set_ok_def)
  with assms show ?thesis
    by (simp add: access_hit_def touched_def use_way_def put_set_def arr_set_def block_of_def
        Let_def)
qed

lemma choose_victim_eq:
  assumes "set_ok n cs" and "1 \<le> n" and "first_index (\<lambda>b. valid b = 0) (blocks cs) = None"
  shows "choose_victim s cs = Inr (fill_way cs,
    if evicts_dirty cs then s\<lparr>writebacks := writebacks s + 1\<rparr> else s)"
proof -
  have "lru_stack_get_lru (stack cs) = Inr (fill_way cs)"
    using assms set_ok_order_ne[OF assms(1,2)]
    by (simp add: set_ok_def fill_way_def lru_stack_get_lru_eq)
  moreover have "arr_get (blocks cs) (fill_way cs) = Inr (block_of cs (fill_way cs))"
    using fill_way_bounds[OF assms(1,2)] assms(1) by (simp add: arr_get_def set_ok_def block_of_def)
  ultimately show ?thesis
    using assms(3) by (simp add: choose_victim_def evicts_dirty_def)
qed

lemma fill_block_eq:
  assumes "set_ok n cs" and "1 \<le> n" and "0 \<le> idx" "idx < int (length (cache s))"
  shows "fill_block s idx cs (fill_way cs) t at
    = Inr (s\<lparr>cache := (cache s)[nat idx := filled cs t at]\<rparr>)"
  using assms fill_way_bounds[OF assms(1,2)] set_mru_way[OF assms(1), of "fill_way cs"]
  by (auto simp: fill_block_def filled_def use_way_def put_set_def arr_get_def arr_set_def
      block_of_def set_ok_def)

lemma set_ok_nth:
  assumes "sim_ok s"
  shows "set_ok (ways s) (cache s ! nat (set_index_of s ba))"
  using assms set_index_in_bounds[OF assms, of ba] by (auto simp: sim_ok_def)

lemma cachesim_access_eq:
  assumes "sim_ok s"
  shows "cachesim_access s pa at = Inr (access_result s pa at)"
proof -
  define ba where "ba = block_addr_of s pa"
  define idx where "idx = set_index_of s ba"
  define t where "t = tag_of s ba"
  define cs where "cs = cache s ! nat idx"
  have idx: "0 \<le> idx" "idx < int (length (cache s))"
    using set_index_in_bounds[OF assms] by (simp_all add: idx_def)
  have cs: "set_ok (ways s) cs" using set_ok_nth[OF assms] by (simp add: cs_def idx_def)
  have w: "1 \<le> ways s" "ways s = int (length (blocks cs))"
    using assms cs by (simp_all add: sim_ok_def set_ok_def)
  show ?thesis
  proof (cases "first_index (block_matches t) (blocks cs)")
    case (Some i)
    then show ?thesis
      using idx w access_hit_eq[OF cs, of i idx "s\<lparr>accesses := accesses s + 1\<rparr>"]
        first_index_Some[OF Some]
      by (simp add: cachesim_access_def access_result_def Let_def arr_get_def search_loop_eq
          flip: ba_def idx_def t_def cs_def)
  next
    case None
    then show ?thesis
      using idx w choose_victim_eq[OF cs w(1)] fill_block_eq[OF cs w(1) idx(1)]
      by (cases "first_index (\<lambda>b. valid b = 0) (blocks cs)")
        (simp_all add: cachesim_access_def access_result_def Let_def arr_get_def search_loop_eq
          fill_way_def evicts_dirty_def flip: ba_def idx_def t_def cs_def)
  qed
qed

lemma sim_ok_put:
  assumes "sim_ok s" and "set_ok (ways s) cs"
  shows "sim_ok (s\<lparr>cache := (cache s)[i := cs]\<rparr>)"
  using assms by (auto simp: sim_ok_def dest!: set_update_subset_insert[THEN subsetD])

lemma sim_ok_counters [simp]:
  "sim_ok (s\<lparr>accesses := a\<rparr>) = sim_ok s" "sim_ok (s\<lparr>hits := a\<rparr>) = sim_ok s"
  "sim_ok (s\<lparr>misses := a\<rparr>) = sim_ok s" "sim_ok (s\<lparr>writebacks := a\<rparr>) = sim_ok s"
  by (simp_all add: sim_ok_def)

end
