(* ===== verification/Cache_Refine.thy ===== *)
theory Cache_Refine
  imports Cache_Safety
begin

unbundle bit_operations_syntax

text \<open>
  What a set of the cache promises: a list of (tag, dirty) lines in order of their last use, of
  at most \<open>ways\<close> entries, on which an access is a move to the front, an insertion, or an
  insertion that drops the last line. The theory shows that an access of the simulator does
  exactly that to the set the address selects and to the counters, and what follows for whole
  traces.
\<close>

type_synonym line = "u64 \<times> bool"

subsection \<open>The reference cache set\<close>

definition ref_access :: "nat \<Rightarrow> u64 \<Rightarrow> bool \<Rightarrow> line list \<Rightarrow> line list \<times> bool \<times> bool" where
  "ref_access n t w ls =
     (case map_of ls t of
        Some d \<Rightarrow> ((t, d \<or> w) # filter (\<lambda>l. fst l \<noteq> t) ls, True, False)
      | None \<Rightarrow> if length ls < n then ((t, w) # ls, False, False)
          else ((t, w) # butlast ls, False, snd (last ls)))"

definition ref_touch :: "nat \<Rightarrow> u64 \<Rightarrow> u64 list \<Rightarrow> u64 list" where
  "ref_touch n t ts =
     (if t \<in> set ts then to_front t ts
      else if length ts < n then t # ts else t # butlast ts)"

lemma ref_access_tags:
  assumes "distinct (map fst ls)"
  shows "map fst (fst (ref_access n t w ls)) = ref_touch n t (map fst ls)"
proof (cases "map_of ls t")
  case None
  then have "t \<notin> set (map fst ls)" by (simp add: map_of_eq_None_iff)
  with None show ?thesis by (simp add: ref_access_def ref_touch_def map_butlast)
next
  case (Some d)
  then have "t \<in> set (map fst ls)" by (force dest: map_of_SomeD)
  with Some assms show ?thesis
    by (simp add: ref_access_def ref_touch_def to_front_filter filter_map o_def)
qed

lemma ref_access_hit: "fst (snd (ref_access n t w ls)) \<longleftrightarrow> t \<in> set (map fst ls)"
proof -
  have "t \<in> set (map fst ls) \<longleftrightarrow> map_of ls t \<noteq> None" by (simp add: map_of_eq_None_iff)
  then show ?thesis by (simp add: ref_access_def split: option.splits)
qed

text \<open>Least recently used replacement keeps the most recent \<open>n\<close> elements of the history.\<close>

lemma ref_touch_take:
  assumes "distinct ts" and "1 \<le> n"
  shows "ref_touch n t (take n ts) = take n (to_front t ts)"
proof (cases "t \<in> set (take n ts)")
  case True
  then obtain ys zs where split: "take n ts = ys @ t # zs" "t \<notin> set ys"
    by (meson split_list_first)
  then have ts: "ts = ys @ t # zs @ drop n ts"
    by (metis append.assoc append_Cons append_take_drop_id)
  have "length (ys @ t # zs) \<le> n"
    using split(1) by (metis length_take min.cobounded2)
  moreover have "zs = take (n - Suc (length ys)) (zs @ drop n ts)"
  proof -
    have "take n (ys @ t # zs @ drop n ts) = ys @ t # zs" using split(1) ts by simp
    then show ?thesis using calculation by (simp add: take_Cons' split: if_splits)
  qed
  ultimately have "take n (t # ys @ zs @ drop n ts) = t # ys @ zs"
    by (cases n) (auto simp: take_append)
  then show ?thesis
    using True split ts by (metis ref_touch_def to_front_split)
next
  case False
  have rest: "take (n - 1) (remove1 t ts) = take (n - 1) ts"
  proof -
    have "t \<notin> set (take (n - 1) ts)"
      using False by (meson diff_le_self set_take_subset_set_take subsetD)
    then have "remove1 t (take (n - 1) ts @ drop (n - 1) ts)
        = take (n - 1) ts @ remove1 t (drop (n - 1) ts)"
      unfolding remove1_append by simp
    then have eq: "remove1 t ts = take (n - 1) ts @ remove1 t (drop (n - 1) ts)"
      unfolding append_take_drop_id .
    show ?thesis
    proof (cases "n - 1 \<le> length ts")
      case True
      then show ?thesis using eq by simp
    next
      case False
      then show ?thesis using eq by simp
    qed
  qed
  show ?thesis
  proof (cases "length (take n ts) < n")
    case True
    then have "take n ts = ts" by simp
    with False True assms rest show ?thesis
      by (simp add: ref_touch_def to_front_def take_Cons' remove1_idem)
  next
    case full: False
    then have "butlast (take n ts) = take (n - 1) ts"
      by (simp add: butlast_take)
    with False full assms rest show ?thesis
      by (simp add: ref_touch_def to_front_def take_Cons')
  qed
qed

subsection \<open>The lines of a set of the simulator\<close>

definition line_of :: "cache_block_t \<Rightarrow> line" where
  "line_of b = (scast (tag b), dirty b \<noteq> 0)"

definition valid_ways :: "cache_set_t \<Rightarrow> int list" where
  "valid_ways cs = filter (\<lambda>w. valid (block_of cs w) \<noteq> 0) (order (stack cs))"

definition lines :: "cache_set_t \<Rightarrow> line list" where
  "lines cs = map (\<lambda>w. line_of (block_of cs w)) (valid_ways cs)"

definition sim_inv :: "cachesim \<Rightarrow> bool" where
  "sim_inv s \<longleftrightarrow> sim_ok s \<and> (\<forall>cs \<in> set (cache s). distinct (map fst (lines cs)))"

lemma set_ok_ways:
  assumes "set_ok n cs"
  shows "distinct (order (stack cs))" "w \<in> set (order (stack cs)) \<longleftrightarrow> 0 \<le> w \<and> w < n"
  using assms set_ok_order[OF assms] by (auto simp: set_ok_def lru_inv_def)

lemma lines_use_way:
  assumes ok: "set_ok n cs" and w: "0 \<le> w" "w < n" and b: "valid b \<noteq> 0"
  shows "lines (use_way cs w b)
    = line_of b # map (\<lambda>w. line_of (block_of cs w)) (filter (\<lambda>v. v \<noteq> w) (valid_ways cs))"
proof -
  have blk: "block_of (use_way cs w b) v = (if v = w then b else block_of cs v)"
    if "v \<in> set (order (stack cs))" for v
    using that w ok set_ok_ways(2)[OF ok, of v]
    by (auto simp: block_of_def use_way_def set_ok_def)
  have "order (stack (use_way cs w b)) = w # filter (\<lambda>v. v \<noteq> w) (order (stack cs))"
    using set_ok_ways(1)[OF ok] by (simp add: use_way_def to_front_filter)
  then have "valid_ways (use_way cs w b) = w # filter (\<lambda>v. v \<noteq> w) (valid_ways cs)"
    using blk[of w] w set_ok_ways(2)[OF ok, of w] b
    by (auto simp: valid_ways_def blk intro!: filter_cong)
  moreover have "block_of (use_way cs w b) w = b"
    using blk[of w] w set_ok_ways(2)[OF ok, of w] by simp
  ultimately show ?thesis
    by (auto simp: lines_def valid_ways_def blk)
qed

lemma valid_way_index:
  assumes "set_ok n cs"
  shows "w \<in> set (valid_ways cs) \<longleftrightarrow> 0 \<le> w \<and> w < n \<and> valid (blocks cs ! nat w) \<noteq> 0"
  using set_ok_ways(2)[OF assms] by (auto simp: valid_ways_def block_of_def)

lemma matching_way:
  assumes ok: "set_ok n cs"
  shows "first_index (block_matches t) (blocks cs) = None \<longleftrightarrow> t \<notin> fst ` set (lines cs)"
    and "first_index (block_matches t) (blocks cs) = Some i \<Longrightarrow>
      int i \<in> set (valid_ways cs) \<and> fst (line_of (block_of cs (int i))) = t"
proof -
  have n: "n = int (length (blocks cs))" using ok by (simp add: set_ok_def)
  have "t \<in> fst ` set (lines cs) \<longleftrightarrow> (\<exists>w \<in> set (valid_ways cs). scast (tag (blocks cs ! nat w)) = t)"
    by (force simp: lines_def line_of_def block_of_def)
  also have "\<dots> \<longleftrightarrow> (\<exists>b \<in> set (blocks cs). block_matches t b)"
  proof
    assume "\<exists>w \<in> set (valid_ways cs). scast (tag (blocks cs ! nat w)) = t"
    then obtain w where "0 \<le> w" "w < n" "block_matches t (blocks cs ! nat w)"
      using valid_way_index[OF ok] by (auto simp: block_matches_def)
    then show "\<exists>b \<in> set (blocks cs). block_matches t b"
      using n by (intro bexI[of _ "blocks cs ! nat w"]) auto
  next
    assume "\<exists>b \<in> set (blocks cs). block_matches t b"
    then obtain i where "i < length (blocks cs)" "block_matches t (blocks cs ! i)"
      by (auto simp: in_set_conv_nth)
    then show "\<exists>w \<in> set (valid_ways cs). scast (tag (blocks cs ! nat w)) = t"
      using n valid_way_index[OF ok, of "int i"]
      by (intro bexI[of _ "int i"]) (auto simp: block_matches_def)
  qed
  finally show "first_index (block_matches t) (blocks cs) = None \<longleftrightarrow> t \<notin> fst ` set (lines cs)"
    by (auto simp: first_index_None)
next
  assume "first_index (block_matches t) (blocks cs) = Some i"
  then have "i < length (blocks cs)" "block_matches t (blocks cs ! i)"
    using first_index_Some by auto
  then show "int i \<in> set (valid_ways cs) \<and> fst (line_of (block_of cs (int i))) = t"
    using ok valid_way_index[OF ok, of "int i"]
    by (auto simp: set_ok_def block_matches_def line_of_def block_of_def)
qed

subsection \<open>The three cases of an access\<close>

text \<open>Among the valid ways, the tags tell the ways apart.\<close>

lemma lines_drop_way:
  assumes "distinct (map fst (lines cs))" and "w \<in> set (valid_ways cs)"
  shows "filter (\<lambda>l. fst l \<noteq> fst (line_of (block_of cs w))) (lines cs)
    = map (\<lambda>w. line_of (block_of cs w)) (filter (\<lambda>v. v \<noteq> w) (valid_ways cs))"
proof -
  have inj: "inj_on (\<lambda>w. fst (line_of (block_of cs w))) (set (valid_ways cs))"
    using assms(1) by (simp add: lines_def distinct_map o_def comp_def)
  have "fst (line_of (block_of cs v)) \<noteq> fst (line_of (block_of cs w)) \<longleftrightarrow> v \<noteq> w"
    if "v \<in> set (valid_ways cs)" for v
    using inj_on_eq_iff[OF inj that assms(2)] by simp
  then show ?thesis
    by (auto simp: lines_def filter_map o_def intro!: arg_cong[of _ _ "map _"] filter_cong)
qed

lemma lines_touched:
  assumes ok: "set_ok n cs" and dist: "distinct (map fst (lines cs))"
    and hit: "first_index (block_matches t) (blocks cs) = Some i"
  shows "ref_access m t (at = MEMWRITE) (lines cs) = (lines (touched cs (int i) at), True, False)"
proof -
  let ?b = "block_of cs (int i)"
  have i: "int i \<in> set (valid_ways cs)" and t: "fst (line_of ?b) = t"
    using matching_way(2)[OF ok hit] by auto
  have iw: "0 \<le> int i" "int i < n" "valid ?b \<noteq> 0"
    using i valid_way_index[OF ok, of "int i"] by (auto simp: block_of_def)
  have "(t, dirty ?b \<noteq> 0) \<in> set (lines cs)"
    using i t by (force simp: lines_def line_of_def)
  then have "map_of (lines cs) t = Some (dirty ?b \<noteq> 0)"
    using dist by (simp add: map_of_is_SomeI)
  moreover have "lines (touched cs (int i) at)
      = (t, dirty ?b \<noteq> 0 \<or> at = MEMWRITE) # filter (\<lambda>l. fst l \<noteq> t) (lines cs)"
    using lines_use_way[OF ok iw(1,2)] iw(3) lines_drop_way[OF dist i] t
    by (auto simp: touched_def line_of_def)
  ultimately show ?thesis by (simp add: ref_access_def)
qed

lemma scast_ucast_tag:
  assumes "(t::u64) < 2 ^ 31"
  shows "scast (ucast t :: u32) = t"
proof -
  have u: "uint t < 2 ^ 31" using assms by (simp add: word_less_def)
  have "uint (ucast t :: u32) = uint t"
    using u by (simp add: unsigned_ucast_eq take_bit_int_eq_self)
  moreover have "signed_take_bit 31 (uint t) = uint t"
    using u uint_ge_0[of t] by (intro signed_take_bit_int_eq_self) linarith+
  moreover have "sint (w :: u32) = signed_take_bit 31 (uint w)" for w
    by (subst sint_uint) simp
  ultimately have "sint (ucast t :: u32) = uint t" by metis
  then show ?thesis unfolding scast_eq by (simp only: word_of_int_uint)
qed

lemma lines_filled:
  assumes ok: "set_ok n cs" and n: "1 \<le> n" and t: "t < 2 ^ 31"
    and miss: "first_index (block_matches t) (blocks cs) = None"
  shows "ref_access (nat n) t (at = MEMWRITE) (lines cs)
    = (lines (filled cs t at), False, evicts_dirty cs)"
proof -
  have fw: "0 \<le> fill_way cs" "fill_way cs < n" using fill_way_bounds[OF ok n] .
  have len: "length (order (stack cs)) = nat n"
    using ok by (simp add: set_ok_def lru_inv_def)
  have none: "map_of (lines cs) t = None"
    using miss matching_way(1)[OF ok] by (simp add: map_of_eq_None_iff)
  have new: "lines (filled cs t at) = (t, at = MEMWRITE)
      # map (\<lambda>w. line_of (block_of cs w)) (filter (\<lambda>v. v \<noteq> fill_way cs) (valid_ways cs))"
    using lines_use_way[OF ok fw] scast_ucast_tag[OF t] by (auto simp: filled_def line_of_def)
  show ?thesis
  proof (cases "first_index (\<lambda>b. valid b = 0) (blocks cs)")
    case (Some i)
    then have i: "i < length (blocks cs)" "valid (blocks cs ! i) = 0" "fill_way cs = int i"
      using first_index_Some[OF Some] by (auto simp: fill_way_def)
    then have notin: "int i \<notin> set (valid_ways cs)" by (simp add: valid_way_index[OF ok])
    then have "filter (\<lambda>v. v \<noteq> fill_way cs) (valid_ways cs) = valid_ways cs"
      using i(3) by (auto intro: filter_True)
    moreover have "length (valid_ways cs) < nat n"
    proof -
      have "int i \<in> set (order (stack cs))" using set_ok_ways(2)[OF ok] fw i(3) by simp
      with notin have "length (valid_ways cs) < length (order (stack cs))"
        by (auto simp: valid_ways_def intro!: length_filter_less)
      with len show ?thesis by simp
    qed
    ultimately show ?thesis
      using new none Some by (simp add: ref_access_def evicts_dirty_def lines_def)
  next
    case None
    then have all: "valid b \<noteq> 0" if "b \<in> set (blocks cs)" for b
      using that by (simp add: first_index_None)
    have vw: "valid_ways cs = order (stack cs)"
      unfolding valid_ways_def using ok all set_ok_ways(2)[OF ok]
      by (intro filter_True) (auto simp: block_of_def set_ok_def)
    have ne: "order (stack cs) \<noteq> []" using set_ok_order_ne[OF ok n] .
    have last: "fill_way cs = last (order (stack cs))" using None by (simp add: fill_way_def)
    have split: "order (stack cs) = butlast (order (stack cs)) @ [fill_way cs]"
      using ne last by simp
    then have "distinct (butlast (order (stack cs)) @ [fill_way cs])"
      using set_ok_ways(1)[OF ok] by simp
    then have "filter (\<lambda>v. v \<noteq> fill_way cs) (butlast (order (stack cs)) @ [fill_way cs])
        = butlast (order (stack cs))"
      by (auto intro: filter_True)
    then have "filter (\<lambda>v. v \<noteq> fill_way cs) (valid_ways cs) = butlast (order (stack cs))"
      using split vw by simp
    then show ?thesis
      using new none None len vw last ne
      by (simp add: ref_access_def evicts_dirty_def lines_def map_butlast last_map line_of_def)
  qed
qed

end
