(* ===== verification/Cache_Props.thy ===== *)
theory Cache_Props
  imports Cache_Refine
begin

unbundle bit_operations_syntax

text \<open>
  The properties of the cache simulator: the refinement of the reference LRU cache by one
  access, the contents of the sets after a trace, what more ways do to the misses, the
  statistics, initialization and the trace loop.
\<close>

subsection \<open>One access\<close>

lemma access_result_geometry: "same_geometry s (access_result s pa at)"
  by (auto simp: same_geometry_def access_result_def Let_def split: option.splits)

lemma access_split_same:
  assumes "same_geometry s s'"
  shows "block_addr_of s' pa = block_addr_of s pa" "set_index_of s' ba = set_index_of s ba"
    "tag_of s' ba = tag_of s ba"
  using assms by (simp_all add: same_geometry_def block_addr_of_def set_index_of_def tag_of_def)

definition addr_tag :: "cachesim \<Rightarrow> u64 \<Rightarrow> u64" where
  "addr_tag s pa = tag_of s (block_addr_of s pa)"

definition addr_set :: "cachesim \<Rightarrow> u64 \<Rightarrow> nat" where
  "addr_set s pa = nat (set_index_of s (block_addr_of s pa))"

lemma addr_same:
  assumes "same_geometry s s'"
  shows "addr_tag s' pa = addr_tag s pa" "addr_set s' pa = addr_set s pa"
  using access_split_same[OF assms] by (simp_all add: addr_tag_def addr_set_def)

lemma addr_set_less: "sim_ok s \<Longrightarrow> addr_set s pa < length (cache s)"
  using set_index_in_bounds[of s "block_addr_of s pa"] by (simp add: addr_set_def nat_less_iff)

lemma sim_ok_access: "sim_ok s \<Longrightarrow> sim_ok (access_result s pa at)"
proof -
  assume ok: "sim_ok s"
  let ?cs = "cache s ! addr_set s pa"
  have cs: "set_ok (ways s) ?cs" using set_ok_nth[OF ok] by (simp add: addr_set_def)
  have w: "1 \<le> ways s" using ok by (simp add: sim_ok_def)
  have 1: "set_ok (ways s) (filled ?cs t at)" for t
    using set_ok_use_way[OF cs] fill_way_bounds[OF cs w] by (simp add: filled_def)
  have 2: "set_ok (ways s) (touched ?cs (int i) at)"
    if "first_index (block_matches t) (blocks ?cs) = Some i" for i t
    using set_ok_use_way[OF cs, of "int i"] first_index_Some[OF that] cs
    by (simp add: touched_def set_ok_def)
  show "sim_ok (access_result s pa at)"
    using ok 1 2 sim_ok_put[OF ok]
    by (auto simp: access_result_def Let_def addr_set_def sim_ok_def
        dest!: set_update_subset_insert[THEN subsetD] split: option.splits)
qed

text \<open>The counters and the lines of every set after an access.\<close>

definition access_outcome :: "cachesim \<Rightarrow> u64 \<Rightarrow> int \<Rightarrow> line list \<times> bool \<times> bool" where
  "access_outcome s pa at = ref_access (nat (ways s)) (addr_tag s pa) (at = MEMWRITE)
     (lines (cache s ! addr_set s pa))"

lemma access_result_lines:
  assumes inv: "sim_inv s" and t: "addr_tag s pa < 2 ^ 31"
  shows "access_outcome s pa at = (ls, hit, wb) \<Longrightarrow>
    map lines (cache (access_result s pa at)) = (map lines (cache s))[addr_set s pa := ls]
    \<and> accesses (access_result s pa at) = accesses s + 1
    \<and> hits (access_result s pa at) = (if hit then hits s + 1 else hits s)
    \<and> misses (access_result s pa at) = (if hit then misses s else misses s + 1)
    \<and> writebacks (access_result s pa at) = (if wb then writebacks s + 1 else writebacks s)"
proof -
  let ?cs = "cache s ! addr_set s pa"
  have ok: "sim_ok s" using inv by (simp add: sim_inv_def)
  have cs: "set_ok (ways s) ?cs" using set_ok_nth[OF ok] by (simp add: addr_set_def)
  have w: "1 \<le> ways s" using ok by (simp add: sim_ok_def)
  have dist: "distinct (map fst (lines ?cs))"
    using inv addr_set_less[OF ok, of pa] by (auto simp: sim_inv_def)
  assume out: "access_outcome s pa at = (ls, hit, wb)"
  show ?thesis
  proof (cases "first_index (block_matches (addr_tag s pa)) (blocks ?cs)")
    case None
    from lines_filled[OF cs w t None] out None show ?thesis
      by (auto simp: access_outcome_def access_result_def Let_def map_update
          simp flip: addr_tag_def addr_set_def)
  next
    case (Some i)
    from lines_touched[OF cs dist Some, of "nat (ways s)" at] out Some show ?thesis
      by (auto simp: access_outcome_def access_result_def Let_def map_update
          simp flip: addr_tag_def addr_set_def)
  qed
qed

lemma ref_touch_distinct: "distinct ts \<Longrightarrow> distinct (ref_touch n t ts)"
  by (auto simp: ref_touch_def distinct_butlast dest: in_set_butlastD)

lemma sim_inv_access:
  assumes inv: "sim_inv s" and t: "addr_tag s pa < 2 ^ 31"
  shows "sim_inv (access_result s pa at)"
proof -
  obtain ls hit wb where out: "access_outcome s pa at = (ls, hit, wb)" by (metis prod_cases3)
  have ok: "sim_ok s" using inv by (simp add: sim_inv_def)
  have "distinct (map fst (lines (cache s ! addr_set s pa)))"
    using inv addr_set_less[OF ok, of pa] by (auto simp: sim_inv_def)
  then have "distinct (map fst ls)"
    using out ref_access_tags ref_touch_distinct by (metis access_outcome_def fst_conv)
  moreover have "\<forall>l \<in> set (map lines (cache s)). distinct (map fst l)"
    using inv by (simp add: sim_inv_def)
  ultimately have "\<forall>l \<in> set (map lines (cache (access_result s pa at))). distinct (map fst l)"
    using access_result_lines[OF inv t out] set_update_subset_insert by fastforce
  then show ?thesis using sim_ok_access[OF ok] by (simp add: sim_inv_def)
qed

subsection \<open>Traces\<close>

definition access_line :: "cachesim \<Rightarrow> int \<times> u64 \<times> u64 \<Rightarrow> cachesim res" where
  "access_line s l = (case l of (t, address, instr) \<Rightarrow> cachesim_access s address t)"

lemma access_line_simp [simp]: "access_line s (t, a, x) = cachesim_access s a t"
  by (simp add: access_line_def)

text \<open>The tags of the accesses of a trace that go to set \<open>i\<close>, in order.\<close>

definition set_history :: "cachesim \<Rightarrow> (int \<times> u64 \<times> u64) list \<Rightarrow> nat \<Rightarrow> u64 list" where
  "set_history s tr i = map (\<lambda>(t, a, x). addr_tag s a) (filter (\<lambda>(t, a, x). addr_set s a = i) tr)"

definition tags_fit :: "cachesim \<Rightarrow> (int \<times> u64 \<times> u64) list \<Rightarrow> bool" where
  "tags_fit s tr \<longleftrightarrow> (\<forall>(t, a, x) \<in> set tr. addr_tag s a < 2 ^ 31)"

definition ref_miss :: "cachesim \<Rightarrow> nat \<Rightarrow> (int \<times> u64 \<times> u64) list \<Rightarrow> nat \<Rightarrow> bool" where
  "ref_miss s n tr k = (case tr ! k of (t, a, x) \<Rightarrow>
     addr_tag s a \<notin> set (take n (recency (set_history s (take k tr) (addr_set s a)))))"

definition ref_misses :: "cachesim \<Rightarrow> nat \<Rightarrow> (int \<times> u64 \<times> u64) list \<Rightarrow> nat" where
  "ref_misses s n tr = length (filter (ref_miss s n tr) [0..<length tr])"

lemma ref_misses_snoc:
  "ref_misses s n (tr @ [l]) = ref_misses s n tr
    + (if ref_miss s n (tr @ [l]) (length tr) then 1 else 0)"
proof -
  have "filter (ref_miss s n (tr @ [l])) [0..<length tr] = filter (ref_miss s n tr) [0..<length tr]"
    by (intro filter_cong) (auto simp: ref_miss_def nth_append)
  then show ?thesis by (simp add: ref_misses_def)
qed

lemma ref_misses_le: "ref_misses s n tr \<le> length tr"
  unfolding ref_misses_def using length_filter_le[of "ref_miss s n tr" "[0..<length tr]"] by simp

lemma ref_misses_antimono: "m \<le> n \<Longrightarrow> ref_misses s n tr \<le> ref_misses s m tr"
proof -
  assume "m \<le> n"
  then have "ref_miss s n tr k \<Longrightarrow> ref_miss s m tr k" for k
    using set_take_subset_set_take[of m n] by (fastforce simp: ref_miss_def split: prod.splits)
  then have "filter (ref_miss s n tr) [0..<length tr]
      = filter (ref_miss s n tr) (filter (ref_miss s m tr) [0..<length tr])"
    by (auto intro: filter_cong)
  then show ?thesis unfolding ref_misses_def by (metis length_filter_le)
qed

text \<open>A cache with no valid block.\<close>

definition sim_empty :: "cachesim \<Rightarrow> bool" where
  "sim_empty s \<longleftrightarrow> (\<forall>cs \<in> set (cache s). lines cs = [])"

text \<open>What a trace from an empty cache leaves behind, set by set, and the misses it counts.\<close>

definition contents_after :: "cachesim \<Rightarrow> (int \<times> u64 \<times> u64) list \<Rightarrow> cachesim \<Rightarrow> bool" where
  "contents_after s tr s' \<longleftrightarrow> sim_inv s' \<and> same_geometry s s'
     \<and> (\<forall>i < length (cache s). map fst (lines (cache s' ! i))
         = take (nat (ways s)) (recency (set_history s tr i)))
     \<and> misses s' = misses s + of_nat (ref_misses s (nat (ways s)) tr)"

lemma contents_after_Nil: "sim_inv s \<Longrightarrow> sim_empty s \<Longrightarrow> contents_after s [] s"
  by (auto simp: contents_after_def sim_empty_def same_geometry_def ref_misses_def
      set_history_def)

lemma history_step:
  assumes "1 \<le> n" and "distinct (map fst ls)"
    and "map fst ls = take n (recency (set_history s tr (addr_set s a)))"
  shows "map fst (fst (ref_access n (addr_tag s a) w ls))
    = take n (recency (set_history s (tr @ [(t, a, x)]) (addr_set s a)))"
proof -
  have "map fst (fst (ref_access n (addr_tag s a) w ls)) = ref_touch n (addr_tag s a) (map fst ls)"
    using ref_access_tags[OF assms(2)] .
  also have "\<dots> = take n (to_front (addr_tag s a) (recency (set_history s tr (addr_set s a))))"
    using assms(1,3) by (simp add: ref_touch_take)
  finally show ?thesis by (simp add: set_history_def recency_snoc)
qed

lemma contents_after_step:
  assumes c: "contents_after s tr s1" and fit: "addr_tag s a < 2 ^ 31"
  shows "contents_after s (tr @ [(t, a, x)]) (access_result s1 a t)"
proof -
  let ?s' = "access_result s1 a t" and ?j = "addr_set s a" and ?n = "nat (ways s)"
    and ?tr = "tr @ [(t, a, x)]"
  have inv: "sim_inv s1" and geo: "same_geometry s s1"
    and c1: "\<And>i. i < length (cache s) \<Longrightarrow> map fst (lines (cache s1 ! i))
        = take ?n (recency (set_history s tr i))"
    using c by (simp_all add: contents_after_def)
  have ok: "sim_ok s1" using inv by (simp add: sim_inv_def)
  have len: "length (cache s1) = length (cache s)" "ways s1 = ways s"
    using geo by (simp_all add: same_geometry_def)
  have n1: "1 \<le> ?n"
  proof -
    have "1 \<le> ways s" using ok len(2) by (simp add: sim_ok_def)
    then show ?thesis by linarith
  qed
  have t1: "addr_tag s1 a < 2 ^ 31" using fit addr_same[OF geo] by simp
  have j: "?j < length (cache s)" using addr_set_less[OF ok, of a] addr_same[OF geo] len by simp
  obtain ls hit wb where out: "access_outcome s1 a t = (ls, hit, wb)" by (metis prod_cases3)
  then have ref: "ref_access ?n (addr_tag s a) (t = MEMWRITE) (lines (cache s1 ! ?j)) = (ls, hit, wb)"
    using addr_same[OF geo] len by (simp add: access_outcome_def)
  note res = access_result_lines[OF inv t1 out]
  have "distinct (map fst (lines (cache s1 ! ?j)))"
    using inv j len(1) by (auto simp: sim_inv_def)
  then have tags: "map fst ls = take ?n (recency (set_history s ?tr ?j))"
    using history_step[OF n1 _ c1[OF j]] ref by (metis fst_conv)
  have "map fst (lines (cache ?s' ! i)) = take ?n (recency (set_history s ?tr i))"
    if i: "i < length (cache s)" for i
  proof -
    have "lines (cache ?s' ! i) = (map lines (cache s1))[?j := ls] ! i"
      using i res access_result_geometry[of s1 a t] len addr_same[OF geo]
      by (metis length_map nth_map same_geometry_def)
    then show ?thesis
      using tags c1[OF i] i len(1) by (cases "i = ?j") (simp_all add: set_history_def)
  qed
  moreover have "hit \<longleftrightarrow> \<not> ref_miss s ?n ?tr (length tr)"
    using ref_access_hit[of ?n "addr_tag s a" "t = MEMWRITE" "lines (cache s1 ! ?j)"] ref c1[OF j]
    by (simp add: ref_miss_def)
  then have "misses ?s' = misses s + of_nat (ref_misses s ?n ?tr)"
    using res c by (simp add: ref_misses_snoc contents_after_def)
  moreover have "same_geometry s ?s'"
    using geo access_result_geometry[of s1 a t] by (simp add: same_geometry_def)
  ultimately show ?thesis
    using sim_inv_access[OF inv t1] by (simp add: contents_after_def)
qed

lemma trace_contents:
  assumes "sim_inv s" and "sim_empty s" and "tags_fit s tr"
  shows "\<exists>s'. foldE access_line s tr = Inr s' \<and> contents_after s tr s'"
  using assms(3)
proof (induction tr rule: rev_induct)
  case Nil
  show ?case using contents_after_Nil[OF assms(1,2)] by simp
next
  case (snoc l tr)
  obtain t a x where l: "l = (t, a, x)" by (metis prod_cases3)
  have fit: "tags_fit s tr" "addr_tag s a < 2 ^ 31"
    using snoc.prems l by (auto simp: tags_fit_def)
  from snoc.IH[OF fit(1)] obtain s1 where s1: "foldE access_line s tr = Inr s1"
    "contents_after s tr s1" by auto
  have "cachesim_access s1 a t = Inr (access_result s1 a t)"
    using s1(2) cachesim_access_eq by (simp add: contents_after_def sim_inv_def)
  with s1 contents_after_step[OF s1(2) fit(2)] show ?case
    by (simp add: foldE_append l)
qed

subsection \<open>The trace loop\<close>

lemma trace_loop_rest:
  "ls \<noteq> [] \<Longrightarrow> trace_loop unread \<lparr>rest = ls, eof = False\<rparr> s = foldE access_line s ls"
proof (induction ls arbitrary: s)
  case Nil
  then show ?case by simp
next
  case (Cons l ls)
  obtain t a x where l: "l = (t, a, x)" by (metis prod_cases3)
  have last: "trace_loop unread \<lparr>rest = [], eof = True\<rparr> s' = Inr s'" for s'
    by (subst trace_loop.simps) (simp add: next_line_def)
  have "trace_loop unread \<lparr>rest = l # ls, eof = False\<rparr> s
    = bindE (cachesim_access s a t) (\<lambda>s'. trace_loop unread \<lparr>rest = ls, eof = (ls = [])\<rparr> s')"
    by (subst trace_loop.simps) (simp add: next_line_def l bindE_assoc)
  then show ?case
    using Cons.IH last by (cases "ls = []") (simp_all add: l)
qed

lemma trace_loop_nonempty:
  "ls \<noteq> [] \<Longrightarrow> trace_loop unread (open_trace ls) s = foldE access_line s ls"
  by (simp add: open_trace_def trace_loop_rest)

lemma trace_loop_empty:
  "trace_loop (t, a) (open_trace []) s = cachesim_access s a t"
proof -
  have "trace_loop unread \<lparr>rest = [], eof = True\<rparr> s' = Inr s'" for s' unread
    by (subst trace_loop.simps) (simp add: next_line_def)
  then have "trace_loop (t, a) (open_trace []) s
    = bindE (cachesim_access s a t) (\<lambda>s'. Inr s')"
    by (subst trace_loop.simps) (simp add: next_line_def open_trace_def bindE_assoc)
  then show ?thesis by (cases "cachesim_access s a t") simp_all
qed

subsection \<open>Statistics\<close>

definition stats_ok :: "cachesim \<Rightarrow> bool" where
  "stats_ok s \<longleftrightarrow> accesses s = hits s + misses s"

lemma stats_ok_access: "stats_ok s \<Longrightarrow> stats_ok (access_result s pa at)"
  by (auto simp: stats_ok_def access_result_def Let_def split: option.splits)

lemma access_line_ok: "sim_ok s \<Longrightarrow> stats_ok s \<Longrightarrow>
    \<exists>s'. access_line s l = Inr s' \<and> sim_ok s' \<and> stats_ok s' \<and> same_geometry s s'"
  using sim_ok_access stats_ok_access access_result_geometry
  by (cases l) (simp add: cachesim_access_eq)

lemma trace_safe:
  assumes "sim_ok s" and "stats_ok s"
  shows "\<exists>s'. foldE access_line s tr = Inr s' \<and> sim_ok s' \<and> stats_ok s'"
  using foldE_invariant[of "\<lambda>s. sim_ok s \<and> stats_ok s" tr access_line s] access_line_ok assms
  by (metis (no_types, lifting))

end
