(* ===== verification/Cache_Correct.thy ===== *)
theory Cache_Correct
  imports Cache_Props
begin

unbundle bit_operations_syntax

text \<open>
  Initialization of the cache simulator, and the theorems about the program as a whole with
  their witnesses.
\<close>

subsection \<open>Initialization\<close>

definition invalid_block :: "cache_block_t \<Rightarrow> bool" where
  "invalid_block b \<longleftrightarrow> tag b = 0 \<and> valid b = 0 \<and> dirty b = 0"

lemma clear_blocks_loop_from:
  "k \<le> length bs \<Longrightarrow> \<forall>i < k. invalid_block (bs ! i) \<Longrightarrow>
    \<exists>bs'. clear_blocks_loop (int (length bs)) (int k) bs = Inr bs' \<and> length bs' = length bs
      \<and> (\<forall>b \<in> set bs'. invalid_block b)"
proof (induction "length bs - k" arbitrary: k bs)
  case 0
  then show ?case by (auto simp: clear_blocks_loop.simps in_set_conv_nth)
next
  case (Suc d)
  then have k: "k < length bs" by simp
  let ?bs = "bs[k := (bs ! k)\<lparr>tag := 0, valid := 0, dirty := 0\<rparr>]"
  have "clear_blocks_loop (int (length bs)) (int k) bs
      = clear_blocks_loop (int (length ?bs)) (int (Suc k)) ?bs"
    using k by (subst clear_blocks_loop.simps) (simp add: add.commute)
  moreover have "\<forall>i < Suc k. invalid_block (?bs ! i)"
    using k Suc.prems(2) by (auto simp: nth_list_update less_Suc_eq invalid_block_def)
  moreover have "d = length ?bs - Suc k" using Suc.hyps(2) by simp
  ultimately show ?case
    using Suc.hyps(1)[of ?bs "Suc k"] k by simp
qed

lemma init_set_eq:
  assumes "0 \<le> w"
  shows "\<exists>cs. init_set jk w i = Inr cs \<and> set_ok w cs \<and> (\<forall>b \<in> set (blocks cs). invalid_block b)
    \<and> order (stack cs) = map int [0..<nat w]"
proof -
  have "\<exists>bs. clear_blocks_loop (int (nat w)) (int 0) (malloc_array (junk_block jk i) w) = Inr bs
      \<and> length bs = nat w \<and> (\<forall>b \<in> set bs. invalid_block b)"
    using clear_blocks_loop_from[of 0 "malloc_array (junk_block jk i) w"]
    by (simp add: malloc_array_def)
  moreover have "init_lru_stack (malloc_array (junk_order jk i) w) w
      = Inr \<lparr>lru_size = w, order = map int [0..<nat w]\<rparr>"
    using assms by (subst init_lru_stack_eq) (simp_all add: malloc_array_def)
  ultimately show ?thesis
    using assms init_lru_stack_inv[of "malloc_array (junk_order jk i) w" w]
    by (auto simp: init_set_def set_ok_def malloc_array_def)
qed

lemma init_sets_loop_from:
  assumes "0 \<le> w"
  shows "i \<le> n \<Longrightarrow> \<exists>sets. init_sets_loop jk w n i = Inr sets \<and> int (length sets) = n - i
    \<and> (\<forall>cs \<in> set sets. set_ok w cs \<and> (\<forall>b \<in> set (blocks cs). invalid_block b))"
proof (induction "nat (n - i)" arbitrary: i)
  case 0
  then show ?case by (simp add: init_sets_loop.simps)
next
  case (Suc d)
  then have i: "i < n" by simp
  obtain cs where cs: "init_set jk w i = Inr cs" "set_ok w cs"
    "\<forall>b \<in> set (blocks cs). invalid_block b"
    using init_set_eq[OF assms] by metis
  have "d = nat (n - (i + 1))" using Suc.hyps(2) by linarith
  then obtain sets where sets: "init_sets_loop jk w n (i + 1) = Inr sets"
    "int (length sets) = n - (i + 1)"
    "\<forall>cs \<in> set sets. set_ok w cs \<and> (\<forall>b \<in> set (blocks cs). invalid_block b)"
    using Suc.hyps(1)[of "i + 1"] i by auto
  then show ?case
    using i cs by (subst init_sets_loop.simps) simp
qed

lemma lines_empty:
  assumes "set_ok w cs" and "\<forall>b \<in> set (blocks cs). invalid_block b"
  shows "lines cs = []"
proof -
  have "valid (block_of cs v) = 0" if "v \<in> set (order (stack cs))" for v
  proof -
    have "block_of cs v \<in> set (blocks cs)"
      using that assms(1) set_ok_ways(2)[OF assms(1), of v]
      by (auto simp: block_of_def set_ok_def intro!: nth_mem)
    then show ?thesis using assms(2) by (simp add: invalid_block_def)
  qed
  then show ?thesis by (simp add: lines_def valid_ways_def)
qed

text \<open>The sizes a command line must give for the simulator to have at least one set.\<close>

definition good_sizes :: "int \<Rightarrow> int \<Rightarrow> int \<Rightarrow> bool" where
  "good_sizes bsize csize w \<longleftrightarrow>
     1 \<le> bsize \<and> 1 \<le> w \<and> bsize * w \<le> csize \<and> csize < 2 ^ 31"

lemma cachesim_init_ok:
  assumes "good_sizes bsize csize w"
  shows "\<exists>s. cachesim_init jk bsize csize w = Inr s \<and> sim_inv s \<and> sim_empty s
    \<and> ways s = w \<and> num_sets s = csize div (bsize * w) \<and> block_size s = bsize
    \<and> num_offset_bits s = simple_log_2 bsize
    \<and> accesses s = 0 \<and> hits s = 0 \<and> misses s = 0 \<and> writebacks s = 0"
proof -
  let ?p = "bsize * w" and ?n = "csize div (bsize * w)"
  have p: "1 \<le> ?p" "?p \<le> csize" "csize < 2 ^ 31"
    using assms mult_mono[of 1 bsize 1 w] by (auto simp: good_sizes_def)
  have "?n \<le> csize" using p zdiv_mono2[of csize 1 ?p] by simp
  moreover have "0 < ?n" using p by (simp add: pos_imp_zdiv_pos_iff)
  ultimately have n: "1 \<le> ?n" "?n < 2 ^ 31" using p(3) by linarith+
  have "chk_int ?p = Inr ?p" "div_int csize ?p = Inr ?n"
    using p n assms by (auto simp: chk_int_def div_int_def sdiv_nonneg_int good_sizes_def)
  moreover have "0 \<le> w" "0 \<le> ?n" using assms n by (simp_all add: good_sizes_def)
  then obtain sets where sets: "init_sets_loop jk w ?n 0 = Inr sets" "int (length sets) = ?n"
    "\<forall>cs \<in> set sets. set_ok w cs \<and> (\<forall>b \<in> set (blocks cs). invalid_block b)"
    using init_sets_loop_from[of w 0 ?n jk] by auto
  moreover have "\<forall>cs \<in> set sets. lines cs = []" using sets(3) lines_empty by blast
  ultimately show ?thesis
    using n assms by (simp add: cachesim_init_def sim_inv_def sim_ok_def sim_empty_def good_sizes_def)
qed







text \<open>A small cache for the witnesses: two sets of two ways, blocks of 16 bytes.\<close>

definition demo_junk :: junk where
  "demo_junk = \<lparr>junk_block = (\<lambda>i j. \<lparr>tag = 7, valid = 1, dirty = 1\<rparr>), junk_order = (\<lambda>i j. 9)\<rparr>"

definition demo_set :: cache_set_t where
  "demo_set = \<lparr>set_size = 2, stack = \<lparr>lru_size = 2, order = [0, 1]\<rparr>,
     blocks = [\<lparr>tag = 0, valid = 0, dirty = 0\<rparr>, \<lparr>tag = 0, valid = 0, dirty = 0\<rparr>]\<rparr>"

definition demo_cache :: cachesim where
  "demo_cache = \<lparr>accesses = 0, hits = 0, misses = 0, writebacks = 0, cache = [demo_set, demo_set],
     block_size = 16, cache_size = 64, ways = 2, num_sets = 2,
     num_offset_bits = 4, num_index_bits = 1\<rparr>"

lemma demo_cache_init: "cachesim_init demo_junk 16 64 2 = Inr demo_cache"
  by code_simp

lemma demo_cache_inv: "sim_inv demo_cache" "sim_ok demo_cache"
  using cachesim_init_ok[of 16 64 2 demo_junk] demo_cache_init
  by (auto simp: good_sizes_def sim_inv_def)

subsection \<open>The theorems\<close>





text \<open>
  C36: On an empty trace file the program still simulates one access: \<open>feof\<close> is not yet set when
  the loop starts, the read fails, and \<open>cachesim_access\<close> runs on the variables \<open>fscanf\<close> did not
  write. The printed line shows one access and one miss.
\<close>

theorem empty_trace_phantom_access:
  assumes "good_sizes bsize csize w"
  shows "cachesim_main jk unread [] bsize csize w = Inr (1, 0, 1, 0)"
proof -
  obtain s where s: "cachesim_init jk bsize csize w = Inr s" "sim_inv s" "sim_empty s"
    "accesses s = 0" "hits s = 0" "misses s = 0" "writebacks s = 0"
    using cachesim_init_ok[OF assms, of jk] by auto
  obtain t a where u: "unread = (t, a)" by (metis surj_pair)
  let ?cs = "cache s ! addr_set s a"
  have ok: "sim_ok s" using s(2) by (simp add: sim_inv_def)
  have cs: "set_ok (ways s) ?cs" "?cs \<in> set (cache s)"
    using set_ok_nth[OF ok] addr_set_less[OF ok] by (simp_all add: addr_set_def)
  have "lines ?cs = []" using s(3) cs(2) by (simp add: sim_empty_def)
  then have none: "valid_ways ?cs = []" by (simp add: lines_def)
  have miss: "first_index (block_matches (addr_tag s a)) (blocks ?cs) = None"
    using matching_way(1)[OF cs(1)] \<open>lines ?cs = []\<close> by simp
  have "\<not> evicts_dirty ?cs"
  proof
    assume ev: "evicts_dirty ?cs"
    have w: "1 \<le> ways s" using ok by (simp add: sim_ok_def)
    then have "valid (blocks ?cs ! 0) \<noteq> 0"
    proof -
      have "0 < length (blocks ?cs)" using w cs(1) by (auto simp: set_ok_def)
      then have "blocks ?cs ! 0 \<in> set (blocks ?cs)" by simp
      then show ?thesis using ev by (simp add: evicts_dirty_def first_index_None)
    qed
    with none valid_way_index[OF cs(1), of 0] w show False by simp
  qed
  with s miss show ?thesis
    using cachesim_access_eq[OF ok, of a t] u
    by (simp add: cachesim_main_def trace_loop_empty access_result_def Let_def cachesim_stats_def
        flip: addr_tag_def addr_set_def)
qed

theorem empty_trace_phantom_access_witness:
  "cachesim_main demo_junk (0, 4096) [] 16 64 2 = Inr (1, 0, 1, 0)"
  by (rule empty_trace_phantom_access) (simp add: good_sizes_def)





lemma scast_range: "(scast (b :: u32) :: u64) < 2 ^ 31 \<or> - (2 ^ 31) \<le> (scast b :: u64)"
proof -
  define t :: u64 where "t = scast b"
  obtain x where x: "t = word_of_int x" "- (2 ^ 31) \<le> x" "x < 2 ^ 31"
  proof
    show "t = word_of_int (sint b)" by (simp only: t_def scast_eq)
    show "- (2 ^ 31) \<le> sint b" "sint b < 2 ^ 31" using sint_ge[of b] sint_lt[of b] by simp_all
  qed
  have "t < 2 ^ 31 \<or> - (2 ^ 31) \<le> t"
  proof (cases "0 \<le> x")
    case True
    then have "uint t = x" using x by (simp add: uint_word_of_int)
    then show ?thesis using x(3) by (simp add: word_less_def)
  next
    case False
    have "(x + 2 ^ 64) mod 2 ^ 64 = x + 2 ^ 64"
      using False x by (intro mod_pos_pos_trivial) simp_all
    then have "x mod 2 ^ 64 = x + 2 ^ 64" by (simp only: mod_add_self2)
    then have "uint t = x + 2 ^ 64" using x(1) by (simp add: uint_word_of_int)
    then show ?thesis using x(2) by (simp add: word_le_def)
  qed
  then show ?thesis by (simp only: t_def)
qed

text \<open>
  C35: An address whose tag does not fit the signed 32-bit field (and is not a sign-extension)
  can never hit: in every state a second access to it right after the first misses again. With
  the documented geometry (32-byte blocks, 64 KiB, 8 ways) that is every address from \<open>2 ^ 44\<close> up
  to the sign-extended range, though \<open>addr_t\<close> is 64 bits wide.
\<close>

theorem wide_tags_never_hit:
  assumes "sim_ok s" and "2 ^ 31 \<le> addr_tag s pa" and "addr_tag s pa < - (2 ^ 31)"
  shows "\<exists>s' s''. cachesim_access s pa at = Inr s' \<and> cachesim_access s' pa at' = Inr s''
    \<and> hits s'' = hits s \<and> misses s'' = misses s + 2"
proof -
  have no_match: "\<not> block_matches (addr_tag s pa) b" for b
    using scast_range[of "tag b"] assms(2,3) by (auto simp: block_matches_def)
  have miss: "hits (access_result t pa k) = hits t \<and> misses (access_result t pa k) = misses t + 1"
    if "same_geometry s t" for t k
  proof -
    have "first_index (block_matches (addr_tag s pa)) bs = None" for bs
      using no_match by (simp add: first_index_None)
    then show ?thesis
      using addr_same[OF that, of pa] by (simp add: access_result_def Let_def flip: addr_tag_def)
  qed
  have "same_geometry s s" by (simp add: same_geometry_def)
  from miss[OF this, of at] miss[OF access_result_geometry[of s pa at], of at'] show ?thesis
    using assms(1) sim_ok_access[OF assms(1)] by (simp add: cachesim_access_eq)
qed

theorem wide_tags_never_hit_witness:
  "\<exists>s' s''. cachesim_access demo_cache 0x00007FFFFFFFE000 0 = Inr s'
    \<and> cachesim_access s' 0x00007FFFFFFFE000 0 = Inr s'' \<and> hits s'' = 0 \<and> misses s'' = 2"
proof -
  have "addr_tag demo_cache 0x00007FFFFFFFE000 = 0x3FFFFFFFF00" by code_simp
  then have "2 ^ 31 \<le> addr_tag demo_cache 0x00007FFFFFFFE000"
    "addr_tag demo_cache 0x00007FFFFFFFE000 < - (2 ^ 31)" by simp_all
  from wide_tags_never_hit[OF demo_cache_inv(2) this, of 0 0] show ?thesis
    by (simp add: demo_cache_def)
qed

text \<open>
  \<open>simple_log_2\<close> is the floor of the base-2 logarithm for every positive \<open>int\<close>, and 0 for the
  others.
\<close>

lemma simple_log_2_floor:
  "(1 \<le> x \<longrightarrow> 2 ^ nat (simple_log_2 x) \<le> x \<and> x < 2 ^ (nat (simple_log_2 x) + 1))
    \<and> (x < 1 \<longrightarrow> simple_log_2 x = 0) \<and> 0 \<le> simple_log_2 x"
  using simple_log_2_bounds[of x] simple_log_2_nonneg[of x] simple_log_2_small[of x] by blast

lemma simple_log_2_floor_example:
  "2 ^ nat (simple_log_2 1000) \<le> (1000::int) \<and> simple_log_2 1000 = 9 \<and> simple_log_2 (-3) = 0"
proof -
  have "simple_log_2 1000 = 9" by code_simp
  then show ?thesis using simple_log_2_floor[of 1000] simple_log_2_floor[of "-3"] by simp
qed

text \<open>
  The address split loses nothing and stays inside the cache: the address is put together
  again from tag, set index and block offset, the index selects an existing set, and it is below
  the largest power of two not above the number of sets (so with a number of sets that is not a
  power of two the sets above it are never used).
\<close>

lemma address_split_roundtrip:
  assumes "sim_ok s"
  shows "let ba = block_addr_of s pa; n = nat (num_index_bits s); k = nat (num_offset_bits s) in
    uint pa = (uint (tag_of s ba) * 2 ^ n + set_index_of s ba) * 2 ^ k + uint pa mod 2 ^ k
    \<and> 0 \<le> set_index_of s ba \<and> set_index_of s ba < 2 ^ n \<and> 2 ^ n \<le> num_sets s
    \<and> num_sets s < 2 ^ (n + 1) \<and> num_sets s = int (length (cache s))"
proof -
  let ?ba = "block_addr_of s pa" and ?n = "nat (num_index_bits s)" and ?k = "nat (num_offset_bits s)"
  have geo: "num_index_bits s = simple_log_2 (num_sets s)" "1 \<le> num_sets s" "num_sets s < 2 ^ 31"
    "num_sets s = int (length (cache s))"
    using assms by (simp_all add: sim_ok_def)
  have idx: "set_index_of s ?ba = uint ?ba mod 2 ^ ?n"
    using set_index_eq simple_log_2_less_31[OF geo(3)] geo(1) by metis
  have ba: "uint ?ba = uint pa div 2 ^ ?k"
    by (simp only: block_addr_of_def uint_drop_bit_div)
  have tag: "uint (tag_of s ?ba) = uint ?ba div 2 ^ ?n"
    by (simp only: tag_of_def uint_drop_bit_div)
  have "uint ?ba = uint (tag_of s ?ba) * 2 ^ ?n + set_index_of s ?ba"
    by (simp only: tag idx div_mult_mod_eq)
  moreover have "uint pa = uint ?ba * 2 ^ ?k + uint pa mod 2 ^ ?k"
    by (simp only: ba div_mult_mod_eq)
  ultimately show ?thesis
    using idx geo simple_log_2_bounds[OF geo(2)] unfolding Let_def by auto
qed

lemma address_split_roundtrip_example:
  "tag_of demo_cache (block_addr_of demo_cache 100) = 3
    \<and> set_index_of demo_cache (block_addr_of demo_cache 100) = 0
    \<and> uint (100 :: u64) = (3 * 2 ^ 1 + 0) * 2 ^ 4 + 4"
proof -
  have "tag_of demo_cache (block_addr_of demo_cache 100) = 3"
    "set_index_of demo_cache (block_addr_of demo_cache 100) = 0"
    by code_simp+
  with address_split_roundtrip[OF demo_cache_inv(2), of 100] show ?thesis
    by (simp add: demo_cache_def Let_def)
qed

end
