(* ===== verification/Cache_Memory_Refine.thy ===== *)
theory Cache_Memory_Refine
  imports Cache_Memory Cache_Correct
begin

text \<open>
  The cache simulator in memory does what the simulator on values does: the memory that a state
  of \<open>Cache_Sim\<close> stands for (\<open>memory_of\<close>), each operation through pointers as the operation on
  that state, and cleaning up, which frees every object once.
\<close>

subsection \<open>Writing one object\<close>

definition upd :: "memory \<Rightarrow> nat \<Rightarrow> mem_object \<Rightarrow> memory" where
  "upd h a v = h\<lparr>cells := (cells h)(a \<mapsto> v)\<rparr>"

lemma upd_simps [simp]:
  "cells (upd h a v) = (cells h)(a \<mapsto> v)" "brk (upd h a v) = brk h" "avail (upd h a v) = avail h"
  by (simp_all add: upd_def)

lemma upd_upd [simp]: "upd (upd h a v) a w = upd h a w"
  by (simp add: upd_def)

lemma upd_same: "cells h a = Some v \<Longrightarrow> upd h a v = h"
  by (simp add: upd_def fun_upd_idem)

lemma store_upd: "cells h a = Some w \<Longrightarrow> store h (Some a) v = Inr (upd h a v)"
  by (simp add: upd_def)

lemma read_set_eq: "cells h c = Some (Set_Array xs) \<Longrightarrow> read_set h (Some c) i = arr_get xs i"
  by (simp add: read_set_def)

lemma write_set_eq:
  "cells h c = Some (Set_Array xs) \<Longrightarrow>
    write_set h (Some c) i v = bindE (arr_set xs i v) (\<lambda>ys. Inr (upd h c (Set_Array ys)))"
  by (simp add: write_set_def upd_def)

lemma read_block_eq: "cells h p = Some (Block_Array xs) \<Longrightarrow> read_block h (Some p) i = arr_get xs i"
  by (simp add: read_block_def)

lemma write_block_eq:
  "cells h p = Some (Block_Array xs) \<Longrightarrow>
    write_block h (Some p) i v = bindE (arr_set xs i v) (\<lambda>ys. Inr (upd h p (Block_Array ys)))"
  by (simp add: write_block_def upd_def)

lemma load_stack_eq: "cells h q = Some (Stack_Struct s) \<Longrightarrow> load_stack h (Some q) = Inr s"
  by (simp add: load_stack_def)

lemma update_set_eq:
  "cells h c = Some (Set_Array xs) \<Longrightarrow> i < length xs \<Longrightarrow>
    update_set h (Some c) (int i) f = Inr (upd h c (Set_Array (xs[i := f (xs ! i)])))"
  by (simp add: update_set_def read_set_eq write_set_eq)

subsection \<open>The stack in memory\<close>

definition stack_in :: "memory \<Rightarrow> nat \<Rightarrow> nat \<Rightarrow> lru_stack_t \<Rightarrow> bool" where
  "stack_in h q r s \<longleftrightarrow> cells h q = Some (Stack_Struct \<lparr>sc_size = lru_size s, sc_order = Some r\<rparr>)
     \<and> cells h r = Some (Order_Array (order s))"

lemma stack_in_load:
  "stack_in h q r s \<Longrightarrow> load_stack h (Some q) = Inr \<lparr>sc_size = lru_size s, sc_order = Some r\<rparr>"
  by (simp add: stack_in_def load_stack_eq)

lemma stack_in_read: "stack_in h q r s \<Longrightarrow> read_order h (Some q) i = arr_get (order s) i"
  by (simp add: stack_in_def read_order_def load_stack_eq)

lemma stack_in_write:
  "stack_in h q r s \<Longrightarrow> write_order h (Some q) i v
    = bindE (arr_set (order s) i v) (\<lambda>ys. Inr (upd h r (Order_Array ys)))"
  by (simp add: stack_in_def write_order_def load_stack_eq upd_def)

lemma stack_in_upd:
  "stack_in h q r s \<Longrightarrow> stack_in (upd h r (Order_Array ys)) q r (s\<lparr>order := ys\<rparr>)"
  by (auto simp: stack_in_def)

lemma init_order_mem_eq:
  "stack_in h q r s \<Longrightarrow> init_order_mem (Some q) sz i h
    = bindE (init_order_loop sz i (order s)) (\<lambda>ys. Inr (upd h r (Order_Array ys)))"
proof (induction sz i "order s" arbitrary: h s rule: init_order_loop.induct)
  case (1 sz i)
  have r: "cells h r = Some (Order_Array (order s))" using "1.prems" by (simp add: stack_in_def)
  show ?case
  proof (cases "i < sz")
    case True
    show ?thesis
    proof (cases "arr_set (order s) i i")
      case (Inl e)
      with True "1.prems" show ?thesis
        by (simp add: init_order_mem.simps[of _ sz i] init_order_loop.simps[of sz i] stack_in_write)
    next
      case (Inr ys)
      with True Inr "1.hyps"[OF True, of "s\<lparr>order := ys\<rparr>" "upd h r (Order_Array ys)"] "1.prems"
      show ?thesis
        by (simp add: init_order_mem.simps[of _ sz i] init_order_loop.simps[of sz i] stack_in_write stack_in_upd)
    qed
  next
    case False
    with r show ?thesis
      by (simp add: init_order_mem.simps[of _ sz i] init_order_loop.simps[of sz i] upd_same)
  qed
qed

lemma find_order_mem_eq:
  assumes "stack_in h q r s"
  shows "find_order_mem h (Some q) n i = search_loop (\<lambda>v. v = n) (order s) (lru_size s) i"
proof (induction "\<lambda>v. v = n" "order s" "lru_size s" i rule: search_loop.induct)
  case (1 i)
  then show ?case using assms
    by (cases "arr_get (order s) i")
      (simp_all add: find_order_mem.simps[of _ _ _ i] search_loop.simps[of _ _ _ i] stack_in_load stack_in_read)
qed

lemma shift_order_mem_eq:
  "stack_in h q r s \<Longrightarrow> shift_order_mem (Some q) i h
    = bindE (shift_loop (order s) i) (\<lambda>ys. Inr (upd h r (Order_Array ys)))"
proof (induction "order s" i arbitrary: h s rule: shift_loop.induct)
  case (1 i)
  have r: "cells h r = Some (Order_Array (order s))" using "1.prems" by (simp add: stack_in_def)
  show ?case
  proof (cases "i > 0")
    case False
    with r show ?thesis
      by (simp add: shift_order_mem.simps[of _ i] shift_loop.simps[of _ i] upd_same)
  next
    case True
    show ?thesis
    proof (cases "bindE (arr_get (order s) (i - 1)) (\<lambda>v. arr_set (order s) i v)")
      case (Inl e)
      with True "1.prems" show ?thesis
        by (cases "arr_get (order s) (i - 1)")
          (simp_all add: shift_order_mem.simps[of _ i] shift_loop.simps[of _ i] stack_in_read stack_in_write)
    next
      case (Inr ys)
      then obtain v where v: "arr_get (order s) (i - 1) = Inr v" "arr_set (order s) i v = Inr ys"
        by auto
      from True v "1.hyps"[OF True v(1), of "s\<lparr>order := ys\<rparr>" "upd h r (Order_Array ys)"] "1.prems"
      show ?thesis
        by (simp add: shift_order_mem.simps[of _ i] shift_loop.simps[of _ i] stack_in_read stack_in_write
            stack_in_upd)
    qed
  qed
qed

lemma lru_stack_get_lru_mem_eq:
  "stack_in h q r s \<Longrightarrow> lru_stack_get_lru_mem h (Some q) = lru_stack_get_lru s"
  by (simp add: lru_stack_get_lru_mem_def lru_stack_get_lru_def stack_in_load stack_in_read)

lemma lru_stack_set_mru_mem_eq:
  assumes "stack_in h q r s"
  shows "lru_stack_set_mru_mem h (Some q) n
    = bindE (lru_stack_set_mru s n) (\<lambda>s'. Inr (upd h r (Order_Array (order s'))))"
proof -
  have r: "cells h r = Some (Order_Array (order s))" using assms by (simp add: stack_in_def)
  show ?thesis
    unfolding lru_stack_set_mru_mem_def lru_stack_set_mru_def find_order_mem_eq[OF assms] bindE_assoc
    by (rule bindE_cong)
      (use assms r stack_in_write[OF stack_in_upd[OF assms]] in
        \<open>auto simp: shift_order_mem_eq upd_same bindE_assoc intro!: bindE_cong\<close>)
qed

subsection \<open>A set in memory\<close>

text \<open>The element \<open>idx\<close> of \<open>cache\<close>, at \<open>c\<close>, holds the pointers \<open>p\<close> to the blocks and \<open>q\<close> to the stack.\<close>

definition set_in :: "memory \<Rightarrow> nat \<Rightarrow> int \<Rightarrow> nat \<Rightarrow> nat \<Rightarrow> nat \<Rightarrow> cache_set_t \<Rightarrow> bool" where
  "set_in h c idx p q r cs \<longleftrightarrow>
     read_set h (Some c) idx = Inr \<lparr>cell_size = set_size cs, cell_stack = Some q, cell_blocks = Some p\<rparr>
     \<and> cells h p = Some (Block_Array (blocks cs)) \<and> stack_in h q r (stack cs)"

definition put_set_mem :: "memory \<Rightarrow> nat \<Rightarrow> nat \<Rightarrow> cache_set_t \<Rightarrow> memory" where
  "put_set_mem h p r cs = upd (upd h p (Block_Array (blocks cs))) r (Order_Array (order (stack cs)))"

lemma read_set_Inr: "read_set h (Some c) i = Inr cell \<longleftrightarrow>
    (\<exists>xs. cells h c = Some (Set_Array xs) \<and> arr_get xs i = Inr cell)"
  by (auto simp: read_set_def load_def split: option.splits mem_object.splits)

lemma set_in_upd:
  assumes "set_in h c idx p q r cs"
  shows "set_in (upd h p (Block_Array bs)) c idx p q r (cs\<lparr>blocks := bs\<rparr>)"
  using assms by (auto simp: set_in_def read_set_Inr stack_in_def)

lemma find_block_mem_eq:
  assumes "set_in h c idx p q r cs"
  shows "find_block_mem P h (Some c, idx) w i = search_loop P (blocks cs) w i"
proof (induction P "blocks cs" w i rule: search_loop.induct)
  case (1 P w i)
  then show ?case using assms
    by (cases "arr_get (blocks cs) i")
      (simp_all add: find_block_mem.simps[of _ _ _ w i] search_loop.simps[of _ _ w i] set_in_def read_block_eq)
qed

lemma set_mru_in:
  assumes "set_in h c idx p q r cs" and "set_ok n cs" and "0 \<le> w" "w < n"
  shows "lru_stack_set_mru_mem h (Some q) w = Inr (upd h r (Order_Array (to_front w (order (stack cs)))))"
  using assms by (simp add: set_in_def lru_stack_set_mru_mem_eq[of h q r "stack cs"] set_mru_way)

lemma write_way_in:
  assumes "set_in h c idx p q r cs" and "set_ok n cs" and "0 \<le> w" "w < n"
  shows "write_block h (Some p) w b = Inr (upd h p (Block_Array ((blocks cs)[nat w := b])))"
    and "read_block h (Some p) w = Inr (block_of cs w)"
  using assms by (simp_all add: set_in_def write_block_eq read_block_eq arr_set_def arr_get_def set_ok_def block_of_def)

text \<open>Writing a block and marking its way, as both branches of an access do.\<close>

lemma use_way_mem:
  assumes "set_in h c idx p q r cs" and "set_ok n cs" and "0 \<le> w" "w < n"
    and h1_def: "h1 = upd h p (Block_Array ((blocks cs)[nat w := b]))"
  shows "bindE (read_set h1 (Some c) idx) (\<lambda>cell. lru_stack_set_mru_mem h1 (cell_stack cell) w)
    = Inr (put_set_mem h p r (use_way cs w b))"
proof -
  let ?cs = "cs\<lparr>blocks := (blocks cs)[nat w := b]\<rparr>"
  have h1: "set_in h1 c idx p q r ?cs" unfolding h1_def by (rule set_in_upd[OF assms(1)])
  have "set_ok n ?cs" using assms(2) by (simp add: set_ok_def)
  from set_mru_in[OF h1 this assms(3,4)] h1 show ?thesis
    by (simp add: set_in_def put_set_mem_def use_way_def h1_def)
qed

lemma access_hit_mem_eq:
  assumes "set_in h c idx p q r cs" and "set_ok n cs" and "w < length (blocks cs)"
  shows "access_hit_mem g h (Some c, idx) (int w) at
    = Inr (g\<lparr>g_hits := g_hits g + 1\<rparr>, put_set_mem h p r (touched cs (int w) at))"
proof -
  have w: "int w < n" using assms(2,3) by (simp add: set_ok_def)
  note ops = write_way_in[OF assms(1,2) _ w] use_way_mem[OF assms(1,2) _ w refl]
  have "(blocks cs)[w := block_of cs (int w)] = blocks cs" by (simp add: block_of_def)
  then have same: "upd h p (Block_Array ((blocks cs)[w := block_of cs (int w)])) = h"
    using assms(1) by (simp add: set_in_def upd_same)
  have rs: "read_set h (Some c) idx
      = Inr \<lparr>cell_size = set_size cs, cell_stack = Some q, cell_blocks = Some p\<rparr>"
    using assms(1) by (simp add: set_in_def)
  show ?thesis
    using ops(1)[of "(block_of cs (int w))\<lparr>dirty := 1\<rparr>"] ops(2) rs
      ops(3)[of "(block_of cs (int w))\<lparr>dirty := 1\<rparr>"] ops(3)[of "block_of cs (int w)"] same
    by (auto simp: access_hit_mem_def touched_def Let_def)
qed

lemma choose_victim_mem_eq:
  assumes "set_in h c idx p q r cs" and "set_ok n cs" and "1 \<le> n"
    and "first_index (\<lambda>b. valid b = 0) (blocks cs) = None"
  shows "choose_victim_mem g h (Some c, idx) = Inr (fill_way cs,
    if evicts_dirty cs then g\<lparr>g_writebacks := g_writebacks g + 1\<rparr> else g)"
proof -
  have "lru_stack_get_lru (stack cs) = Inr (fill_way cs)"
    using assms set_ok_order_ne[OF assms(2,3)] by (simp add: set_ok_def fill_way_def lru_stack_get_lru_eq)
  then show ?thesis
    using assms write_way_in(2)[OF assms(1,2) fill_way_bounds[OF assms(2,3)]]
    by (simp add: choose_victim_mem_def set_in_def lru_stack_get_lru_mem_eq[of h q r "stack cs"] evicts_dirty_def)
qed

lemma fill_block_mem_eq:
  assumes "set_in h c idx p q r cs" and "set_ok n cs" and "1 \<le> n"
  shows "fill_block_mem g h (Some c, idx) (fill_way cs) t at
    = Inr (g, put_set_mem h p r (filled cs t at))"
proof -
  note w = fill_way_bounds[OF assms(2,3)]
  let ?b = "(block_of cs (fill_way cs))\<lparr>tag := ucast t, valid := 1, dirty := if at = MEMWRITE then 1 else 0\<rparr>"
  have rs: "read_set h (Some c) idx
      = Inr \<lparr>cell_size = set_size cs, cell_stack = Some q, cell_blocks = Some p\<rparr>"
    using assms(1) by (simp add: set_in_def)
  show ?thesis
    using write_way_in[OF assms(1,2) w] use_way_mem[OF assms(1,2) w refl, of ?b] rs
    by (auto simp: fill_block_mem_def filled_def)
qed

subsection \<open>The memory of a cache\<close>

text \<open>
  On top of the heap \<open>h\<close>, in the order in which they are allocated: the array \<open>cache\<close>, then for
  each set its blocks, its stack and the array \<open>order\<close> of the stack.
\<close>

definition set_object :: "nat \<Rightarrow> cache_set_t list \<Rightarrow> nat \<Rightarrow> mem_object" where
  "set_object k vs d =
     (let v = vs ! (d div 3) in
      if d mod 3 = 0 then Block_Array (blocks v)
      else if d mod 3 = 1
      then Stack_Struct \<lparr>sc_size = lru_size (stack v), sc_order = Some (k + d + 2)\<rparr>
      else Order_Array (order (stack v)))"

definition memory_of :: "memory \<Rightarrow> set_cell list \<Rightarrow> cache_set_t list \<Rightarrow> memory" where
  "memory_of h cls vs = h\<lparr>
     cells := (\<lambda>a. if a = brk h then Some (Set_Array cls)
       else if brk h < a \<and> a \<le> brk h + 3 * length vs then Some (set_object (brk h) vs (a - brk h - 1))
       else cells h a),
     brk := brk h + 3 * length vs + 1, avail := avail h - (3 * length vs + 1)\<rparr>"

definition cell_of :: "nat \<Rightarrow> int \<Rightarrow> nat \<Rightarrow> set_cell" where
  "cell_of k w i = \<lparr>cell_size = w, cell_stack = Some (k + 3 * i + 2), cell_blocks = Some (k + 3 * i + 1)\<rparr>"

definition cells_of :: "nat \<Rightarrow> cache_set_t list \<Rightarrow> set_cell list" where
  "cells_of k vs = map (\<lambda>i. cell_of k (set_size (vs ! i)) i) [0..<length vs]"

lemma memory_of_fields [simp]:
  "cells (memory_of h cls vs) (brk h) = Some (Set_Array cls)"
  "brk (memory_of h cls vs) = brk h + 3 * length vs + 1"
  "avail (memory_of h cls vs) = avail h - (3 * length vs + 1)"
  by (simp_all add: memory_of_def)

lemma memory_of_set:
  assumes "i < length vs"
  shows "cells (memory_of h cls vs) (brk h + 3 * i + 1) = Some (Block_Array (blocks (vs ! i)))"
    and "stack_in (memory_of h cls vs) (brk h + 3 * i + 2) (brk h + 3 * i + 3) (stack (vs ! i))"
proof -
  have d: "(3 * i + 1) div 3 = i" "(3 * i + 1) mod 3 = 1" "(3 * i + 2) div 3 = i" "(3 * i + 2) mod 3 = 2"
    by presburger+
  show "cells (memory_of h cls vs) (brk h + 3 * i + 1) = Some (Block_Array (blocks (vs ! i)))"
    using assms by (simp add: memory_of_def set_object_def)
  show "stack_in (memory_of h cls vs) (brk h + 3 * i + 2) (brk h + 3 * i + 3) (stack (vs ! i))"
    using assms d by (simp add: stack_in_def memory_of_def set_object_def)
qed

text \<open>An address of the cache is the array or one of the three objects of a set.\<close>

lemma address_cases:
  fixes a k :: nat
  obtains "a \<le> k" | j where "a = k + 3 * j + 1" | j where "a = k + 3 * j + 2" | j where "a = k + 3 * j + 3"
proof -
  have "a \<le> k \<or> (\<exists>j. a = k + 3 * j + 1) \<or> (\<exists>j. a = k + 3 * j + 2) \<or> (\<exists>j. a = k + 3 * j + 3)"
    by presburger
  then show thesis using that by blast
qed

lemma cells_memory_of:
  "j < length vs \<Longrightarrow> cells (memory_of h cls vs) (brk h + 3 * j + 2)
     = Some (Stack_Struct \<lparr>sc_size = lru_size (stack (vs ! j)), sc_order = Some (brk h + 3 * j + 3)\<rparr>)"
  "j < length vs \<Longrightarrow> cells (memory_of h cls vs) (brk h + 3 * j + 3) = Some (Order_Array (order (stack (vs ! j))))"
  "a < brk h \<Longrightarrow> cells (memory_of h cls vs) a = cells h a"
  "length vs \<le> j \<Longrightarrow> cells (memory_of h cls vs) (brk h + 3 * j + 1) = cells h (brk h + 3 * j + 1)"
  "length vs \<le> j \<Longrightarrow> cells (memory_of h cls vs) (brk h + 3 * j + 2) = cells h (brk h + 3 * j + 2)"
  "length vs \<le> j \<Longrightarrow> cells (memory_of h cls vs) (brk h + 3 * j + 3) = cells h (brk h + 3 * j + 3)"
  using memory_of_set[of j vs h cls] by (auto simp: stack_in_def) (auto simp: memory_of_def)

lemmas memory_of_cells = memory_of_set(1)[simplified] cells_memory_of[simplified]

text \<open>Two memories on top of \<open>h\<close> are equal if they agree on the array and on each object of a set.\<close>

lemma memory_eqI:
  assumes "brk h1 = brk h2" "avail h1 = avail h2" "heap.more h1 = heap.more h2"
    and "\<And>a. a \<le> k \<Longrightarrow> cells h1 a = cells h2 a"
    and "\<And>j m. m \<in> {1, 2, 3} \<Longrightarrow> cells h1 (k + 3 * j + m) = cells h2 (k + 3 * j + m)"
  shows "h1 = (h2 :: memory)"
proof -
  have "cells h1 a = cells h2 a" for a
    by (rule address_cases[of a k]) (simp_all only: assms(4,5) insert_iff simp_thms)
  then show ?thesis using assms(1,2) by (intro heap.equality) auto
qed

lemma put_set_memory_of:
  assumes i: "i < length vs" and sz: "lru_size (stack v) = lru_size (stack (vs ! i))"
  shows "put_set_mem (memory_of h cls vs) (brk h + 3 * i + 1) (brk h + 3 * i + 3) v
    = memory_of h cls (vs[i := v])" (is "?l = ?r")
proof (rule memory_eqI[where k = "brk h"])
  fix j m :: nat assume "m \<in> {1, 2, 3}"
  then consider "m = 1" | "m = 2" | "m = 3" by auto
  then show "cells ?l (brk h + 3 * j + m) = cells ?r (brk h + 3 * j + m)"
  proof cases
    case 1
    have "brk h + 3 * j + 1 \<noteq> brk h + 3 * i + 3" by presburger
    then show ?thesis using i 1 by (cases "j < length vs") (auto simp: put_set_mem_def memory_of_cells nth_list_update)
  next
    case 2
    have "brk h + 3 * j + 2 \<noteq> brk h + 3 * i + 3" "brk h + 3 * j + 2 \<noteq> brk h + 3 * i + 1" by presburger+
    then show ?thesis using i 2 sz by (cases "j < length vs") (auto simp: put_set_mem_def memory_of_cells nth_list_update)
  next
    case 3
    have "brk h + 3 * j + 3 \<noteq> brk h + 3 * i + 1" by presburger
    then show ?thesis using i 3 by (cases "j < length vs") (auto simp: put_set_mem_def memory_of_cells nth_list_update)
  qed
qed (use i in \<open>auto simp: put_set_mem_def memory_of_def\<close>)

end
