(* ===== verification/Cache_Memory_Init.thy ===== *)
theory Cache_Memory_Init
  imports Cache_Memory_Refine
begin

unbundle bit_operations_syntax

text \<open>
  The cache simulator in memory, continued: one access and a trace on the memory of a cache, its
  initialization, set by set, with enough memory and without, and the way it is freed.
\<close>

subsection \<open>One access and a trace\<close>

definition globals_of :: "cachesim \<Rightarrow> nat \<Rightarrow> cache_globals" where
  "globals_of s k = \<lparr>g_accesses = accesses s, g_hits = hits s, g_misses = misses s,
     g_writebacks = writebacks s, g_cache = Some k, g_block_size = block_size s,
     g_cache_size = cache_size s, g_ways = ways s, g_num_sets = num_sets s,
     g_num_offset_bits = num_offset_bits s, g_num_index_bits = num_index_bits s\<rparr>"

definition memory_state :: "memory \<Rightarrow> cachesim \<Rightarrow> cache_globals \<times> memory" where
  "memory_state h s = (globals_of s (brk h), memory_of h (cells_of (brk h) (cache s)) (cache s))"

lemma cells_of_put:
  "set_size v = set_size (vs ! i) \<Longrightarrow> cells_of k (vs[i := v]) = cells_of k vs"
  by (cases "i < length vs") (auto simp: cells_of_def nth_list_update)

lemma set_in_memory_of:
  assumes "i < length vs"
  shows "set_in (memory_of h (cells_of (brk h) vs) vs) (brk h) (int i)
    (brk h + 3 * i + 1) (brk h + 3 * i + 2) (brk h + 3 * i + 3) (vs ! i)"
  using memory_of_set[OF assms, of h "cells_of (brk h) vs"] assms
  by (simp add: set_in_def read_set_eq cells_of_def cell_of_def)

lemma put_memory_state:
  assumes "i < length (cache s)" and "lru_size (stack v) = lru_size (stack (cache s ! i))"
    and "set_size v = set_size (cache s ! i)"
  shows "put_set_mem (memory_of h (cells_of (brk h) (cache s)) (cache s)) (brk h + 3 * i + 1) (brk h + 3 * i + 3) v
    = memory_of h (cells_of (brk h) ((cache s)[i := v])) ((cache s)[i := v])"
  using assms by (simp only: put_set_memory_of cells_of_put)

lemma use_way_sizes [simp]:
  "lru_size (stack (use_way cs w b)) = lru_size (stack cs)" "set_size (use_way cs w b) = set_size cs"
  by (simp_all add: use_way_def)

lemma touched_filled_sizes [simp]:
  "lru_size (stack (touched cs w at)) = lru_size (stack cs)" "set_size (touched cs w at) = set_size cs"
  "lru_size (stack (filled cs t at)) = lru_size (stack cs)" "set_size (filled cs t at) = set_size cs"
  by (simp_all add: touched_def filled_def)

lemma globals_of_counters:
  "globals_of (s\<lparr>accesses := x\<rparr>) k = (globals_of s k)\<lparr>g_accesses := x\<rparr>"
  "globals_of (s\<lparr>hits := x\<rparr>) k = (globals_of s k)\<lparr>g_hits := x\<rparr>"
  "globals_of (s\<lparr>misses := x\<rparr>) k = (globals_of s k)\<lparr>g_misses := x\<rparr>"
  "globals_of (s\<lparr>writebacks := x\<rparr>) k = (globals_of s k)\<lparr>g_writebacks := x\<rparr>"
  "globals_of (s\<lparr>cache := c\<rparr>) k = globals_of s k"
  by (simp_all add: globals_of_def)

lemma cachesim_access_mem_result:
  assumes "sim_ok s"
  shows "(case memory_state h s of (g, m) \<Rightarrow> cachesim_access_mem g m pa at)
    = Inr (memory_state h (access_result s pa at))"
proof -
  define ba where "ba = block_addr_of s pa"
  define i where "i = nat (set_index_of s ba)"
  define t where "t = tag_of s ba"
  define cs where "cs = cache s ! i"
  define m where "m = memory_of h (cells_of (brk h) (cache s)) (cache s)"
  have idx: "set_index_of s ba = int i" "i < length (cache s)"
    using set_index_in_bounds[OF assms] by (simp_all add: i_def nat_less_iff)
  have cs: "set_ok (ways s) cs" using set_ok_nth[OF assms] by (simp add: cs_def i_def)
  have w: "1 \<le> ways s" "ways s = int (length (blocks cs))"
    using assms cs by (simp_all add: sim_ok_def set_ok_def)
  note si = set_in_memory_of[OF idx(2), of h, folded m_def cs_def]
  have put: "put_set_mem m (brk h + 3 * i + 1) (brk h + 3 * i + 3) v
      = memory_of h (cells_of (brk h) ((cache s)[i := v])) ((cache s)[i := v])"
    if "lru_size (stack v) = lru_size (stack cs)" "set_size v = set_size cs" for v
    using put_memory_state[OF idx(2)] that by (simp add: m_def cs_def)
  have split: "drop_bit (nat (num_offset_bits s)) pa = ba"
    "sint (ucast (ba AND word_of_int (2 ^ nat (num_index_bits s) - 1)) :: u32) = int i"
    "drop_bit (nat (num_index_bits s)) ba = t"
    using idx(1) by (simp_all add: ba_def block_addr_of_def set_index_of_def t_def tag_of_def)
  have find: "find_block_mem P m (Some (brk h), int i) (ways s) 0
      = Inr (case first_index P (blocks cs) of None \<Rightarrow> -1 | Some j \<Rightarrow> int j)" for P
    using w(2) by (simp add: find_block_mem_eq[OF si] search_loop_eq split: option.split)
  show ?thesis
  proof (cases "first_index (block_matches t) (blocks cs)")
    case (Some j)
    then show ?thesis
      using split find put access_hit_mem_eq[OF si cs conjunct1[OF first_index_Some[OF Some]]]
      by (simp add: cachesim_access_mem_def memory_state_def access_result_def Let_def globals_of_def
          del: drop_bit_drop_bit flip: ba_def i_def t_def cs_def m_def)
  next
    case None
    then show ?thesis
      using split find put choose_victim_mem_eq[OF si cs w(1)] fill_block_mem_eq[OF si cs w(1)]
      by (cases "first_index (\<lambda>b. valid b = 0) (blocks cs)")
        (simp_all add: cachesim_access_mem_def memory_state_def access_result_def Let_def globals_of_def
          fill_way_def evicts_dirty_def del: drop_bit_drop_bit flip: ba_def i_def t_def cs_def m_def)
  qed
qed

lemma trace_loop_mem_eq:
  "sim_ok s \<Longrightarrow> (case memory_state h s of (g, m) \<Rightarrow> trace_loop_mem unread (Some tr) g m)
    = bindE (trace_loop unread tr s) (\<lambda>s'. Inr (memory_state h s'))"
proof (induction unread tr s rule: trace_loop.induct)
  case (1 unread tr s)
  obtain g m where gm: "memory_state h s = (g, m)" by fastforce
  show ?case
  proof (cases "eof tr")
    case True
    with gm show ?thesis
      by (simp add: trace_loop.simps[of unread tr] trace_loop_mem.simps[of unread "Some tr"] next_line_def next_line_mem_def)
  next
    case False
    obtain u tr' where l: "(case rest tr of [] \<Rightarrow> (unread, tr\<lparr>eof := True\<rparr>)
        | (t, address, instr) # ls \<Rightarrow> ((t, address), \<lparr>rest = ls, eof = (ls = [])\<rparr>)) = (u, tr')"
      by (rule prod.exhaust)
    obtain t address where u: "u = (t, address)" by (rule prod.exhaust)
    let ?s = "access_result s address t"
    obtain g' m' where gm': "memory_state h ?s = (g', m')" by fastforce
    have n: "next_line unread tr s = Inr (True, tr', ?s)"
      using False l u "1.prems" by (simp add: next_line_def cachesim_access_eq)
    moreover have "next_line_mem unread (Some tr) g m = Inr (True, Some tr', g', m')"
      using False l u cachesim_access_mem_result[OF "1.prems", where pa = address and at = t and h = h] gm gm'
      by (simp add: next_line_mem_def)
    ultimately show ?thesis
      using "1.IH"[OF n refl refl] sim_ok_access[OF "1.prems"] gm gm'
      by (simp add: trace_loop.simps[of unread tr] trace_loop_mem.simps[of unread "Some tr"])
  qed
qed

subsection \<open>Cleaning up\<close>

text \<open>The memory once the objects of the first \<open>i\<close> sets above \<open>k\<close> are freed.\<close>

definition freed :: "nat \<Rightarrow> nat \<Rightarrow> memory \<Rightarrow> memory" where
  "freed k i m = m\<lparr>cells := (\<lambda>a. if k < a \<and> a \<le> k + 3 * i then None else cells m a), avail := avail m + 3 * i\<rparr>"

lemma freed_0 [simp]: "freed k 0 m = m"
  unfolding freed_def by (rule heap.equality) (auto simp: fun_eq_iff)

lemma freed_Suc:
  "freed k (Suc i) m = (freed k i m)\<lparr>
     cells := (cells (freed k i m))(k + 3 * i + 1 := None, k + 3 * i + 3 := None, k + 3 * i + 2 := None),
     avail := avail m + 3 * i + 3\<rparr>"
proof -
  have "k < a \<and> a \<le> k + 3 * Suc i \<longleftrightarrow> k < a \<and> a \<le> k + 3 * i \<or> a = k + 3 * i + 1 \<or> a = k + 3 * i + 2 \<or> a = k + 3 * i + 3"
    for a by presburger
  then show ?thesis by (auto simp: freed_def fun_eq_iff)
qed

lemma cleanup_set:
  assumes i: "i < length vs" and m: "m = memory_of h (cells_of (brk h) vs) vs"
  shows "cleanup_loop (Some (brk h)) (int n) (int i) (freed (brk h) i m)
    = (if i < n then cleanup_loop (Some (brk h)) (int n) (int (Suc i)) (freed (brk h) (Suc i) m)
       else Inr (freed (brk h) i m))"
proof -
  let ?f = "freed (brk h) i m" and ?a = "brk h + 3 * i"
  let ?cell = "cell_of (brk h) (set_size (vs ! i)) i"
  have c: "cells ?f (brk h) = Some (Set_Array (cells_of (brk h) vs))"
    "cells ?f (?a + 1) = Some (Block_Array (blocks (vs ! i)))"
    "cells ?f (?a + 2) = Some (Stack_Struct \<lparr>sc_size = lru_size (stack (vs ! i)), sc_order = Some (?a + 3)\<rparr>)"
    "cells ?f (?a + 3) = Some (Order_Array (order (stack (vs ! i))))"
    using i memory_of_set(1)[OF i, of h "cells_of (brk h) vs"] cells_memory_of(1,2)[OF i, of h "cells_of (brk h) vs"]
    by (simp_all add: freed_def m)
  have set: "arr_get (cells_of (brk h) vs) (int i) = Inr ?cell"
    using i by (simp add: cells_of_def)
  define h1 where "h1 = ?f\<lparr>cells := (cells ?f)(?a + 1 := None), avail := Suc (avail ?f)\<rparr>"
  have c1: "cells h1 (brk h) = cells ?f (brk h)" "cells h1 (?a + 2) = cells ?f (?a + 2)"
    "cells h1 (?a + 3) = cells ?f (?a + 3)" by (simp_all add: h1_def)
  have "free_obj ?f (cell_blocks ?cell) = Inr h1"
    using c by (simp add: free_obj_def heap_free_def cell_of_def h1_def)
  moreover have "lru_stack_cleanup h1 (cell_stack ?cell) = Inr (freed (brk h) (Suc i) m)"
    using c(3,4) c1 unfolding freed_Suc
    by (simp add: lru_stack_cleanup_def load_stack_eq cell_of_def free_obj_def heap_free_def h1_def)
      (simp add: freed_def)
  ultimately show ?thesis
    using c(1) c1(1) set by (simp add: cleanup_loop.simps[of _ "int n" "int i"] read_set_eq add.commute)
qed

lemma cleanup_loop_eq:
  assumes "m = memory_of h (cells_of (brk h) vs) vs"
  shows "i \<le> length vs \<Longrightarrow> cleanup_loop (Some (brk h)) (int (length vs)) (int i) (freed (brk h) i m)
    = Inr (freed (brk h) (length vs) m)"
proof (induction "length vs - i" arbitrary: i)
  case 0
  then show ?case by (simp add: cleanup_loop.simps)
next
  case (Suc d)
  then show ?case using cleanup_set[OF _ assms, of i "length vs"] Suc.hyps(1)[of "Suc i"] by simp
qed

lemma cachesim_cleanup_eq:
  assumes "sim_ok s" and "heap_ok h" and "3 * length (cache s) + 1 \<le> avail h"
  shows "(case memory_state h s of (g, m) \<Rightarrow> cachesim_cleanup g m)
    = Inr (h\<lparr>brk := brk h + 3 * length (cache s) + 1\<rparr>)"
proof -
  let ?m = "memory_of h (cells_of (brk h) (cache s)) (cache s)" and ?n = "length (cache s)"
  have "cleanup_loop (Some (brk h)) (int ?n) 0 ?m = Inr (freed (brk h) ?n ?m)"
    using cleanup_loop_eq[OF refl, of 0 "cache s"] by simp
  moreover have "free_obj (freed (brk h) ?n ?m) (Some (brk h)) = Inr (h\<lparr>brk := brk h + 3 * ?n + 1\<rparr>)"
  proof -
    have "cells h a = None" if "brk h \<le> a" for a using assms(2) that by (auto simp: heap_ok_def not_le[symmetric])
    then show ?thesis
      using assms(3) by (auto simp: free_obj_def heap_free_def freed_def memory_of_def fun_eq_iff)
  qed
  ultimately show ?thesis
    using assms(1) by (simp add: memory_state_def cachesim_cleanup_def globals_of_def sim_ok_def)
qed

subsection \<open>Initialization\<close>

text \<open>The heap after one more allocation.\<close>

definition grow :: "memory \<Rightarrow> mem_object \<Rightarrow> memory" where
  "grow h obj = h\<lparr>cells := (cells h)(brk h \<mapsto> obj), brk := Suc (brk h), avail := avail h - 1\<rparr>"

lemma malloc_grow: "0 \<le> n \<Longrightarrow> 0 < avail h \<Longrightarrow> malloc_obj h n obj = (Some (brk h), grow h obj)"
  by (simp add: malloc_obj_def heap_alloc_def grow_def)

lemma malloc_full: "avail h = 0 \<Longrightarrow> malloc_obj h n obj = (None, h)"
  by (simp add: malloc_obj_def heap_alloc_def)

lemma grow_simps [simp]:
  "brk (grow h obj) = Suc (brk h)" "avail (grow h obj) = avail h - 1"
  "cells (grow h obj) = (cells h)(brk h \<mapsto> obj)"
  by (simp_all add: grow_def)

lemma upd_grow:
  "upd (grow h x) (brk h) y = grow h y"
  "a \<noteq> brk h \<Longrightarrow> upd (grow h x) a y = grow (upd h a y) x"
  by (auto simp: upd_def grow_def fun_upd_twist)

lemma init_lru_stack_mem_eq:
  assumes "0 \<le> sz" and "2 \<le> avail h" and "init_lru_stack (malloc_array junk sz) sz = Inr s"
  shows "init_lru_stack_mem junk_st junk sz h
    = Inr (Some (brk h), grow (grow h (Stack_Struct \<lparr>sc_size = sz, sc_order = Some (Suc (brk h))\<rparr>)) (Order_Array (order s)))"
proof -
  let ?h1 = "grow h (Stack_Struct junk_st)" and ?st = "Stack_Struct (junk_st\<lparr>sc_size := sz\<rparr>)"
  let ?o = "Order_Array (malloc_array junk sz)"
  let ?c = "\<lparr>sc_size = sz, sc_order = Some (Suc (brk h))\<rparr>"
  have loop: "init_order_loop sz 0 (malloc_array junk sz) = Inr (order s)"
    using assms(3) by (auto simp: init_lru_stack_def)
  have "stack_in (grow (grow h (Stack_Struct ?c)) ?o) (brk h) (Suc (brk h))
      \<lparr>lru_size = sz, order = malloc_array junk sz\<rparr>"
    by (simp add: stack_in_def)
  from init_order_mem_eq[OF this, of sz 0] loop
  have "init_order_mem (Some (brk h)) sz 0 (grow (grow h (Stack_Struct ?c)) ?o)
      = Inr (grow (grow h (Stack_Struct ?c)) (Order_Array (order s)))"
    by (simp add: upd_grow(1)[of "grow h x" for x, simplified])
  then show ?thesis
    using assms(1,2)
    by (cases junk_st) (simp add: init_lru_stack_mem_def malloc_grow load_stack_eq store_upd upd_grow del: store_Some)
qed

lemma clear_blocks_mem_eq:
  "read_set h (Some c) i = Inr cell \<Longrightarrow> cell_blocks cell = Some p \<Longrightarrow> cells h p = Some (Block_Array bs) \<Longrightarrow>
    clear_blocks_mem (Some c) i w j h
      = bindE (clear_blocks_loop w j bs) (\<lambda>ys. Inr (upd h p (Block_Array ys)))"
proof (induction w j bs arbitrary: h rule: clear_blocks_loop.induct)
  case (1 w j bs)
  show ?case
  proof (cases "j < w")
    case False
    with "1.prems"(3) show ?thesis
      by (simp add: clear_blocks_mem.simps[of _ _ w j] clear_blocks_loop.simps[of w j] upd_same)
  next
    case True
    let ?f = "\<lambda>b :: cache_block_t. b\<lparr>tag := 0, valid := 0, dirty := 0\<rparr>"
    show ?thesis
    proof (cases "bindE (arr_get bs j) (\<lambda>b. arr_set bs j (?f b))")
      case (Inl e)
      with True "1.prems" show ?thesis
        by (cases "arr_get bs j")
          (simp_all add: clear_blocks_mem.simps[of _ _ w j] clear_blocks_loop.simps[of w j] read_block_eq write_block_eq)
    next
      case (Inr ys)
      then obtain b where b: "arr_get bs j = Inr b" "arr_set bs j (?f b) = Inr ys" by auto
      have "p \<noteq> c" using "1.prems" by (auto simp: read_set_Inr)
      then have rs: "read_set (upd h p (Block_Array ys)) (Some c) i = Inr cell"
        using "1.prems"(1) by (simp add: read_set_Inr)
      show ?thesis
        using True b "1.prems" "1.IH"[OF True b rs "1.prems"(2)]
        by (simp add: clear_blocks_mem.simps[of _ _ w j] clear_blocks_loop.simps[of w j] read_block_eq write_block_eq)
    qed
  qed
qed

text \<open>The memory grows by the three objects of a set.\<close>

lemma memory_of_snoc:
  assumes "i = length vs" and "3 * Suc i + 1 \<le> avail h"
  shows "grow (grow (grow (memory_of h cls vs) (Block_Array (blocks v)))
      (Stack_Struct \<lparr>sc_size = lru_size (stack v), sc_order = Some (brk h + 3 * i + 3)\<rparr>))
      (Order_Array (order (stack v)))
    = memory_of h cls (vs @ [v])" (is "?l = ?r")
proof (rule memory_eqI[where k = "brk h"])
  fix a assume "a \<le> brk h"
  then show "cells ?l a = cells ?r a" using assms(1) by (auto simp: memory_of_def)
next
  fix j m :: nat assume "m \<in> {1, 2, 3}"
  then have m: "0 < m" "m \<le> 3" by auto
  consider "j < i" | "j = i" | "i < j" by linarith
  then show "cells ?l (brk h + 3 * j + m) = cells ?r (brk h + 3 * j + m)"
  proof cases
    case 1
    have "set_object (brk h) (vs @ [v]) d = set_object (brk h) vs d" if "d < 3 * length vs" for d
      using that by (simp add: set_object_def Let_def nth_append less_mult_imp_div_less mult.commute)
    then show ?thesis using 1 m assms(1) by (auto simp: memory_of_def)
  next
    case 2
    then show ?thesis
      using \<open>m \<in> {1, 2, 3}\<close> assms(1) memory_of_set(1)[of i "vs @ [v]" h cls]
        cells_memory_of(1,2)[of i "vs @ [v]" h cls] by (auto simp: numeral_3_eq_3)
  next
    case 3
    then show ?thesis using m assms(1) by (auto simp: memory_of_def)
  qed
qed (use assms in \<open>auto simp: memory_of_def\<close>)

lemma upd_memory_of: "upd (memory_of h cls vs) (brk h) (Set_Array cls') = memory_of h cls' vs"
  by (auto simp: upd_def memory_of_def fun_eq_iff)

lemma init_set_mem_eq:
  assumes i: "i = length vs" "i < length cls" and w: "0 \<le> w" and room: "3 * Suc i + 1 \<le> avail h"
    and v: "init_set (junk_data jk) w (int i) = Inr v"
  shows "init_set_mem jk (Some (brk h)) w (int i) (memory_of h cls vs)
    = Inr (memory_of h (cls[i := cell_of (brk h) w i]) (vs @ [v]))"
proof -
  let ?raw = "malloc_array (junk_block (junk_data jk) (int i)) w"
  let ?m = "\<lambda>cell. memory_of h (cls[i := cell]) vs" and ?b = "brk h + 3 * i + 1"
  let ?c1 = "(cls ! i)\<lparr>cell_size := w\<rparr>" and ?S = "Stack_Struct \<lparr>sc_size = w, sc_order = Some (Suc (Suc ?b))\<rparr>"
  let ?c2 = "?c1\<lparr>cell_blocks := Some ?b\<rparr>" and ?c3 = "cell_of (brk h) w i"
  have v': "init_lru_stack (malloc_array (junk_order (junk_data jk) (int i)) w) w = Inr (stack v)"
    "clear_blocks_loop w 0 ?raw = Inr (blocks v)"
    using v by (auto simp: init_set_def)
  let ?O = "Order_Array (order (stack v))"
  have "lru_size (stack v) = w" using v'(1) by (cases "stack v") (auto simp: init_lru_stack_def)
  then have snoc: "grow (grow (grow (?m ?c3) (Block_Array (blocks v))) ?S) ?O = memory_of h (cls[i := ?c3]) (vs @ [v])"
    using memory_of_snoc[OF i(1) room, of "cls[i := ?c3]" v] by (simp add: numeral_3_eq_3)
  have brk_m: "brk (?m cell) = ?b" "2 < avail (?m cell)" for cell using i room by simp_all
  note set = update_set_eq[where c = "brk h" and i = i]
  have 1: "update_set (memory_of h cls vs) (Some (brk h)) (int i) (\<lambda>cell. cell\<lparr>cell_size := w\<rparr>) = Inr (?m ?c1)"
    using i(2) by (simp add: set upd_memory_of)
  have 2: "malloc_obj (?m ?c1) w (Block_Array ?raw) = (Some ?b, grow (?m ?c1) (Block_Array ?raw))"
    using w brk_m[of ?c1] by (simp add: malloc_grow del: memory_of_fields)
  have 3: "update_set (grow (?m ?c1) (Block_Array ?raw)) (Some (brk h)) (int i) (\<lambda>cell. cell\<lparr>cell_blocks := Some ?b\<rparr>)
      = Inr (grow (?m ?c2) (Block_Array ?raw))"
    using i(2) by (simp add: set upd_grow upd_memory_of)
  have 4: "init_lru_stack_mem (junk_stack jk (int i)) (junk_order (junk_data jk) (int i)) w
        (grow (?m ?c2) (Block_Array ?raw))
      = Inr (Some (Suc ?b), grow (grow (grow (?m ?c2) (Block_Array ?raw)) ?S) ?O)"
    using brk_m[of ?c2] by (subst init_lru_stack_mem_eq[OF w _ v'(1)]) (simp_all del: memory_of_fields)
  have c3: "?c2\<lparr>cell_stack := Some (Suc ?b)\<rparr> = ?c3" by (simp add: cell_of_def)
  have 5: "update_set (grow (grow (grow (?m ?c2) (Block_Array ?raw)) ?S) ?O) (Some (brk h)) (int i)
        (\<lambda>cell. cell\<lparr>cell_stack := Some (Suc ?b)\<rparr>)
      = Inr (grow (grow (grow (?m ?c3) (Block_Array ?raw)) ?S) ?O)"
    using i(2) c3 by (simp add: set upd_grow upd_memory_of)
  have "clear_blocks_mem (Some (brk h)) (int i) w 0 (grow (grow (grow (?m ?c3) (Block_Array ?raw)) ?S) ?O)
      = Inr (upd (grow (grow (grow (?m ?c3) (Block_Array ?raw)) ?S) ?O) ?b (Block_Array (blocks v)))"
    using i v'(2) by (subst clear_blocks_mem_eq[where cell = ?c3 and p = ?b and bs = ?raw])
      (simp_all add: read_set_eq cell_of_def)
  also have "\<dots> = Inr (grow (grow (grow (?m ?c3) (Block_Array (blocks v))) ?S) ?O)"
    using brk_m[of ?c3] by (simp add: upd_grow del: memory_of_fields)
  finally show ?thesis using snoc 1 2 3 4 5 by (simp add: init_set_mem_def del: memory_of_fields)
qed

text \<open>
  All sets. The loop over values builds the list from its end, the loop in memory from its
  start: \<open>vs\<close> are the sets that are done.
\<close>

lemma init_sets_mem_eq:
  assumes w: "0 \<le> w" and n: "n = length cls" and room: "3 * n + 1 \<le> avail h"
  shows "init_sets_loop (junk_data jk) w (int n) (int i) = Inr us \<Longrightarrow> length vs = i \<Longrightarrow> i \<le> n \<Longrightarrow>
    init_sets_mem jk (Some (brk h)) w (int n) (int i) (memory_of h (take i (map (cell_of (brk h) w) [0..<n]) @ drop i cls) vs)
    = Inr (memory_of h (map (cell_of (brk h) w) [0..<n]) (vs @ us))"
proof (induction "n - i" arbitrary: i us vs)
  case 0
  then have "i = n" by simp
  moreover from this 0 have "us = []" by (subst (asm) init_sets_loop.simps) simp
  ultimately show ?case using n by (simp add: init_sets_mem.simps)
next
  case (Suc d)
  then have i: "i < n" by simp
  let ?cs = "map (cell_of (brk h) w) [0..<n]" and ?S = "int i + 1"
  obtain v us' where v: "init_set (junk_data jk) w (int i) = Inr v"
    "init_sets_loop (junk_data jk) w (int n) (int (Suc i)) = Inr us'" "us = v # us'"
    using Suc.prems(1) i by (auto simp: init_sets_loop.simps[of _ _ "int n" "int i"] add.commute)
  have cells: "(take i ?cs @ drop i cls)[i := cell_of (brk h) w i] = take (Suc i) ?cs @ drop (Suc i) cls"
    using i n by (simp add: list_update_append take_Suc_conv_app_nth flip: Cons_nth_drop_Suc)
  have room': "3 * Suc i + 1 \<le> avail h" using i room by simp
  have "init_set_mem jk (Some (brk h)) w (int i) (memory_of h (take i ?cs @ drop i cls) vs)
      = Inr (memory_of h (take (Suc i) ?cs @ drop (Suc i) cls) (vs @ [v]))"
    using init_set_mem_eq[OF _ _ w room' v(1), of vs "take i ?cs @ drop i cls"] cells i n Suc.prems(2) by simp
  moreover have "init_sets_mem jk (Some (brk h)) w (int n) (int (Suc i))
        (memory_of h (take (Suc i) ?cs @ drop (Suc i) cls) (vs @ [v]))
      = Inr (memory_of h ?cs ((vs @ [v]) @ us'))"
    by (rule Suc.hyps(1)) (use Suc.hyps(2) Suc.prems v(2) i in auto)
  ultimately show ?case
    using i v(3) by (simp add: init_sets_mem.simps[of _ _ _ "int n" "int i"] add.commute)
qed

lemma init_sets_sizes: "init_sets_loop jk w n i = Inr vs \<Longrightarrow> \<forall>v \<in> set vs. set_size v = w"
proof (induction "nat (n - i)" arbitrary: i vs)
  case 0
  then show ?case by (simp add: init_sets_loop.simps[of _ _ n])
next
  case (Suc d)
  then have "i < n" "d = nat (n - (i + 1))" by linarith+
  moreover obtain v us where "init_set jk w i = Inr v" "init_sets_loop jk w n (i + 1) = Inr us" "vs = v # us"
    using Suc.prems \<open>i < n\<close> by (auto simp: init_sets_loop.simps[of _ _ n i])
  ultimately show ?case using Suc.hyps(1)[of "i + 1" us] by (auto simp: init_set_def)
qed

text \<open>The number of sets for these sizes, and of the objects that are allocated.\<close>

definition sets_for :: "int \<Rightarrow> int \<Rightarrow> int \<Rightarrow> nat" where
  "sets_for bsize csize w = nat (csize sdiv (bsize * w))"

definition objects_for :: "int \<Rightarrow> int \<Rightarrow> int \<Rightarrow> nat" where
  "objects_for bsize csize w = 3 * sets_for bsize csize w + 1"

lemma good_sizes_facts:
  assumes "good_sizes bsize csize w"
  shows "chk_int (bsize * w) = Inr (bsize * w)"
    and "div_int csize (bsize * w) = Inr (int (sets_for bsize csize w))"
    and "0 < sets_for bsize csize w" and "1 \<le> w"
proof -
  obtain s where s: "cachesim_init demo_junk bsize csize w = Inr s" "num_sets s = csize div (bsize * w)" "sim_ok s"
    using cachesim_init_ok[OF assms, of demo_junk] by (auto simp: sim_inv_def)
  have p: "1 \<le> bsize * w" "0 \<le> csize"
    using assms mult_mono[of 1 bsize 1 w] by (auto simp: good_sizes_def)
  show w: "1 \<le> w" using assms by (simp add: good_sizes_def)
  have "num_sets s = csize sdiv (bsize * w)" using s(2) p by (simp add: sdiv_nonneg_int)
  then show "chk_int (bsize * w) = Inr (bsize * w)"
    and "div_int csize (bsize * w) = Inr (int (sets_for bsize csize w))"
    and "0 < sets_for bsize csize w"
    using s(1,3) by (auto simp: cachesim_init_def sets_for_def div_int_def sim_ok_def chk_int_def split: if_splits)
qed

lemma cachesim_init_mem_eq:
  assumes g: "good_sizes bsize csize w" and room: "objects_for bsize csize w \<le> avail h"
    and s: "cachesim_init (junk_data jk) bsize csize w = Inr s"
  shows "cachesim_init_mem jk bsize csize w h = Inr (memory_state h s)"
    and "length (cache s) = sets_for bsize csize w"
proof -
  let ?n = "sets_for bsize csize w" and ?k = "brk h"
  let ?raw = "malloc_array (junk_cell jk) (int ?n)"
  note f = good_sizes_facts[OF g]
  obtain vs where vs: "init_sets_loop (junk_data jk) w (int ?n) 0 = Inr vs"
    and s': "s = \<lparr>accesses = 0, hits = 0, misses = 0, writebacks = 0, cache = vs,
            block_size = bsize, cache_size = csize, ways = w, num_sets = int ?n,
            num_offset_bits = simple_log_2 bsize, num_index_bits = simple_log_2 (int ?n)\<rparr>"
    using s f by (auto simp: cachesim_init_def)
  obtain us where "init_sets_loop (junk_data jk) w (int ?n) 0 = Inr us" "int (length us) = int ?n"
    using init_sets_loop_from[of w 0 "int ?n" "junk_data jk"] f(4) by auto
  with vs have len: "length vs = ?n" by simp
  show "length (cache s) = ?n" using len s' by simp
  have size: "set_size (vs ! i) = w" if "i < length vs" for i
    using init_sets_sizes[OF vs] that by simp
  have raw: "length ?raw = ?n" by (simp add: malloc_array_def)
  have "malloc_obj h (int ?n) (Set_Array ?raw) = (Some ?k, memory_of h ?raw [])"
    using room by (simp add: objects_for_def malloc_grow memory_of_def grow_def fun_eq_iff)
  moreover have "init_sets_mem jk (Some ?k) w (int ?n) 0 (memory_of h ?raw [])
      = Inr (memory_of h (map (cell_of ?k w) [0..<?n]) vs)"
    using init_sets_mem_eq[of w ?n ?raw h jk 0 vs "[]"] f(4) raw room vs by (simp add: objects_for_def)
  moreover have "map (cell_of ?k w) [0..<?n] = cells_of ?k vs"
    using len size by (simp add: cells_of_def)
  ultimately show "cachesim_init_mem jk bsize csize w h = Inr (memory_state h s)"
    using f s' by (simp add: cachesim_init_mem_def memory_state_def globals_of_def)
qed

end
