(* ===== verification/Cache_Memory_Correct.thy ===== *)
theory Cache_Memory_Correct
  imports Cache_Memory_Init
begin

text \<open>
  The cache simulator as a program, from its arguments to its exit: with enough memory it prints
  what \<open>cachesim_main\<close> of \<open>Cache_Sim\<close> gives and frees all that it allocates; without, or without
  a trace, it uses a pointer that is \<open>NULL\<close>.
\<close>

subsection \<open>A trace always ends\<close>

lemma trace_loop_ok:
  assumes "sim_ok s"
  shows "\<exists>s'. trace_loop unread (open_trace ls) s = Inr s' \<and> sim_ok s' \<and> length (cache s') = length (cache s)"
proof (cases ls)
  case Nil
  then show ?thesis
    using assms sim_ok_access access_result_geometry
    by (cases unread) (simp add: trace_loop_empty cachesim_access_eq same_geometry_def)
next
  case (Cons l ls')
  let ?P = "\<lambda>t. sim_ok t \<and> length (cache t) = length (cache s)"
  have "\<exists>s'. foldE access_line s ls = Inr s' \<and> ?P s'"
    by (rule foldE_invariant)
      (use assms sim_ok_access access_result_geometry in \<open>auto simp: cachesim_access_eq same_geometry_def\<close>)
  then show ?thesis using Cons by (simp add: trace_loop_nonempty)
qed

subsection \<open>Without enough memory\<close>

lemma init_lru_stack_mem_full:
  assumes "1 \<le> sz" and "avail h \<le> 1"
  shows "init_lru_stack_mem junk_st junk sz h = Inl Null_Deref"
proof (cases "avail h = 0")
  case True
  then show ?thesis by (simp add: init_lru_stack_mem_def malloc_full load_stack_def)
next
  case False
  then have "avail h = 1" using assms(2) by simp
  then show ?thesis
    using assms(1)
    by (simp add: init_lru_stack_mem_def malloc_grow malloc_full load_stack_eq store_upd upd_grow
        init_order_mem.simps[of _ sz 0] write_order_def del: store_Some)
qed

lemma init_set_mem_full:
  assumes "i < length cls" and "i = length vs" and "1 \<le> w" and "avail h < 3 * Suc i + 1"
  shows "init_set_mem jk (Some (brk h)) w (int i) (memory_of h cls vs) = Inl Null_Deref"
proof -
  let ?m = "memory_of h (cls[i := (cls ! i)\<lparr>cell_size := w\<rparr>]) vs"
  have 1: "update_set (memory_of h cls vs) (Some (brk h)) (int i) (\<lambda>cell. cell\<lparr>cell_size := w\<rparr>) = Inr ?m"
    using assms(1) by (simp add: update_set_eq upd_memory_of)
  obtain p m where p: "malloc_obj ?m w (Block_Array (malloc_array (junk_block (junk_data jk) (int i)) w)) = (p, m)"
    by fastforce
  then have m: "avail m \<le> 1" "cells m (brk h) = cells ?m (brk h)"
    using assms by (auto simp: malloc_obj_def heap_alloc_def split: if_splits)
  then obtain m' where m': "update_set m (Some (brk h)) (int i) (\<lambda>cell. cell\<lparr>cell_blocks := p\<rparr>) = Inr m'" "avail m' = avail m"
    using assms(1) by (simp add: update_set_eq)
  then show ?thesis
    using init_lru_stack_mem_full[OF assms(3), of m'] m(1) by (simp add: init_set_mem_def 1 p)
qed

lemma init_sets_mem_full:
  assumes w: "1 \<le> w" and n: "n = length cls" and room: "avail h < 3 * n + 1"
  shows "length vs = i \<Longrightarrow> i \<le> n \<Longrightarrow> 3 * i + 1 \<le> avail h \<Longrightarrow>
    init_sets_mem jk (Some (brk h)) w (int n) (int i) (memory_of h cls vs) = Inl Null_Deref"
  using n
proof (induction "n - i" arbitrary: i cls vs)
  case 0
  then show ?case using room by simp
next
  case (Suc d)
  then have i: "i < n" by simp
  show ?case
  proof (cases "avail h < 3 * Suc i + 1")
    case True
    have "init_set_mem jk (Some (brk h)) w (int i) (memory_of h cls vs) = Inl Null_Deref"
      by (rule init_set_mem_full) (use Suc.prems i w True in auto)
    then show ?thesis
      using i by (simp add: init_sets_mem.simps[of _ _ _ "int n" "int i"])
  next
    case False
    obtain v where v: "init_set (junk_data jk) w (int i) = Inr v"
      using init_set_eq[of w "junk_data jk" "int i"] w by auto
    have "init_set_mem jk (Some (brk h)) w (int i) (memory_of h cls vs)
        = Inr (memory_of h (cls[i := cell_of (brk h) w i]) (vs @ [v]))"
      by (rule init_set_mem_eq) (use Suc.prems i w v False in auto)
    moreover have "init_sets_mem jk (Some (brk h)) w (int n) (int (Suc i))
        (memory_of h (cls[i := cell_of (brk h) w i]) (vs @ [v])) = Inl Null_Deref"
      by (rule Suc.hyps(1)) (use Suc.prems Suc.hyps(2) i False in auto)
    ultimately show ?thesis
      using i by (simp add: init_sets_mem.simps[of _ _ _ "int n" "int i"] add.commute)
  qed
qed

lemma cachesim_init_mem_full:
  assumes g: "good_sizes bsize csize w" and "avail h < objects_for bsize csize w"
  shows "cachesim_init_mem jk bsize csize w h = Inl Null_Deref"
proof -
  let ?n = "sets_for bsize csize w"
  let ?raw = "malloc_array (junk_cell jk) (int ?n)"
  note f = good_sizes_facts[OF g]
  have raw: "length ?raw = ?n" by (simp add: malloc_array_def)
  have "case malloc_obj h (int ?n) (Set_Array ?raw) of (c, h1) \<Rightarrow>
      init_sets_mem jk c w (int ?n) 0 h1 = Inl Null_Deref"
  proof (cases "avail h = 0")
    case True
    then show ?thesis
      using f(3) by (simp add: malloc_full init_sets_mem.simps[of _ _ _ _ 0] init_set_mem_def update_set_def read_set_def)
  next
    case False
    then have "malloc_obj h (int ?n) (Set_Array ?raw) = (Some (brk h), memory_of h ?raw [])"
      by (simp add: malloc_grow memory_of_def grow_def fun_eq_iff)
    then show ?thesis
      using init_sets_mem_full[of w ?n ?raw h "[]" 0 jk] f(4) raw assms(2) False by (simp add: objects_for_def)
  qed
  then show ?thesis
    unfolding cachesim_init_mem_def f(1) bindE_Inr f(2) by (auto split: prod.splits)
qed

subsection \<open>The program\<close>

text \<open>
  C8: With sizes that give at least one set and with enough memory, the program that follows
  pointers ends with status 0, prints the statistics of the program on values, never uses a
  pointer that is \<open>NULL\<close> or freed, and has then freed every object it allocated exactly
  once: the heap holds what it held before, with as much room.
\<close>

theorem cachesim_frees_its_memory:
  assumes "good_sizes (to_int (atol b)) (to_int (atol c)) (to_int (atol w))" and "fopen f = Some ls"
    and "heap_ok h" and "objects_for (to_int (atol b)) (to_int (atol c)) (to_int (atol w)) \<le> avail h"
  shows "\<exists>st h'. cachesim_main (junk_data jk) unread ls (to_int (atol b)) (to_int (atol c)) (to_int (atol w)) = Inr st
    \<and> cachesim_program atol fopen jk unread [f, b, c, w] h = Inr (0, Some st, h')
    \<and> cells h' = cells h \<and> avail h' = avail h"
proof -
  let ?b = "to_int (atol b)" and ?c = "to_int (atol c)" and ?w = "to_int (atol w)"
  obtain s where s: "cachesim_init (junk_data jk) ?b ?c ?w = Inr s" "sim_ok s"
    using cachesim_init_ok[OF assms(1), of "junk_data jk"] by (auto simp: sim_inv_def)
  note i = cachesim_init_mem_eq[OF assms(1,4) s(1)]
  obtain s' where s': "trace_loop unread (open_trace ls) s = Inr s'" "sim_ok s'" "length (cache s') = length (cache s)"
    using trace_loop_ok[OF s(2)] by blast
  obtain g m g' m' where gm: "memory_state h s = (g, m)" "memory_state h s' = (g', m')" by fastforce
  have "trace_loop_mem unread (Some (open_trace ls)) g m = Inr (g', m')"
    using trace_loop_mem_eq[OF s(2), where h = h and tr = "open_trace ls" and unread = unread] s'(1) gm by simp
  moreover have "cachesim_cleanup g' m' = Inr (h\<lparr>brk := brk h + 3 * length (cache s') + 1\<rparr>)"
    using cachesim_cleanup_eq[OF s'(2) assms(3)] assms(4) i(2) s'(3) gm(2) by (simp add: objects_for_def)
  moreover have "cachesim_stats_mem g' = cachesim_stats s'"
    using gm(2) by (auto simp: memory_state_def globals_of_def cachesim_stats_mem_def cachesim_stats_def)
  ultimately show ?thesis
    using s(1) s'(1) i(1) gm(1) assms(2) by (cases "cachesim_stats s'") (simp add: cachesim_program_def cachesim_main_def)
qed

text \<open>A concrete run: two sets of two ways, seven objects, a trace of two lines.\<close>

definition demo_atol :: "string \<Rightarrow> u64" where
  "demo_atol x = (if x = ''16'' then 16 else if x = ''64'' then 64 else 2)"

definition demo_heap :: "nat \<Rightarrow> memory" where
  "demo_heap room = \<lparr>cells = \<lambda>_. None, brk = 0, avail = room\<rparr>"

definition demo_mem_junk :: mem_junk where
  "demo_mem_junk = \<lparr>junk_data = demo_junk, junk_stack = \<lambda>_. \<lparr>sc_size = 9, sc_order = Some 9\<rparr>,
     junk_cell = \<lambda>_. \<lparr>cell_size = 9, cell_stack = None, cell_blocks = Some 9\<rparr>\<rparr>"

lemma demo_sizes:
  "to_int (demo_atol ''16'') = 16" "to_int (demo_atol ''64'') = 64" "to_int (demo_atol ''2'') = 2"
  "good_sizes 16 64 2" "objects_for 16 64 2 = 7"
  by (simp_all add: demo_atol_def to_int_def good_sizes_def objects_for_def sets_for_def sdiv_nonneg_int)

theorem cachesim_frees_its_memory_witness:
  "\<exists>st h'. cachesim_main demo_junk (0, 0) [(0, 100, 0), (1, 100, 0)] 16 64 2 = Inr st
    \<and> cachesim_program demo_atol (\<lambda>_. Some [(0, 100, 0), (1, 100, 0)]) demo_mem_junk (0, 0)
        [''t'', ''16'', ''64'', ''2''] (demo_heap 7) = Inr (0, Some st, h')
    \<and> cells h' = (\<lambda>_. None) \<and> avail h' = 7"
  using cachesim_frees_its_memory[of demo_atol "''16''" "''64''" "''2''" "\<lambda>_. Some [(0, 100, 0), (1, 100, 0)]"
      "''t''" "[(0, 100, 0), (1, 100, 0)]" "demo_heap 7" demo_mem_junk "(0, 0)"]
  unfolding demo_sizes by (simp add: demo_sizes(4) demo_heap_def demo_mem_junk_def heap_ok_def)

text \<open>
  C37: The results of \<open>malloc\<close> and \<open>fopen\<close> are never checked: with too little memory for its
  objects, or with a trace that cannot be opened, the program uses the \<open>NULL\<close> it got.
\<close>

theorem cachesim_uses_null:
  assumes "good_sizes (to_int (atol b)) (to_int (atol c)) (to_int (atol w))"
    and "avail h < objects_for (to_int (atol b)) (to_int (atol c)) (to_int (atol w)) \<or> fopen f = None"
  shows "cachesim_program atol fopen jk unread [f, b, c, w] h = Inl Null_Deref"
proof (cases "avail h < objects_for (to_int (atol b)) (to_int (atol c)) (to_int (atol w))")
  case True
  then show ?thesis by (simp add: cachesim_program_def cachesim_init_mem_full[OF assms(1)])
next
  case False
  obtain s where s: "cachesim_init (junk_data jk) (to_int (atol b)) (to_int (atol c)) (to_int (atol w)) = Inr s"
    using cachesim_init_ok[OF assms(1), of "junk_data jk"] by auto
  have "fopen f = None" using assms(2) False by simp
  then show ?thesis
    using False cachesim_init_mem_eq(1)[OF assms(1) _ s, of h]
    by (auto simp: cachesim_program_def trace_loop_mem.simps[of _ None] next_line_mem_def memory_state_def)
qed

theorem cachesim_uses_null_witness:
  "cachesim_program demo_atol (\<lambda>_. Some []) demo_mem_junk (0, 0) [''t'', ''16'', ''64'', ''2''] (demo_heap 6) = Inl Null_Deref
   \<and> cachesim_program demo_atol (\<lambda>_. None) demo_mem_junk (0, 0) [''t'', ''16'', ''64'', ''2''] (demo_heap 7) = Inl Null_Deref"
  using cachesim_uses_null[of demo_atol "''16''" "''64''" "''2''" "demo_heap 6" "\<lambda>_. Some []" "''t''" demo_mem_junk "(0, 0)"]
    cachesim_uses_null[of demo_atol "''16''" "''64''" "''2''" "demo_heap 7" "\<lambda>_. None" "''t''" demo_mem_junk "(0, 0)"]
  unfolding demo_sizes by (simp add: demo_sizes(4) demo_heap_def)

end
