(* ===== verification/Vm_Types.thy ===== *)
theory Vm_Types
  imports Linked_List
begin

unbundle bit_operations_syntax

text \<open>
  The data of the virtual-memory simulator (\<open>simulator-src/types.h\<close>, \<open>pagesim.h\<close>, \<open>paging.h\<close>,
  \<open>swap.h\<close>, \<open>stats.h\<close>, \<open>implementation/page_splitting.h\<close>) and its pseudo-random numbers
  (\<open>util.c\<close>).

  Physical memory is an array of frames. A frame holds the frame table (frame 0), a page table,
  or the bytes of a page; the code overlays these on one array of bytes and casts pointers into
  it. The model keeps, for each frame, what the code last put there, and an access that
  expects another kind of contents fails with \<open>Type_Confusion\<close>.
\<close>

subsection \<open>Integer types and memory parameters\<close>

type_synonym vaddr_t = u32
type_synonym paddr_t = u32
type_synonym vpn_t = u16
type_synonym pfn_t = u16
type_synonym swap_entry_t = u64

definition MAX_PID :: u32 where "MAX_PID = 800"

definition PROC_RUNNING :: u8 where "PROC_RUNNING = 1"

definition PROC_STOPPED :: u8 where "PROC_STOPPED = 0"

definition PADDR_LEN :: nat where "PADDR_LEN = 20"

definition VADDR_LEN :: nat where "VADDR_LEN = 24"

definition OFFSET_LEN :: nat where "OFFSET_LEN = 14"

definition PAGE_SIZE :: u32 where "PAGE_SIZE = push_bit OFFSET_LEN 1"

definition MEM_SIZE :: u32 where "MEM_SIZE = push_bit PADDR_LEN 1"

definition NUM_PAGES :: nat where "NUM_PAGES = 2 ^ (VADDR_LEN - OFFSET_LEN)"

definition NUM_FRAMES :: nat where "NUM_FRAMES = 2 ^ (PADDR_LEN - OFFSET_LEN)"

definition RANDOM :: u8 where "RANDOM = 1"

definition CLOCKSWEEP :: u8 where "CLOCKSWEEP = 2"

lemma page_size_value [simp]: "PAGE_SIZE = 16384"
  by (simp add: PAGE_SIZE_def OFFSET_LEN_def)

lemma mem_size_value [simp]: "MEM_SIZE = 1048576"
  by (simp add: MEM_SIZE_def PADDR_LEN_def)

lemma num_pages_value [simp]: "NUM_PAGES = 1024"
  by (simp add: NUM_PAGES_def VADDR_LEN_def OFFSET_LEN_def)

lemma num_frames_value [simp]: "NUM_FRAMES = 64"
  by (simp add: NUM_FRAMES_def PADDR_LEN_def OFFSET_LEN_def)

subsection \<open>Splitting an address\<close>

definition vaddr_vpn :: "vaddr_t \<Rightarrow> vpn_t" where
  "vaddr_vpn addr = ucast (addr div PAGE_SIZE)"

definition vaddr_offset :: "vaddr_t \<Rightarrow> u16" where
  "vaddr_offset addr = ucast (addr mod PAGE_SIZE)"

subsection \<open>Structures\<close>

text \<open>A \<open>pcb_t *\<close> points into the array \<open>procs\<close>: it is an index, or \<open>None\<close> for \<open>NULL\<close>.\<close>

record pcb_t =
  pid :: u32
  state :: u8
  saved_ptbr :: pfn_t

record pte_t =
  valid :: u8
  dirty :: u8
  pfn :: pfn_t
  swap :: swap_entry_t

record fte_t =
  protected :: u8
  mapped :: u8
  referenced :: u8
  process :: "u32 option"
  vpn :: vpn_t

text \<open>The \<open>PAGE_SIZE\<close> bytes of a page, by offset.\<close>

type_synonym page = "u16 \<Rightarrow> u8"

datatype frame_t = Frame_Table | Page_Table "vpn_t \<Rightarrow> pte_t" | Page_Data page

text \<open>All bytes zero, read as a page table entry.\<close>

definition zero_pte :: pte_t where
  "zero_pte = \<lparr>valid = 0, dirty = 0, pfn = 0, swap = 0\<rparr>"

definition zero_fte :: fte_t where
  "zero_fte = \<lparr>protected = 0, mapped = 0, referenced = 0, process = None, vpn = 0\<rparr>"

definition zero_page :: page where
  "zero_page = (\<lambda>_. 0)"

record stats_t =
  writes :: u64
  reads :: u64
  accesses :: u64
  page_faults :: u64
  writebacks :: u64

subsection \<open>Pseudo-random numbers\<close>

record pcg32_random_t =
  pcg_state :: u64
  pcg_inc :: u64

definition pcg32_random_r :: "pcg32_random_t \<Rightarrow> u32 \<times> pcg32_random_t" where
  "pcg32_random_r rng =
     (let oldstate = pcg_state rng;
          rng' = rng\<lparr>pcg_state := oldstate * 6364136223846793005 + (pcg_inc rng OR 1)\<rparr>;
          xorshifted = ucast (drop_bit 27 (drop_bit 18 oldstate XOR oldstate)) :: u32;
          rot = ucast (drop_bit 59 oldstate) :: u32
      in (drop_bit (unat rot) xorshifted OR push_bit (unat ((- rot) AND 31)) xorshifted, rng'))"

definition rstate :: pcg32_random_t where
  "rstate = \<lparr>pcg_state = 0x57424aae4a2024be, pcg_inc = 0x28bfcf2f5a7cdfa3\<rparr>"

definition prng_rand :: "pcg32_random_t \<Rightarrow> u32 \<times> pcg32_random_t" where
  "prng_rand rng = pcg32_random_r rng"

end
