(* ===== verification/Vm_Swap.thy ===== *)
theory Vm_Swap
  imports Vm_Types
begin

text \<open>
  Swap space (\<open>simulator-src/swap.c\<close>, \<open>swapops.c\<close>): a linked queue of swap entries, each with
  the token a page table entry names it by and a copy of a page. The abstraction is the map from
  tokens to pages; its contract is the locale \<open>swap_store\<close>, which the paging code relies on.
\<close>

subsection \<open>The swap queue\<close>

record swap_info_t =
  token :: u64
  page_data :: page
  info_next :: "nat option"

record swap_queue_t =
  q_head :: "nat option"
  q_tail :: "nat option"
  q_size :: u64
  q_size_max :: u64

text \<open>The globals \<open>TOKEN\<close> and \<open>swap_queue\<close>, and the memory that holds the entries.\<close>

record swap_state =
  swap_heap :: "swap_info_t heap"
  TOKEN :: u64
  swap_queue :: swap_queue_t

definition swap_init :: "nat \<Rightarrow> swap_state" where
  "swap_init room = \<lparr>swap_heap = \<lparr>cells = (\<lambda>_. None), brk = 0, avail = room\<rparr>, TOKEN = 1,
     swap_queue = \<lparr>q_head = None, q_tail = None, q_size = 0, q_size_max = 0\<rparr>\<rparr>"

definition create_entry :: "swap_state \<Rightarrow> (nat \<times> swap_state) res" where
  "create_entry s =
     (case heap_alloc (swap_heap s) \<lparr>token = 0, page_data = zero_page, info_next = None\<rparr> of
        None \<Rightarrow> Inl (Panic ''could not allocate swap entry'')
      | Some (a, h) \<Rightarrow>
          bindE (load h (Some a)) (\<lambda>info.
          bindE (store h (Some a) (info\<lparr>token := TOKEN s\<rparr>)) (\<lambda>h'.
            Inr (a, s\<lparr>swap_heap := h', TOKEN := TOKEN s + 1\<rparr>))))"

definition set_next :: "swap_info_t heap \<Rightarrow> nat option \<Rightarrow> nat option \<Rightarrow> swap_info_t heap res" where
  "set_next h p q = bindE (load h p) (\<lambda>info. store h p (info\<lparr>info_next := q\<rparr>))"

definition queue_grow :: "swap_queue_t \<Rightarrow> swap_queue_t" where
  "queue_grow q = (let q' = q\<lparr>q_size := q_size q + 1\<rparr> in
     if q_size q' > q_size_max q' then q'\<lparr>q_size_max := q_size q'\<rparr> else q')"

definition swap_queue_enqueue :: "swap_state \<Rightarrow> nat \<Rightarrow> swap_state res" where
  "swap_queue_enqueue s info =
     (let q = swap_queue s in
      bindE (set_next (swap_heap s) (Some info) None) (\<lambda>h.
      bindE (if q_head q = None
             then Inr (h, q\<lparr>q_head := Some info, q_tail := Some info\<rparr>)
             else bindE (set_next h (q_tail q) (Some info)) (\<lambda>h'.
               Inr (h', q\<lparr>q_tail := Some info\<rparr>))) (\<lambda>(h', q').
      Inr (s\<lparr>swap_heap := h', swap_queue := queue_grow q'\<rparr>))))"

text \<open>
  The loops follow \<open>next\<close> pointers. On a cyclic chain they would not end; the fuel is one more
  than the number of addresses ever allocated, so running out of it means that the loop has
  come back to an entry it had visited.
\<close>

fun find_loop :: "nat \<Rightarrow> swap_info_t heap \<Rightarrow> u64 \<Rightarrow> nat option \<Rightarrow> nat option res" where
  "find_loop 0 h t cur = Inl Diverges"
| "find_loop (Suc fuel) h t cur =
     (if cur = None then Inr None
      else bindE (load h cur) (\<lambda>info.
        if token info = t then Inr cur else find_loop fuel h t (info_next info)))"

definition swap_queue_find :: "swap_state \<Rightarrow> u64 \<Rightarrow> nat option res" where
  "swap_queue_find s t = find_loop (brk (swap_heap s) + 1) (swap_heap s) t (q_head (swap_queue s))"

text \<open>The loop of \<open>swap_queue_dequeue\<close> stops at the entry (or at the end), with its predecessor.\<close>

fun dequeue_loop ::
    "nat \<Rightarrow> swap_info_t heap \<Rightarrow> u64 \<Rightarrow> nat option \<Rightarrow> nat option \<Rightarrow> (nat option \<times> nat option) res" where
  "dequeue_loop 0 h t prev cur = Inl Diverges"
| "dequeue_loop (Suc fuel) h t prev cur =
     (if cur = None then Inr (prev, None)
      else bindE (load h cur) (\<lambda>info.
        if token info = t then Inr (prev, cur)
        else dequeue_loop fuel h t cur (info_next info)))"

definition unlink_entry ::
    "swap_info_t heap \<Rightarrow> swap_queue_t \<Rightarrow> nat option \<Rightarrow> nat option \<Rightarrow> (swap_info_t heap \<times> swap_queue_t) res"
  where
  "unlink_entry h q prev cur =
     bindE (load h cur) (\<lambda>info.
     bindE (if prev \<noteq> None
            then bindE (set_next h prev (info_next info)) (\<lambda>h'. Inr (h', q))
            else Inr (h, q\<lparr>q_head := info_next info\<rparr>)) (\<lambda>(h', q').
       Inr (h', if cur = q_tail q' then q'\<lparr>q_tail := prev\<rparr> else q')))"

definition swap_queue_dequeue :: "swap_state \<Rightarrow> u64 \<Rightarrow> swap_state res" where
  "swap_queue_dequeue s t =
     bindE (dequeue_loop (brk (swap_heap s) + 1) (swap_heap s) t None (q_head (swap_queue s)))
       (\<lambda>(prev, cur).
     bindE (if cur = None then Inr (swap_heap s, swap_queue s)
            else unlink_entry (swap_heap s) (swap_queue s) prev cur) (\<lambda>(h, q).
     let q' = q\<lparr>q_size := q_size q - 1\<rparr> in
     bindE (set_next h cur None) (\<lambda>h'.
     bindE (heap_free h' (the cur)) (\<lambda>h''.
       Inr (s\<lparr>swap_heap := h'', swap_queue := q'\<rparr>)))))"

subsection \<open>Operations on page table entries\<close>

definition swap_exists :: "pte_t \<Rightarrow> bool" where
  "swap_exists entry \<longleftrightarrow> swap entry \<noteq> 0"

definition swap_read :: "swap_state \<Rightarrow> pte_t \<Rightarrow> page res" where
  "swap_read s pte =
     bindE (swap_queue_find s (swap pte)) (\<lambda>info.
       if info = None then Inl (Panic ''Attempted to read an invalid swap entry.'')
       else bindE (load (swap_heap s) info) (\<lambda>i. Inr (page_data i)))"

definition swap_write :: "swap_state \<Rightarrow> pte_t \<Rightarrow> page \<Rightarrow> (swap_state \<times> pte_t) res" where
  "swap_write s pte src =
     bindE (swap_queue_find s (swap pte)) (\<lambda>found.
     bindE (if found = None
            then bindE (create_entry s) (\<lambda>(a, s1).
                 bindE (swap_queue_enqueue s1 a) (\<lambda>s2.
                 bindE (load (swap_heap s2) (Some a)) (\<lambda>i.
                   Inr (Some a, s2, pte\<lparr>swap := token i\<rparr>))))
            else Inr (found, s, pte)) (\<lambda>(info, s', pte').
     bindE (load (swap_heap s') info) (\<lambda>i.
     bindE (store (swap_heap s') info (i\<lparr>page_data := src\<rparr>)) (\<lambda>h.
       Inr (s'\<lparr>swap_heap := h\<rparr>, pte')))))"

definition swap_free :: "swap_state \<Rightarrow> pte_t \<Rightarrow> (swap_state \<times> pte_t) res" where
  "swap_free s pte =
     (let swp_entry = swap pte in
      bindE (swap_queue_find s swp_entry) (\<lambda>found.
        if found = None then Inl (Panic ''Attempted to free an invalid swap entry!'')
        else bindE (swap_queue_dequeue s (swap pte)) (\<lambda>s'. Inr (s', pte\<lparr>swap := 0\<rparr>))))"

end
