(* ===== verification/Vm_Paging.thy ===== *)
theory Vm_Paging
  imports Vm_Swap
begin

text \<open>
  The paging code of the virtual-memory simulator: \<open>implementation/page_replacement.c\<close>,
  \<open>page_fault.c\<close> and \<open>paging.c\<close>. The state is every global of the program; the frame table, which
  the code places at the start of \<open>mem\<close> (frame 0), is a field of its own, and frame 0 of \<open>mem\<close> is
  marked \<open>Frame_Table\<close>.
\<close>

subsection \<open>The state of the simulator\<close>

record vm =
  mem :: "pfn_t \<Rightarrow> frame_t"
  frame_table :: "pfn_t \<Rightarrow> fte_t"
  PTBR :: pfn_t
  procs :: "u32 \<Rightarrow> pcb_t"
  current_process :: "u32 option"
  replacement :: u8
  swp :: swap_state
  rng :: pcg32_random_t
  stats :: stats_t

subsection \<open>Memory accesses\<close>

text \<open>The C arrays \<open>frame_table\<close>, \<open>procs\<close>, \<open>mem\<close> and a page table in \<open>mem\<close>, with their bounds.\<close>

definition get_fte :: "vm \<Rightarrow> pfn_t \<Rightarrow> fte_t res" where
  "get_fte vm f = (if unat f < NUM_FRAMES then Inr (frame_table vm f) else Inl Out_Of_Bounds)"

definition set_fte :: "vm \<Rightarrow> pfn_t \<Rightarrow> fte_t \<Rightarrow> vm res" where
  "set_fte vm f e = (if unat f < NUM_FRAMES
     then Inr (vm\<lparr>frame_table := (frame_table vm)(f := e)\<rparr>) else Inl Out_Of_Bounds)"

definition get_proc :: "vm \<Rightarrow> u32 \<Rightarrow> pcb_t res" where
  "get_proc vm p = (if p < MAX_PID then Inr (procs vm p) else Inl Out_Of_Bounds)"

definition set_proc :: "vm \<Rightarrow> u32 \<Rightarrow> pcb_t \<Rightarrow> vm res" where
  "set_proc vm p pcb = (if p < MAX_PID
     then Inr (vm\<lparr>procs := (procs vm)(p := pcb)\<rparr>) else Inl Out_Of_Bounds)"

definition get_table :: "vm \<Rightarrow> pfn_t \<Rightarrow> (vpn_t \<Rightarrow> pte_t) res" where
  "get_table vm f = (if unat f < NUM_FRAMES
     then case mem vm f of Page_Table t \<Rightarrow> Inr t | _ \<Rightarrow> Inl Type_Confusion
     else Inl Out_Of_Bounds)"

definition get_pte :: "vm \<Rightarrow> pfn_t \<Rightarrow> vpn_t \<Rightarrow> pte_t res" where
  "get_pte vm f v = (if unat v < NUM_PAGES
     then bindE (get_table vm f) (\<lambda>t. Inr (t v)) else Inl Out_Of_Bounds)"

definition set_pte :: "vm \<Rightarrow> pfn_t \<Rightarrow> vpn_t \<Rightarrow> pte_t \<Rightarrow> vm res" where
  "set_pte vm f v e = (if unat v < NUM_PAGES
     then bindE (get_table vm f) (\<lambda>t. Inr (vm\<lparr>mem := (mem vm)(f := Page_Table (t(v := e)))\<rparr>))
     else Inl Out_Of_Bounds)"

definition get_page :: "vm \<Rightarrow> pfn_t \<Rightarrow> page res" where
  "get_page vm f = (if unat f < NUM_FRAMES
     then case mem vm f of Page_Data d \<Rightarrow> Inr d | _ \<Rightarrow> Inl Type_Confusion
     else Inl Out_Of_Bounds)"

text \<open>\<open>memset\<close> and \<open>memcpy\<close> over a whole frame: whatever was there is gone.\<close>

definition fill_frame :: "vm \<Rightarrow> pfn_t \<Rightarrow> frame_t \<Rightarrow> vm res" where
  "fill_frame vm f c = (if unat f < NUM_FRAMES
     then Inr (vm\<lparr>mem := (mem vm)(f := c)\<rparr>) else Inl Out_Of_Bounds)"

text \<open>\<open>mem[a]\<close> and \<open>mem[a] = d\<close>.\<close>

definition load_byte :: "vm \<Rightarrow> paddr_t \<Rightarrow> u8 res" where
  "load_byte vm a =
     bindE (guardE (a < MEM_SIZE) Out_Of_Bounds) (\<lambda>_.
     bindE (get_page vm (ucast (a div PAGE_SIZE))) (\<lambda>d. Inr (d (ucast (a mod PAGE_SIZE)))))"

definition store_byte :: "vm \<Rightarrow> paddr_t \<Rightarrow> u8 \<Rightarrow> vm res" where
  "store_byte vm a b =
     bindE (guardE (a < MEM_SIZE) Out_Of_Bounds) (\<lambda>_.
     bindE (get_page vm (ucast (a div PAGE_SIZE))) (\<lambda>d.
       fill_frame vm (ucast (a div PAGE_SIZE)) (Page_Data (d(ucast (a mod PAGE_SIZE) := b)))))"

subsection \<open>Page replacement\<close>

text \<open>The first loop of \<open>select_victim_frame\<close>: a frame that is neither protected nor mapped.\<close>

function free_loop :: "(pfn_t \<Rightarrow> fte_t) \<Rightarrow> nat \<Rightarrow> pfn_t option" where
  "free_loop ft i =
     (if i < NUM_FRAMES
      then if protected (ft (of_nat i)) = 0 \<and> mapped (ft (of_nat i)) = 0 then Some (of_nat i)
           else free_loop ft (i + 1)
      else None)"
  by pat_completeness auto
termination
  by (relation "measure (\<lambda>(ft, i). NUM_FRAMES - i)") auto

declare free_loop.simps [simp del]

text \<open>
  The second loop: a coin is tossed for each unprotected frame. The result is the frame returned
  from inside the loop, if any, and \<open>last_unprotected\<close>.
\<close>

function random_loop ::
    "(pfn_t \<Rightarrow> fte_t) \<Rightarrow> pcg32_random_t \<Rightarrow> pfn_t \<Rightarrow> nat \<Rightarrow> pfn_t option \<times> pfn_t \<times> pcg32_random_t" where
  "random_loop ft r last_unprotected i =
     (if i < NUM_FRAMES
      then if protected (ft (of_nat i)) = 0
           then case prng_rand r of (x, r') \<Rightarrow>
             if x mod 2 \<noteq> 0 then (Some (of_nat i), of_nat i, r')
             else random_loop ft r' (of_nat i) (i + 1)
           else random_loop ft r last_unprotected (i + 1)
      else (None, last_unprotected, r))"
  by pat_completeness auto
termination
  by (relation "measure (\<lambda>(ft, r, l, i). NUM_FRAMES - i)") auto

declare random_loop.simps [simp del]

definition select_victim_frame :: "vm \<Rightarrow> (pfn_t \<times> vm) res" where
  "select_victim_frame vm =
     (case free_loop (frame_table vm) 0 of
        Some i \<Rightarrow> Inr (i, vm)
      | None \<Rightarrow>
          if replacement vm = RANDOM
          then case random_loop (frame_table vm) (rng vm) (of_nat NUM_FRAMES) 0 of (found, last_unprotected, r) \<Rightarrow>
            (case found of
               Some i \<Rightarrow> Inr (i, vm\<lparr>rng := r\<rparr>)
             | None \<Rightarrow>
                 if unat last_unprotected < NUM_FRAMES then Inr (last_unprotected, vm\<lparr>rng := r\<rparr>)
                 else Inl (Panic ''System ran out of memory''))
          else Inl (Panic ''System ran out of memory''))"

text \<open>The write-back of a dirty victim, with \<open>pte\<close> its entry in the page table at frame \<open>ptf\<close>.\<close>

definition write_back :: "vm \<Rightarrow> pfn_t \<Rightarrow> pfn_t \<Rightarrow> vpn_t \<Rightarrow> vm res" where
  "write_back vm victim_pfn ptf v =
     bindE (get_pte vm ptf v) (\<lambda>pte.
       if dirty pte \<noteq> 0
       then bindE (get_page vm victim_pfn) (\<lambda>src.
            bindE (swap_write (swp vm) pte src) (\<lambda>(sw, pte').
              set_pte (vm\<lparr>swp := sw, stats := (stats vm)\<lparr>writebacks := writebacks (stats vm) + 1\<rparr>\<rparr>)
                ptf v (pte'\<lparr>dirty := 0\<rparr>)))
       else Inr vm)"

definition free_frame :: "vm \<Rightarrow> (pfn_t \<times> vm) res" where
  "free_frame vm0 =
     bindE (select_victim_frame vm0) (\<lambda>(victim_pfn, vm).
     bindE (get_fte vm victim_pfn) (\<lambda>victim.
       if mapped victim = 0 then Inr (victim_pfn, vm)
       else case process victim of
           None \<Rightarrow> Inl Null_Deref
         | Some p \<Rightarrow>
             bindE (get_proc vm p) (\<lambda>pcb.
             bindE (write_back vm victim_pfn (saved_ptbr pcb) (vpn victim)) (\<lambda>vm1.
             bindE (get_pte vm1 (saved_ptbr pcb) (vpn victim)) (\<lambda>pte.
             bindE (set_pte vm1 (saved_ptbr pcb) (vpn victim) (pte\<lparr>valid := 0\<rparr>)) (\<lambda>vm2.
             bindE (set_fte vm2 victim_pfn
                 (victim\<lparr>mapped := 0, referenced := 0, process := None, vpn := 0\<rparr>)) (\<lambda>vm3.
               Inr (victim_pfn, vm3))))))))"

subsection \<open>Page faults\<close>

text \<open>
  \<open>pte\<close> is a pointer into memory, so the entry is read again after \<open>free_frame\<close>, which may have
  evicted the frame of another page of the same process, and after the frame has been filled.
\<close>

definition page_fault :: "vm \<Rightarrow> vaddr_t \<Rightarrow> vm res" where
  "page_fault vm0 address =
     (let v = vaddr_vpn address;
          vm1 = vm0\<lparr>stats := (stats vm0)\<lparr>page_faults := page_faults (stats vm0) + 1\<rparr>\<rparr> in
      bindE (free_frame vm1) (\<lambda>(f, vm2).
      bindE (get_pte vm2 (PTBR vm2) v) (\<lambda>pte.
      bindE (set_pte vm2 (PTBR vm2) v (pte\<lparr>valid := 1, dirty := 0, pfn := f\<rparr>)) (\<lambda>vm3.
      bindE (set_fte vm3 f \<lparr>protected = 0, mapped = 1, referenced = 0,
          process = current_process vm3, vpn = v\<rparr>) (\<lambda>vm4.
      bindE (get_pte vm4 (PTBR vm4) v) (\<lambda>pte'.
        if swap_exists pte'
        then bindE (swap_read (swp vm4) pte') (\<lambda>d. fill_frame vm4 f (Page_Data d))
        else fill_frame vm4 f (Page_Data zero_page)))))))"

subsection \<open>Processes and accesses\<close>

text \<open>The first memory of the process and what \<open>main\<close> sets before \<open>system_init\<close>: all zero (\<open>calloc\<close>).\<close>

definition power_on :: "u8 \<Rightarrow> nat \<Rightarrow> vm" where
  "power_on algorithm room = \<lparr>mem = (\<lambda>_. Page_Data zero_page), frame_table = (\<lambda>_. zero_fte),
     PTBR = 0, procs = (\<lambda>_. \<lparr>pid = 0, state = 0, saved_ptbr = 0\<rparr>), current_process = None,
     replacement = algorithm, swp = swap_init room, rng = rstate,
     stats = \<lparr>writes = 0, reads = 0, accesses = 0, page_faults = 0, writebacks = 0\<rparr>\<rparr>"

definition system_init :: "vm \<Rightarrow> vm" where
  "system_init vm = vm\<lparr>mem := (mem vm)(0 := Frame_Table),
     frame_table := (\<lambda>_. zero_fte)(0 := zero_fte\<lparr>protected := 1\<rparr>)\<rparr>"

definition proc_init :: "vm \<Rightarrow> u32 \<Rightarrow> vm res" where
  "proc_init vm0 p =
     bindE (free_frame vm0) (\<lambda>(f, vm1).
     bindE (fill_frame vm1 f (Page_Table (\<lambda>_. zero_pte))) (\<lambda>vm2.
     bindE (get_proc vm2 p) (\<lambda>pcb.
     bindE (set_proc vm2 p (pcb\<lparr>saved_ptbr := f\<rparr>)) (\<lambda>vm3.
       set_fte vm3 f \<lparr>protected = 1, mapped = 0, referenced = 0, process = None, vpn = 0\<rparr>))))"

definition context_switch :: "vm \<Rightarrow> u32 \<Rightarrow> vm res" where
  "context_switch vm p = bindE (get_proc vm p) (\<lambda>pcb. Inr (vm\<lparr>PTBR := saved_ptbr pcb\<rparr>))"

definition mem_access :: "vm \<Rightarrow> vaddr_t \<Rightarrow> char \<Rightarrow> u8 \<Rightarrow> (u8 \<times> vm) res" where
  "mem_access vm0 address rw data =
     (let v = vaddr_vpn address; offset = vaddr_offset address in
      bindE (get_pte vm0 (PTBR vm0) v) (\<lambda>pte0.
      let vm1 = vm0\<lparr>stats := (stats vm0)\<lparr>accesses := accesses (stats vm0) + 1\<rparr>\<rparr> in
      bindE (if valid pte0 = 0 then page_fault vm1 address else Inr vm1) (\<lambda>vm2.
      bindE (get_pte vm2 (PTBR vm2) v) (\<lambda>pte.
      bindE (get_fte vm2 (pfn pte)) (\<lambda>fte.
      bindE (set_fte vm2 (pfn pte) (fte\<lparr>referenced := 1\<rparr>)) (\<lambda>vm3.
      let physical_address = ucast (pfn pte) * PAGE_SIZE + ucast offset :: paddr_t in
      if rw = CHR ''r''
      then let vm4 = vm3\<lparr>stats := (stats vm3)\<lparr>reads := reads (stats vm3) + 1\<rparr>\<rparr> in
           bindE (load_byte vm4 physical_address) (\<lambda>b. Inr (b, vm4))
      else let vm4 = vm3\<lparr>stats := (stats vm3)\<lparr>writes := writes (stats vm3) + 1\<rparr>\<rparr> in
           bindE (set_pte vm4 (PTBR vm4) v (pte\<lparr>dirty := 1\<rparr>)) (\<lambda>vm5.
           bindE (store_byte vm5 physical_address data) (\<lambda>vm6. Inr (data, vm6)))))))))"

text \<open>One page of \<open>proc_cleanup\<close>: unmap its frame, free its swap entry.\<close>

definition release_frame :: "vm \<Rightarrow> pfn_t \<Rightarrow> vpn_t \<Rightarrow> vm res" where
  "release_frame vm ptf v =
     bindE (get_pte vm ptf v) (\<lambda>pte.
       if valid pte \<noteq> 0
       then bindE (get_fte vm (pfn pte)) (\<lambda>fte.
            bindE (set_fte vm (pfn pte)
                (fte\<lparr>mapped := 0, referenced := 0, process := None, vpn := 0\<rparr>)) (\<lambda>vm1.
              set_pte vm1 ptf v (pte\<lparr>valid := 0\<rparr>)))
       else Inr vm)"

definition release_swap :: "vm \<Rightarrow> pfn_t \<Rightarrow> vpn_t \<Rightarrow> vm res" where
  "release_swap vm ptf v =
     bindE (get_pte vm ptf v) (\<lambda>pte.
       if swap_exists pte
       then bindE (swap_free (swp vm) pte) (\<lambda>(sw, pte'). set_pte (vm\<lparr>swp := sw\<rparr>) ptf v pte')
       else Inr vm)"

definition cleanup_page :: "pfn_t \<Rightarrow> vm \<Rightarrow> nat \<Rightarrow> vm res" where
  "cleanup_page ptf vm i =
     bindE (release_frame vm ptf (of_nat i)) (\<lambda>vm1. release_swap vm1 ptf (of_nat i))"

definition proc_cleanup :: "vm \<Rightarrow> u32 \<Rightarrow> vm res" where
  "proc_cleanup vm0 p =
     bindE (get_proc vm0 p) (\<lambda>pcb.
     bindE (foldE (cleanup_page (saved_ptbr pcb)) vm0 [0..<NUM_PAGES]) (\<lambda>vm1.
       set_fte vm1 (saved_ptbr pcb)
         \<lparr>protected = 0, mapped = 0, referenced = 0, process = None, vpn = 0\<rparr>))"

end
