(* ===== verification/Vm_Sim.thy ===== *)
theory Vm_Sim
  imports Vm_Paging
begin

text \<open>
  The simulator's driver (\<open>simulator-src/pagesim.c\<close>): the main loop over the commands of a trace,
  and \<open>check_validity\<close>, the consistency check that the option \<open>-c\<close> runs after every command.
\<close>

subsection \<open>The consistency check\<close>

text \<open>The two local arrays of flags, by frame number.\<close>

type_synonym flags = "u8 list"

definition flag_at :: "flags \<Rightarrow> pfn_t \<Rightarrow> u8 res" where
  "flag_at fl f = arr_get fl (int (unat f))"

definition mark_flag :: "flags \<Rightarrow> pfn_t \<Rightarrow> flags res" where
  "mark_flag fl f = arr_set fl (int (unat f)) 1"

text \<open>\<open>panic\<close> when the condition holds.\<close>

definition panic_if :: "bool \<Rightarrow> string \<Rightarrow> unit res" where
  "panic_if b msg = guardE (\<not> b) (Panic msg)"

definition check_ptbr :: "vm \<Rightarrow> flags \<Rightarrow> nat \<Rightarrow> flags res" where
  "check_ptbr vm prot i =
     bindE (get_proc vm (of_nat i)) (\<lambda>pcb.
       if state pcb = PROC_RUNNING
       then let found_ptbr = saved_ptbr pcb in
         bindE (panic_if (found_ptbr = 0 \<or> unat found_ptbr > NUM_FRAMES)
           ''PTBR of running process cannot be zero or >= the number of frames in the system'') (\<lambda>_.
         bindE (get_fte vm found_ptbr) (\<lambda>fte.
         bindE (panic_if (protected fte = 0)
           ''Frames corresponding to the page tables of running processes must be marked as protected'') (\<lambda>_.
           mark_flag prot found_ptbr)))
       else Inr prot)"

definition check_protected :: "vm \<Rightarrow> flags \<Rightarrow> unit \<Rightarrow> nat \<Rightarrow> unit res" where
  "check_protected vm prot _ i =
     bindE (get_fte vm (of_nat i)) (\<lambda>fte.
     bindE (flag_at prot (of_nat i)) (\<lambda>b.
       panic_if (protected fte \<noteq> 0 \<and> b = 0)
         ''Found frame marked as protected that should not be protected''))"

text \<open>The pointer comparison says that \<open>process\<close> points into \<open>procs\<close>.\<close>

definition check_mapping :: "vm \<Rightarrow> flags \<Rightarrow> u32 \<Rightarrow> vpn_t \<Rightarrow> pte_t \<Rightarrow> flags \<Rightarrow> flags res" where
  "check_mapping vm prot p v pte mapd =
     (let found_pfn = pfn pte in
      bindE (panic_if (found_pfn = 0 \<or> unat found_pfn > NUM_FRAMES - 1)
        ''PFN of page table entry cannot be zero or >= the number of frames in the system'') (\<lambda>_.
      bindE (flag_at prot found_pfn) (\<lambda>bp.
      bindE (panic_if (bp \<noteq> 0) ''Page table entry should not map to a protected frame'') (\<lambda>_.
      bindE (flag_at mapd found_pfn) (\<lambda>bm.
      bindE (panic_if (bm \<noteq> 0) ''Duplicate PFN found in page table'') (\<lambda>_.
      bindE (get_fte vm found_pfn) (\<lambda>fte.
      case process fte of
        None \<Rightarrow> Inl (Panic ''Mapped frame table entry contains invalid process pointer'')
      | Some q \<Rightarrow>
          bindE (panic_if (\<not> q < MAX_PID)
            ''Mapped frame table entry contains invalid process pointer'') (\<lambda>_.
          bindE (get_proc vm q) (\<lambda>pcb.
          bindE (panic_if (mapped fte = 0 \<or> pid pcb \<noteq> p \<or> vpn fte \<noteq> v)
            ''Frame table is inconsistent with page table entry'') (\<lambda>_.
            mark_flag mapd found_pfn))))))))))"

definition check_entry :: "vm \<Rightarrow> flags \<Rightarrow> u32 \<Rightarrow> pfn_t \<Rightarrow> flags \<Rightarrow> nat \<Rightarrow> flags res" where
  "check_entry vm prot p ptf mapd i =
     bindE (get_pte vm ptf (of_nat i)) (\<lambda>pte.
     bindE (panic_if (valid pte \<noteq> 0 \<and> valid pte \<noteq> 1)
       ''Page table entry valid bit should either be zero or one'') (\<lambda>_.
     bindE (panic_if (dirty pte \<noteq> 0 \<and> dirty pte \<noteq> 1)
       ''Page table entry dirty bit should either be zero or one'') (\<lambda>_.
     bindE (if valid pte \<noteq> 0 then check_mapping vm prot p (of_nat i) pte mapd else Inr mapd) (\<lambda>mapd'.
     if swap pte = 0 then Inr mapd'
     else bindE (swap_queue_find (swp vm) (swap pte)) (\<lambda>found.
       bindE (panic_if (found = None)
         ''Page table entry points to swap entry that does not exist'') (\<lambda>_. Inr mapd'))))))"

definition check_table :: "vm \<Rightarrow> flags \<Rightarrow> flags \<Rightarrow> nat \<Rightarrow> flags res" where
  "check_table vm prot mapd i =
     bindE (get_proc vm (of_nat i)) (\<lambda>pcb.
       if state pcb = PROC_RUNNING
       then foldE (check_entry vm prot (of_nat i) (saved_ptbr pcb)) mapd [0..<NUM_PAGES]
       else Inr mapd)"

definition check_mapped :: "vm \<Rightarrow> flags \<Rightarrow> unit \<Rightarrow> nat \<Rightarrow> unit res" where
  "check_mapped vm mapd _ i =
     bindE (get_fte vm (of_nat i)) (\<lambda>fte.
     bindE (flag_at mapd (of_nat i)) (\<lambda>b.
       panic_if (protected fte = 0 \<and> mapped fte \<noteq> 0 \<and> b = 0)
         ''Found frame table entry marked as mapped with no corresponding page table entry''))"

definition check_validity :: "vm \<Rightarrow> int \<Rightarrow> unit res" where
  "check_validity vm checks =
     bindE (get_fte vm 0) (\<lambda>fte0.
     bindE (panic_if (protected fte0 = 0) ''Frame 0 should be marked as protected'') (\<lambda>_.
     bindE (mark_flag (replicate NUM_FRAMES 0) 0) (\<lambda>prot0.
       if checks < 1 then Inr ()
       else
         bindE (foldE (check_ptbr vm) prot0 [0..<unat MAX_PID]) (\<lambda>prot.
         bindE (foldE (check_protected vm prot) () [0..<NUM_FRAMES]) (\<lambda>_.
         bindE (foldE (check_table vm prot) (replicate NUM_FRAMES 0) [0..<unat MAX_PID]) (\<lambda>mapd.
           foldE (check_mapped vm mapd) () [0..<NUM_FRAMES]))))))"

subsection \<open>The main loop\<close>

text \<open>A line of the trace as \<open>sscanf\<close> reads it; the last three are lines it cannot read.\<close>

datatype command =
    START u32
  | STOP u32
  | ACCESS u32 char vaddr_t u8
  | Bad_Start
  | Bad_Stop
  | Bad_Access

definition start_process :: "vm \<Rightarrow> u32 \<Rightarrow> vm res" where
  "start_process vm p =
     bindE (get_proc vm p) (\<lambda>pcb.
     bindE (set_proc vm p (pcb\<lparr>pid := p, state := PROC_RUNNING\<rparr>)) (\<lambda>vm1. proc_init vm1 p))"

definition stop_process :: "vm \<Rightarrow> u32 \<Rightarrow> vm res" where
  "stop_process vm p =
     bindE (proc_cleanup vm p) (\<lambda>vm1.
     bindE (get_proc vm1 p) (\<lambda>pcb. set_proc vm1 p (pcb\<lparr>saved_ptbr := 0, state := PROC_STOPPED\<rparr>)))"

text \<open>\<open>!current_process || current_process->pid != pid\<close>\<close>

definition switch_to :: "vm \<Rightarrow> u32 \<Rightarrow> vm res" where
  "switch_to vm p =
     bindE (case current_process vm of
         None \<Rightarrow> Inr True
       | Some c \<Rightarrow> bindE (get_proc vm c) (\<lambda>pcb. Inr (pid pcb \<noteq> p))) (\<lambda>switch.
       if switch
       then bindE (context_switch vm p) (\<lambda>vm1. Inr (vm1\<lparr>current_process := Some p\<rparr>))
       else Inr vm)"

text \<open>One line; the second component of the result is the byte that is printed for an access.\<close>

definition run_command :: "vm \<Rightarrow> command \<Rightarrow> (vm \<times> u8 option) res" where
  "run_command vm c =
     (case c of
        START p \<Rightarrow> bindE (start_process vm p) (\<lambda>vm'. Inr (vm', None))
      | STOP p \<Rightarrow> bindE (stop_process vm p) (\<lambda>vm'. Inr (vm', None))
      | ACCESS p rw address data \<Rightarrow>
          bindE (switch_to vm p) (\<lambda>vm1.
          bindE (mem_access vm1 address rw data) (\<lambda>(new_data, vm2).
            Inr (vm2, Some (if rw = CHR ''r'' then new_data else data))))
      | Bad_Start \<Rightarrow> Inl (Exit_Failure ''Unable to parse trace file: Invalid START command encountered'')
      | Bad_Stop \<Rightarrow> Inl (Exit_Failure ''Unable to parse trace file: Invalid STOP command encountered'')
      | Bad_Access \<Rightarrow>
          Inl (Exit_Failure ''Unable to parse trace file: Invalid memory access command encountered''))"

text \<open>A line with \<open>step++\<close> and, with the option \<open>-c\<close>, the consistency check.\<close>

record sim =
  machine :: vm
  printed :: "(u32 \<times> u8) list"
  step_count :: u32

definition sim_step :: "bool \<Rightarrow> sim \<Rightarrow> command \<Rightarrow> sim res" where
  "sim_step check_corruption s c =
     bindE (run_command (machine s) c) (\<lambda>(vm, out).
     bindE (if check_corruption then check_validity vm 1 else Inr ()) (\<lambda>_.
       Inr (s\<lparr>machine := vm,
              printed := (case out of None \<Rightarrow> printed s | Some b \<Rightarrow> printed s @ [(step_count s, b)]),
              step_count := step_count s + 1\<rparr>)))"

definition vm_main :: "bool \<Rightarrow> u8 \<Rightarrow> nat \<Rightarrow> command list \<Rightarrow> sim res" where
  "vm_main check_corruption algorithm room trace =
     (let replacement = (if algorithm = 0 then RANDOM else algorithm);
          vm = system_init (power_on replacement room) in
      bindE (if check_corruption then check_validity vm 0 else Inr ()) (\<lambda>_.
        foldE (sim_step check_corruption) \<lparr>machine = vm, printed = [], step_count = 0\<rparr> trace))"

end
