(* ===== verification/Vm_Swap_Map.thy ===== *)
theory Vm_Swap_Map
  imports Vm_Swap
begin

text \<open>
  The swap queue as a map from tokens to pages: the list of entries that the pointers represent,
  the map it stands for, and the effect of every operation on both. The locale \<open>swap_store\<close> states
  what the paging code relies on, and is interpreted on the operations of \<open>swapops.c\<close>.
\<close>

subsection \<open>The entries the pointers represent\<close>

definition nxt :: "swap_info_t heap \<Rightarrow> nat \<Rightarrow> nat option" where
  "nxt h a = (case cells h a of None \<Rightarrow> None | Some i \<Rightarrow> info_next i)"

definition entry :: "swap_info_t heap \<Rightarrow> nat \<Rightarrow> u64 \<times> page" where
  "entry h a = (case cells h a of None \<Rightarrow> (0, zero_page) | Some i \<Rightarrow> (token i, page_data i))"

definition swap_list :: "swap_state \<Rightarrow> nat list \<Rightarrow> bool" where
  "swap_list s as \<longleftrightarrow> heap_ok (swap_heap s)
     \<and> fifo (nxt (swap_heap s)) (q_head (swap_queue s)) (q_tail (swap_queue s)) as
     \<and> dom (cells (swap_heap s)) = set as
     \<and> q_size (swap_queue s) = of_nat (length as)
     \<and> distinct (map (fst \<circ> entry (swap_heap s)) as)
     \<and> (\<forall>a \<in> set as. fst (entry (swap_heap s) a) \<noteq> 0 \<and> fst (entry (swap_heap s) a) < TOKEN s)
     \<and> TOKEN s \<noteq> 0"

definition swap_inv :: "swap_state \<Rightarrow> bool" where
  "swap_inv s \<longleftrightarrow> (\<exists>as. swap_list s as)"

definition swap_lookup :: "swap_state \<Rightarrow> u64 \<Rightarrow> page option" where
  "swap_lookup s t = (case swap_queue_find s t of
     Inr (Some a) \<Rightarrow> map_option page_data (cells (swap_heap s) a) | _ \<Rightarrow> None)"

text \<open>How many more entries fit: in memory, and before the token counter wraps.\<close>

definition swap_room :: "swap_state \<Rightarrow> nat" where
  "swap_room s = min (avail (swap_heap s)) (2 ^ 64 - 1 - unat (TOKEN s))"

lemma nxt_store [simp]:
  "nxt (h\<lparr>cells := (cells h)(a \<mapsto> i)\<rparr>) = (nxt h)(a := info_next i)"
  by (auto simp: nxt_def)

lemma entry_store:
  "entry (h\<lparr>cells := (cells h)(a \<mapsto> i)\<rparr>) = (entry h)(a := (token i, page_data i))"
  by (auto simp: entry_def)

lemma nxt_cell: "cells h a = Some i \<Longrightarrow> nxt h a = info_next i"
  by (simp add: nxt_def)

lemma entry_cell: "cells h a = Some i \<Longrightarrow> entry h a = (token i, page_data i)"
  by (simp add: entry_def)

lemma set_next_Some:
  "cells h a = Some i \<Longrightarrow>
    set_next h (Some a) q = Inr (h\<lparr>cells := (cells h)(a \<mapsto> i\<lparr>info_next := q\<rparr>)\<rparr>)"
  by (simp add: set_next_def)

lemma swap_list_length: "swap_list s as \<Longrightarrow> length as \<le> brk (swap_heap s)"
proof -
  assume l: "swap_list s as"
  then have "heap_ok (swap_heap s)" by (simp add: swap_list_def)
  then have "dom (cells (swap_heap s)) \<subseteq> {..<brk (swap_heap s)}"
    by (auto simp: heap_ok_def)
  then have "set as \<subseteq> {..<brk (swap_heap s)}" using l unfolding swap_list_def by metis
  then have "card (set as) \<le> brk (swap_heap s)"
    using card_mono[of "{..<brk (swap_heap s)}" "set as"] by simp
  moreover have "distinct as" using l fifo_distinct unfolding swap_list_def by blast
  ultimately show ?thesis by (simp add: distinct_card)
qed

lemma swap_invI: "swap_list s as \<Longrightarrow> swap_inv s"
  by (auto simp: swap_inv_def)

lemma swap_list_token: "swap_list s as \<Longrightarrow> TOKEN s \<noteq> 0"
  by (simp add: swap_list_def)

lemma swap_list_det: "swap_list s as \<Longrightarrow> swap_list s bs \<Longrightarrow> as = bs"
  by (auto simp: swap_list_def dest: fifo_det)

subsection \<open>The search loops\<close>

lemma find_loop_eq:
  "chain (nxt h) p as None \<Longrightarrow> set as \<subseteq> dom (cells h) \<Longrightarrow> length as < fuel \<Longrightarrow>
    find_loop fuel h t p = Inr (List.find (\<lambda>a. fst (entry h a) = t) as)"
proof (induction as arbitrary: p fuel)
  case Nil
  then show ?case by (cases fuel) auto
next
  case (Cons a as)
  then obtain n i where "fuel = Suc n" "p = Some a" "cells h a = Some i" by (cases fuel) auto
  with Cons show ?case by (auto simp: nxt_cell entry_cell)
qed

lemma swap_queue_find_eq:
  "swap_list s as \<Longrightarrow>
    swap_queue_find s t = Inr (List.find (\<lambda>a. fst (entry (swap_heap s) a) = t) as)"
  unfolding swap_queue_find_def using swap_list_length[of s as]
  by (intro find_loop_eq) (auto simp: swap_list_def fifo_def)

lemma find_entry:
  "map_of (map (entry h) as) t
    = map_option (\<lambda>a. snd (entry h a)) (List.find (\<lambda>a. fst (entry h a) = t) as)"
proof (induction as)
  case Nil
  then show ?case by simp
next
  case (Cons a as)
  then show ?case by (cases "entry h a") auto
qed

lemma swap_lookup_eq:
  assumes "swap_list s as"
  shows "swap_lookup s t = map_of (map (entry (swap_heap s)) as) t"
proof (cases "List.find (\<lambda>a. fst (entry (swap_heap s) a) = t) as")
  case None
  with swap_queue_find_eq[OF assms, of t] show ?thesis
    by (simp add: swap_lookup_def find_entry)
next
  case (Some a)
  then have "a \<in> dom (cells (swap_heap s))"
    using assms by (auto simp: swap_list_def find_Some_iff in_set_conv_nth)
  then obtain i where "cells (swap_heap s) a = Some i" by blast
  with Some swap_queue_find_eq[OF assms, of t] show ?thesis
    by (simp add: swap_lookup_def find_entry entry_cell)
qed

lemma swap_lookup_map:
  "swap_list s as \<Longrightarrow> swap_heap s = h \<Longrightarrow> swap_lookup s = map_of (map (entry h) as)"
  by (auto simp: fun_eq_iff swap_lookup_eq)

lemma swap_lookup_None_iff:
  "swap_list s as \<Longrightarrow> swap_lookup s t = None \<longleftrightarrow> t \<notin> (fst \<circ> entry (swap_heap s)) ` set as"
  by (simp add: swap_lookup_eq map_of_eq_None_iff image_comp)

lemma swap_lookup_0: "swap_inv s \<Longrightarrow> swap_lookup s 0 = None"
  by (auto simp: swap_inv_def swap_lookup_None_iff swap_list_def)

text \<open>An entry that is found, in its place in the queue.\<close>

lemma swap_found:
  assumes "swap_list s as" and "swap_lookup s t = Some d"
  obtains xs a ys i where "as = xs @ a # ys" "cells (swap_heap s) a = Some i"
    "token i = t" "page_data i = d" "swap_queue_find s t = Inr (Some a)"
    "\<forall>x \<in> set xs. fst (entry (swap_heap s) x) \<noteq> t"
proof -
  from assms obtain a where a: "List.find (\<lambda>a. fst (entry (swap_heap s) a) = t) as = Some a"
    "d = snd (entry (swap_heap s) a)"
    by (auto simp: swap_lookup_eq find_entry)
  then obtain k where k: "k < length as" "fst (entry (swap_heap s) (as ! k)) = t" "a = as ! k"
    "\<forall>j < k. fst (entry (swap_heap s) (as ! j)) \<noteq> t"
    by (auto simp: find_Some_iff)
  then have "as = take k as @ a # drop (Suc k) as" by (simp add: id_take_nth_drop)
  moreover have "a \<in> dom (cells (swap_heap s))"
    using assms(1) k by (auto simp: swap_list_def)
  then obtain i where "cells (swap_heap s) a = Some i" by blast
  moreover have "\<forall>x \<in> set (take k as). fst (entry (swap_heap s) x) \<noteq> t"
    using k by (auto simp: in_set_conv_nth)
  ultimately show thesis
    using that[of "take k as" a "drop (Suc k) as" i] a k swap_queue_find_eq[OF assms(1), of t]
    by (simp add: entry_cell)
qed

subsection \<open>Reading and writing\<close>

lemma swap_read_eq:
  assumes "swap_inv s"
  shows "swap_read s pte = (case swap_lookup s (swap pte) of
      None \<Rightarrow> Inl (Panic ''Attempted to read an invalid swap entry.'') | Some d \<Rightarrow> Inr d)"
proof -
  obtain as where as: "swap_list s as" using assms by (auto simp: swap_inv_def)
  show ?thesis
  proof (cases "swap_lookup s (swap pte)")
    case None
    then have "List.find (\<lambda>a. fst (entry (swap_heap s) a) = swap pte) as = None"
      unfolding find_None_iff using as by (simp add: swap_lookup_None_iff image_iff) metis
    with None show ?thesis by (simp add: swap_read_def swap_queue_find_eq[OF as])
  next
    case (Some d)
    obtain a i where "cells (swap_heap s) a = Some i" "page_data i = d"
      "swap_queue_find s (swap pte) = Inr (Some a)"
      using swap_found[OF as Some] by metis
    with Some show ?thesis by (simp add: swap_read_def)
  qed
qed

lemma map_of_update_one:
  assumes "distinct (map (fst \<circ> f) (xs @ a # ys))" and "a \<notin> set (xs @ ys)" and "fst (f a) = t"
  shows "map_of (map (f(a := (t, d))) (xs @ a # ys)) = (map_of (map f (xs @ a # ys)))(t \<mapsto> d)"
proof -
  have same: "map (f(a := (t, d))) xs = map f xs" "map (f(a := (t, d))) ys = map f ys"
    using assms(2) by auto
  have none: "map_of (map f xs) t = None"
    using assms(1,3) by (force simp: map_of_eq_None_iff)
  obtain v where v: "f a = (t, v)" using assms(3) by (metis prod.collapse)
  have "map (f(a := (t, d))) (xs @ a # ys) = map f xs @ (t, d) # map f ys"
    unfolding map_append list.map same by simp
  moreover have "map f (xs @ a # ys) = map f xs @ (t, v) # map f ys"
    using v by simp
  ultimately show ?thesis
    by (simp only: map_of_append map_of.simps fst_conv snd_conv)
      (simp add: none map_add_upd_left domIff)
qed

lemma swap_write_existing:
  assumes inv: "swap_inv s" and found: "swap_lookup s (swap pte) = Some d0"
  shows "\<exists>s'. swap_write s pte d = Inr (s', pte) \<and> swap_inv s'
    \<and> swap_lookup s' = (swap_lookup s)(swap pte \<mapsto> d) \<and> swap_room s' = swap_room s"
proof -
  obtain as where as: "swap_list s as" using inv by (auto simp: swap_inv_def)
  obtain xs a ys i where a: "as = xs @ a # ys" "cells (swap_heap s) a = Some i"
    "token i = swap pte" "page_data i = d0" "swap_queue_find s (swap pte) = Inr (Some a)"
    "\<forall>x \<in> set xs. fst (entry (swap_heap s) x) \<noteq> swap pte"
    using swap_found[OF as found] by metis
  let ?h = "(swap_heap s)\<lparr>cells := (cells (swap_heap s))(a \<mapsto> i\<lparr>page_data := d\<rparr>)\<rparr>"
  let ?s = "s\<lparr>swap_heap := ?h\<rparr>"
  have eq: "swap_write s pte d = Inr (?s, pte)"
    using a(2,5) by (simp add: swap_write_def)
  have nxt': "nxt ?h = nxt (swap_heap s)" using a(2) by (auto simp: nxt_cell)
  have fst': "fst (entry ?h x) = fst (entry (swap_heap s) x)" for x
    using a(2) by (simp add: entry_store entry_cell)
  have "heap_ok ?h" "dom (cells ?h) = set as"
    using as a(1,2) by (auto simp: swap_list_def intro: heap_ok_store)
  then have list': "swap_list ?s as"
    using as fst' nxt' by (simp add: swap_list_def comp_def del: nxt_store fun_upd_apply)
  have "swap_lookup ?s = (swap_lookup s)(swap pte \<mapsto> d)"
  proof -
    have "distinct as" using as fifo_distinct by (auto simp: swap_list_def)
    then have "map_of (map (entry ?h) as) = (map_of (map (entry (swap_heap s)) as))(swap pte \<mapsto> d)"
      using map_of_update_one[of "entry (swap_heap s)" xs a ys "swap pte" d] as a
      by (simp add: entry_store swap_list_def entry_cell)
    then show ?thesis
      using swap_lookup_eq[OF as] swap_lookup_eq[OF list'] by (simp add: fun_eq_iff)
  qed
  moreover have "swap_room ?s = swap_room s" by (simp add: swap_room_def)
  ultimately show ?thesis using eq list' by (auto simp: swap_inv_def)
qed

subsection \<open>A new entry\<close>

lemma queue_grow_simps [simp]:
  "q_head (queue_grow q) = q_head q" "q_tail (queue_grow q) = q_tail q"
  "q_size (queue_grow q) = q_size q + 1"
  by (simp_all add: queue_grow_def Let_def)

lemma enqueue_eq:
  assumes q: "fifo (nxt (swap_heap s)) (q_head (swap_queue s)) (q_tail (swap_queue s)) as"
    and cells: "set as \<subseteq> dom (cells (swap_heap s))" "cells (swap_heap s) a = Some i" "a \<notin> set as"
  shows "\<exists>h' q'. swap_queue_enqueue s a = Inr (s\<lparr>swap_heap := h', swap_queue := q'\<rparr>)
    \<and> fifo (nxt h') (q_head q') (q_tail q') (as @ [a]) \<and> entry h' = entry (swap_heap s)
    \<and> dom (cells h') = dom (cells (swap_heap s)) \<and> brk h' = brk (swap_heap s)
    \<and> avail h' = avail (swap_heap s) \<and> q_size q' = q_size (swap_queue s) + 1"
proof -
  let ?h = "(swap_heap s)\<lparr>cells := (cells (swap_heap s))(a \<mapsto> i\<lparr>info_next := None\<rparr>)\<rparr>"
  have next_a: "set_next (swap_heap s) (Some a) None = Inr ?h"
    using cells(2) by (rule set_next_Some)
  have ent: "entry ?h = entry (swap_heap s)" and dom: "dom (cells ?h) = dom (cells (swap_heap s))"
    using cells(2) by (auto simp: entry_store entry_cell fun_eq_iff)
  show ?thesis
  proof (cases "as = []")
    case True
    then have "q_head (swap_queue s) = None" using fifo_head_None[OF q] by simp
    moreover have "fifo (nxt ?h) (Some a) (Some a) [a]" by (simp add: fifo_def)
    ultimately show ?thesis
      using True next_a ent dom
      by (intro exI[of _ ?h] exI[of _ "queue_grow ((swap_queue s)\<lparr>q_head := Some a, q_tail := Some a\<rparr>)"])
        (simp add: swap_queue_enqueue_def Let_def)
  next
    case False
    then obtain b where tail: "q_tail (swap_queue s) = Some (last as)"
      and hd: "q_head (swap_queue s) = Some b"
      using q fifo_head_None[OF q] by (auto simp: fifo_def)
    have ne: "last as \<noteq> a" using False cells(3) by (metis last_in_set)
    obtain j where j: "cells (swap_heap s) (last as) = Some j"
      using cells(1) False last_in_set by blast
    let ?h' = "?h\<lparr>cells := (cells ?h)(last as \<mapsto> j\<lparr>info_next := Some a\<rparr>)\<rparr>"
    have "set_next ?h (Some (last as)) (Some a) = Inr ?h'"
      using j ne by (intro set_next_Some) simp
    moreover have "fifo (nxt ?h') (q_head (swap_queue s)) (Some a) (as @ [a])"
    proof -
      have "nxt ?h' = (nxt (swap_heap s))(a := None, last as \<mapsto> a)"
        by (auto simp: nxt_def fun_eq_iff)
      then show ?thesis
        using fifo_enqueue[of "nxt (swap_heap s)" _ "last as" as a] q tail cells(3) by simp
    qed
    moreover have "entry ?h' = entry (swap_heap s)"
      using j ne cells(2) by (auto simp: entry_def fun_eq_iff)
    moreover have "dom (cells ?h') = dom (cells (swap_heap s))"
      using j dom by auto
    ultimately show ?thesis
      using next_a tail hd
      by (intro exI[of _ ?h'] exI[of _ "queue_grow ((swap_queue s)\<lparr>q_tail := Some a\<rparr>)"])
        (simp add: swap_queue_enqueue_def Let_def)
  qed
qed

lemma swap_list_extend:
  assumes as: "swap_list s as" and room: "0 < swap_room s"
    and q: "fifo (nxt h) (q_head q) (q_tail q) (as @ [a])" "q_size q = q_size (swap_queue s) + 1"
    and h: "entry h = (entry (swap_heap s))(a := (TOKEN s, d))" "heap_ok h"
      "dom (cells h) = insert a (set as)" and a: "a \<notin> set as"
  shows "swap_list \<lparr>swap_heap = h, TOKEN = TOKEN s + 1, swap_queue = q\<rparr> (as @ [a])"
proof -
  have "unat (TOKEN s) < 2 ^ 64 - 1" using room by (simp add: swap_room_def)
  then have T: "unat (TOKEN s + 1) = unat (TOKEN s) + 1"
    by (simp add: unat_word_ariths)
  have le: "t < TOKEN s \<Longrightarrow> t < TOKEN s + 1" for t
    using T by (simp add: word_less_nat_alt)
  have old: "fst (entry h x) = fst (entry (swap_heap s) x)" if "x \<in> set as" for x
    using that a h(1) by auto
  have "distinct (map (\<lambda>x. fst (entry h x)) (as @ [a]))"
  proof -
    have eq: "map (\<lambda>x. fst (entry h x)) as = map (\<lambda>x. fst (entry (swap_heap s) x)) as"
      using old by simp
    have "distinct (map (\<lambda>x. fst (entry h x)) as)"
      unfolding eq using as by (simp add: swap_list_def comp_def)
    moreover have "fst (entry h x) < TOKEN s" if "x \<in> set as" for x
      using old[OF that] as that by (simp add: swap_list_def)
    then have "TOKEN s \<notin> (\<lambda>x. fst (entry h x)) ` set as" by fastforce
    ultimately show ?thesis using h(1) by simp
  qed
  moreover have "TOKEN s < TOKEN s + 1" "TOKEN s + 1 \<noteq> 0"
    using T by (auto simp: word_less_nat_alt)
  ultimately show ?thesis
    using as q h le old by (auto simp: swap_list_def comp_def)
qed

lemma swap_write_new:
  assumes inv: "swap_inv s" and new: "swap_lookup s (swap pte) = None" and room: "0 < swap_room s"
  shows "\<exists>s'. swap_write s pte d = Inr (s', pte\<lparr>swap := TOKEN s\<rparr>) \<and> swap_inv s'
    \<and> swap_lookup s (TOKEN s) = None \<and> TOKEN s \<noteq> 0
    \<and> swap_lookup s' = (swap_lookup s)(TOKEN s \<mapsto> d) \<and> swap_room s \<le> swap_room s' + 1"
proof -
  obtain as where as: "swap_list s as" using inv by (auto simp: swap_inv_def)
  let ?h0 = "swap_heap s" and ?a = "brk (swap_heap s)"
  have ok: "heap_ok ?h0" and dom: "dom (cells ?h0) = set as" using as by (simp_all add: swap_list_def)
  have a: "?a \<notin> set as" using heap_fresh[OF ok] dom by auto
  have av: "avail ?h0 \<noteq> 0" using room by (auto simp: swap_room_def)
  let ?i = "\<lparr>token = TOKEN s, page_data = zero_page, info_next = None\<rparr>"
  let ?h1 = "?h0\<lparr>cells := (cells ?h0)(?a \<mapsto> ?i), brk := Suc ?a, avail := avail ?h0 - 1\<rparr>"
  let ?s1 = "s\<lparr>swap_heap := ?h1, TOKEN := TOKEN s + 1\<rparr>"
  have create: "create_entry s = Inr (?a, ?s1)"
    using av by (simp add: create_entry_def heap_alloc_def)
  have nxt1: "nxt ?h1 x = nxt ?h0 x" if "x \<in> set as" for x
    using that a by (auto simp: nxt_def)
  have "fifo (nxt ?h1) (q_head (swap_queue ?s1)) (q_tail (swap_queue ?s1)) as"
    using as nxt1 by (auto simp: swap_list_def intro: fifo_cong)
  then obtain h q where hq: "swap_queue_enqueue ?s1 ?a = Inr (?s1\<lparr>swap_heap := h, swap_queue := q\<rparr>)"
    "fifo (nxt h) (q_head q) (q_tail q) (as @ [?a])" "entry h = entry ?h1"
    "dom (cells h) = insert ?a (set as)" "brk h = Suc ?a" "avail h = avail ?h0 - 1"
    "q_size q = q_size (swap_queue s) + 1"
    using enqueue_eq[of ?s1 as ?a ?i] a dom by auto
  obtain j where j: "cells h ?a = Some j" using hq(4) by auto
  have tok: "token j = TOKEN s"
    using fun_cong[OF hq(3), of ?a] entry_cell[OF j] by (simp add: entry_def)
  let ?h2 = "h\<lparr>cells := (cells h)(?a \<mapsto> j\<lparr>page_data := d\<rparr>)\<rparr>"
  let ?s' = "\<lparr>swap_heap = ?h2, TOKEN = TOKEN s + 1, swap_queue = q\<rparr>"
  have none: "List.find (\<lambda>a. fst (entry ?h0 a) = swap pte) as = None"
    unfolding find_None_iff using new as by (simp add: swap_lookup_None_iff image_iff) metis
  have eq: "swap_write s pte d = Inr (?s', pte\<lparr>swap := TOKEN s\<rparr>)"
    using none create hq(1) j tok by (simp add: swap_write_def swap_queue_find_eq[OF as])
  have ent: "entry ?h2 = (entry ?h0)(?a := (TOKEN s, d))"
    using hq(3) tok by (auto simp: entry_store entry_def fun_eq_iff)
  have nxt2: "nxt ?h2 = nxt h" using j by (auto simp: nxt_cell)
  have list': "swap_list ?s' (as @ [?a])"
  proof (rule swap_list_extend[OF as room])
    show "fifo (nxt ?h2) (q_head q) (q_tail q) (as @ [?a])" using hq(2) nxt2 by simp
    show "heap_ok ?h2" using hq(4,5) ok dom
      by (auto simp: heap_ok_def set_eq_iff dom_def less_Suc_eq)
    show "dom (cells ?h2) = insert ?a (set as)" using hq(4) by auto
  qed (use hq(7) ent a in auto)
  have fresh: "swap_lookup s (TOKEN s) = None"
    unfolding swap_lookup_None_iff[OF as] using as by (fastforce simp: swap_list_def)
  have old: "swap_lookup s = map_of (map (entry ?h0) as)"
    using swap_lookup_eq[OF as] by auto
  have ents: "map (entry ?h2) (as @ [?a]) = map (entry ?h0) as @ [(TOKEN s, d)]"
    using ent a by auto
  have "swap_lookup ?s' = map_of (map (entry ?h2) (as @ [?a]))"
    by (rule ext) (simp add: swap_lookup_eq[OF list'])
  then have "swap_lookup ?s' = map_of (map (entry ?h0) as @ [(TOKEN s, d)])"
    unfolding ents .
  then have "swap_lookup ?s' = (swap_lookup s)(TOKEN s \<mapsto> d)"
    using fresh old by (simp add: map_add_upd_left domIff)
  moreover have "swap_room s \<le> swap_room ?s' + 1"
  proof -
    have "unat (TOKEN s) < 2 ^ 64 - 1" using room by (simp add: swap_room_def)
    then have "unat (TOKEN s + 1) = unat (TOKEN s) + 1" by (simp add: unat_word_ariths)
    then show ?thesis using hq(6) av by (simp add: swap_room_def)
  qed
  ultimately show ?thesis
    using eq list' fresh as swap_list_token[OF as] swap_invI[OF list'] by blast
qed

subsection \<open>Freeing an entry\<close>

lemma dequeue_loop_eq:
  "chain (nxt h) p (xs @ a # ys) None \<Longrightarrow> set (xs @ a # ys) \<subseteq> dom (cells h) \<Longrightarrow>
    length xs < fuel \<Longrightarrow> fst (entry h a) = t \<Longrightarrow> \<forall>x \<in> set xs. fst (entry h x) \<noteq> t \<Longrightarrow>
    dequeue_loop fuel h t prev p = Inr (if xs = [] then prev else Some (last xs), Some a)"
proof (induction xs arbitrary: p fuel prev)
  case Nil
  then obtain n i where "fuel = Suc n" "p = Some a" "cells h a = Some i" by (cases fuel) auto
  with Nil show ?case by (simp add: entry_cell)
next
  case (Cons x xs)
  then obtain n i where n: "fuel = Suc n" "p = Some x" "cells h x = Some i" by (cases fuel) auto
  moreover have "dequeue_loop n h t (Some x) (nxt h x)
      = Inr (if xs = [] then Some x else Some (last xs), Some a)"
    using Cons.prems n by (intro Cons.IH) auto
  ultimately show ?case using Cons.prems by (auto simp: nxt_cell entry_cell)
qed

lemma unlink_entry_eq:
  assumes q: "fifo (nxt h) (q_head q) (q_tail q) (xs @ a # ys)"
    and cells: "set (xs @ a # ys) \<subseteq> dom (cells h)"
  shows "\<exists>h' q'. unlink_entry h q (if xs = [] then None else Some (last xs)) (Some a) = Inr (h', q')
    \<and> fifo (nxt h') (q_head q') (q_tail q') (xs @ ys) \<and> entry h' = entry h
    \<and> dom (cells h') = dom (cells h) \<and> brk h' = brk h \<and> avail h' = avail h
    \<and> q_size q' = q_size q \<and> q_size_max q' = q_size_max q"
proof -
  obtain i where i: "cells h a = Some i" using cells by auto
  note un = fifo_unlink[OF q]
  show ?thesis
  proof (cases "xs = []")
    case True
    then show ?thesis using un i by (auto simp: unlink_entry_def nxt_cell)
  next
    case False
    then obtain j where j: "cells h (last xs) = Some j" using cells last_in_set by fastforce
    have ent: "entry (h\<lparr>cells := (cells h)(last xs \<mapsto> j\<lparr>info_next := nxt h a\<rparr>)\<rparr>) = entry h"
      using j by (auto simp: entry_def fun_eq_iff)
    have "dom (cells (h\<lparr>cells := (cells h)(last xs \<mapsto> j\<lparr>info_next := nxt h a\<rparr>)\<rparr>)) = dom (cells h)"
      using j by auto
    then show ?thesis
      using False un i j ent by (auto simp: unlink_entry_def nxt_cell set_next_Some)
  qed
qed

lemma map_of_remove_one:
  assumes "distinct (map (fst \<circ> f) (xs @ a # ys))" and "fst (f a) = t"
  shows "map_of (map f (xs @ ys)) = (map_of (map f (xs @ a # ys)))(t := None)"
proof -
  have "map_of (map f xs) t = None" "map_of (map f ys) t = None"
    using assms by (force simp: map_of_eq_None_iff)+
  moreover obtain v where "f a = (t, v)" using assms(2) by (metis prod.collapse)
  ultimately show ?thesis by (auto simp: fun_eq_iff map_add_def split: option.splits)
qed

lemma swap_list_shrink:
  assumes as: "swap_list s (xs @ a # ys)"
    and q: "fifo (nxt h) (q_head q) (q_tail q) (xs @ ys)" "q_size q = q_size (swap_queue s) - 1"
    and h: "\<And>x. x \<in> set (xs @ ys) \<Longrightarrow> entry h x = entry (swap_heap s) x"
      "dom (cells h) = set (xs @ ys)" "brk h = brk (swap_heap s)"
  shows "swap_list (s\<lparr>swap_heap := h, swap_queue := q\<rparr>) (xs @ ys)"
proof -
  have dom: "dom (cells (swap_heap s)) = insert a (set (xs @ ys))"
    using as by (auto simp: swap_list_def)
  have "heap_ok h"
  proof -
    have "heap_ok (swap_heap s)" using as by (simp add: swap_list_def)
    then have "b < brk (swap_heap s)" if "b \<in> dom (cells (swap_heap s))" for b
      using that unfolding heap_ok_def by blast
    then have "b < brk h" if "b \<in> dom (cells h)" for b
      using that dom h(2,3) by auto
    then show ?thesis by (auto simp: heap_ok_def)
  qed
  moreover have eq: "map (fst \<circ> entry h) (xs @ ys) = map (fst \<circ> entry (swap_heap s)) (xs @ ys)"
    using h(1) by auto
  have "distinct (map (fst \<circ> entry h) (xs @ ys))"
    unfolding eq using as by (auto simp: swap_list_def)
  ultimately show ?thesis
    using as q h(1,2) by (auto simp: swap_list_def)
qed

lemma swap_free_eq:
  assumes inv: "swap_inv s" and found: "swap_lookup s (swap pte) = Some d"
  shows "\<exists>s'. swap_free s pte = Inr (s', pte\<lparr>swap := 0\<rparr>) \<and> swap_inv s'
    \<and> swap_lookup s' = (swap_lookup s)(swap pte := None) \<and> swap_room s \<le> swap_room s'"
proof -
  obtain as where "swap_list s as" using inv by (auto simp: swap_inv_def)
  then obtain xs a ys i where as: "swap_list s (xs @ a # ys)"
    and i: "cells (swap_heap s) a = Some i" "token i = swap pte"
      "swap_queue_find s (swap pte) = Inr (Some a)"
      "\<forall>x \<in> set xs. fst (entry (swap_heap s) x) \<noteq> swap pte"
    using swap_found[OF _ found] by metis
  let ?h = "swap_heap s" and ?q = "swap_queue s"
  have q: "fifo (nxt ?h) (q_head ?q) (q_tail ?q) (xs @ a # ys)"
    and dom: "dom (cells ?h) = set (xs @ a # ys)"
    using as by (simp_all add: swap_list_def)
  have dist: "a \<notin> set (xs @ ys)" using fifo_distinct[OF q] by simp
  have loop: "dequeue_loop (brk ?h + 1) ?h (swap pte) None (q_head ?q)
      = Inr (if xs = [] then None else Some (last xs), Some a)"
    using q dom i swap_list_length[OF as] unfolding fifo_def
    by (intro dequeue_loop_eq[of _ _ xs a ys]) (auto simp: entry_cell)
  obtain h' q' where u: "unlink_entry ?h ?q (if xs = [] then None else Some (last xs)) (Some a) = Inr (h', q')"
    "fifo (nxt h') (q_head q') (q_tail q') (xs @ ys)" "entry h' = entry ?h"
    "dom (cells h') = dom (cells ?h)" "brk h' = brk ?h" "avail h' = avail ?h" "q_size q' = q_size ?q"
    using unlink_entry_eq[OF q] dom by auto
  obtain j where j: "cells h' a = Some j" using u(4) dom by auto
  let ?h2 = "h'\<lparr>cells := (cells h')(a := None), avail := Suc (avail h')\<rparr>"
  let ?q2 = "q'\<lparr>q_size := q_size q' - 1\<rparr>"
  let ?s = "s\<lparr>swap_heap := ?h2, swap_queue := ?q2\<rparr>"
  have "swap_queue_dequeue s (swap pte) = Inr ?s"
    using loop u(1) j by (simp add: swap_queue_dequeue_def set_next_Some heap_free_def)
  then have eq: "swap_free s pte = Inr (?s, pte\<lparr>swap := 0\<rparr>)"
    using i(3) by (simp add: swap_free_def)
  have ent: "entry ?h2 x = entry ?h x" if "x \<in> set (xs @ ys)" for x
    using that dist fun_cong[OF u(3), of x] by (auto simp: entry_def)
  have list': "swap_list ?s (xs @ ys)"
  proof (rule swap_list_shrink[OF as])
    show "fifo (nxt ?h2) (q_head ?q2) (q_tail ?q2) (xs @ ys)"
      using u(2) dist by (auto simp: nxt_def intro: fifo_cong)
    show "dom (cells ?h2) = set (xs @ ys)" using u(4) dom dist by auto
  qed (use u ent in auto)
  have ents: "map (entry ?h2) (xs @ ys) = map (entry ?h) (xs @ ys)" using ent by auto
  have new: "swap_lookup ?s = map_of (map (entry ?h2) (xs @ ys))"
    using list' by (rule swap_lookup_map) simp
  have old: "swap_lookup s = map_of (map (entry ?h) (xs @ a # ys))"
    by (rule ext) (rule swap_lookup_eq[OF as])
  have "map_of (map (entry ?h) (xs @ ys)) = (map_of (map (entry ?h) (xs @ a # ys)))(swap pte := None)"
    using as i by (intro map_of_remove_one) (auto simp: swap_list_def entry_cell)
  then have "swap_lookup ?s = (swap_lookup s)(swap pte := None)"
    unfolding new old ents .
  moreover have "swap_room s \<le> swap_room ?s" using u(6) by (simp add: swap_room_def)
  ultimately show ?thesis using eq list' by (auto simp: swap_inv_def)
qed

subsection \<open>The contract\<close>

text \<open>
  What the paging code relies on: pages are stored under tokens. \<open>write\<close> stores a page under the
  token of the page table entry, or under a new non-zero token when the entry has none; \<open>room\<close>
  bounds how many new tokens can still be made.
\<close>

locale swap_store =
  fixes lookup :: "'s \<Rightarrow> u64 \<Rightarrow> page option"
    and read :: "'s \<Rightarrow> pte_t \<Rightarrow> page res"
    and put :: "'s \<Rightarrow> pte_t \<Rightarrow> page \<Rightarrow> ('s \<times> pte_t) res"
    and free :: "'s \<Rightarrow> pte_t \<Rightarrow> ('s \<times> pte_t) res"
    and inv :: "'s \<Rightarrow> bool"
    and room :: "'s \<Rightarrow> nat"
  assumes lookup_0: "inv s \<Longrightarrow> lookup s 0 = None"
    and read_law: "inv s \<Longrightarrow> lookup s (swap pte) = Some d \<Longrightarrow> read s pte = Inr d"
    and put_old: "inv s \<Longrightarrow> lookup s (swap pte) = Some d0 \<Longrightarrow>
      \<exists>s'. put s pte d = Inr (s', pte) \<and> inv s' \<and> lookup s' = (lookup s)(swap pte \<mapsto> d)
        \<and> room s \<le> room s'"
    and put_new: "inv s \<Longrightarrow> lookup s (swap pte) = None \<Longrightarrow> 0 < room s \<Longrightarrow>
      \<exists>s' t. put s pte d = Inr (s', pte\<lparr>swap := t\<rparr>) \<and> inv s' \<and> t \<noteq> 0 \<and> lookup s t = None
        \<and> lookup s' = (lookup s)(t \<mapsto> d) \<and> room s \<le> room s' + 1"
    and free_law: "inv s \<Longrightarrow> lookup s (swap pte) = Some d0 \<Longrightarrow>
      \<exists>s'. free s pte = Inr (s', pte\<lparr>swap := 0\<rparr>) \<and> inv s' \<and> lookup s' = (lookup s)(swap pte := None)
        \<and> room s \<le> room s'"
begin

lemma put_any:
  assumes "inv s" and "0 < room s"
  shows "\<exists>s' t. put s pte d = Inr (s', pte\<lparr>swap := t\<rparr>) \<and> inv s' \<and> t \<noteq> 0
    \<and> lookup s' = (lookup s)(t \<mapsto> d) \<and> room s \<le> room s' + 1
    \<and> (if lookup s (swap pte) = None then lookup s t = None else t = swap pte)"
proof (cases "lookup s (swap pte)")
  case None
  from put_new[OF assms(1) None assms(2), of d] show ?thesis using None by auto
next
  case (Some d0)
  moreover have "swap pte \<noteq> 0" using Some lookup_0[OF assms(1)] by (metis option.distinct(1))
  ultimately show ?thesis
    using put_old[OF assms(1) Some, of d] by (auto intro!: exI[of _ "swap pte"])
qed

text \<open>A written page is read back through the entry that \<open>put\<close> returns.\<close>

lemma read_after_put:
  assumes "inv s" and "0 < room s"
  shows "\<exists>s' pte'. put s pte d = Inr (s', pte') \<and> inv s' \<and> read s' pte' = Inr d \<and> swap pte' \<noteq> 0
    \<and> (\<forall>t. t \<noteq> swap pte' \<longrightarrow> lookup s' t = lookup s t)
    \<and> (lookup s (swap pte) \<noteq> None \<longrightarrow> pte' = pte)"
proof (cases "lookup s (swap pte)")
  case None
  then obtain s' t where "put s pte d = Inr (s', pte\<lparr>swap := t\<rparr>)" "inv s'" "t \<noteq> 0"
    "lookup s' = (lookup s)(t \<mapsto> d)"
    using put_new[OF assms(1) None assms(2)] by metis
  with None show ?thesis by (auto intro: read_law)
next
  case (Some d0)
  then obtain s' where s': "put s pte d = Inr (s', pte)" "inv s'"
    "lookup s' = (lookup s)(swap pte \<mapsto> d)"
    using put_old[OF assms(1) Some] by metis
  moreover have "swap pte \<noteq> 0" using Some lookup_0[OF assms(1)] by (metis option.distinct(1))
  ultimately show ?thesis by (auto intro: read_law)
qed

text \<open>Storing a page under a new token and freeing it again leaves every token as it was.\<close>

lemma free_after_put:
  assumes "inv s" and "0 < room s" and "lookup s (swap pte) = None"
  shows "\<exists>s' s''. bindE (put s pte d) (\<lambda>(s', pte'). free s' pte') = Inr (s'', pte\<lparr>swap := 0\<rparr>)
    \<and> inv s'' \<and> lookup s'' = lookup s"
proof -
  obtain s' t where s': "put s pte d = Inr (s', pte\<lparr>swap := t\<rparr>)" "inv s'" "lookup s t = None"
    "lookup s' = (lookup s)(t \<mapsto> d)"
    using put_new[OF assms(1,3,2)] by metis
  then obtain s'' where "free s' (pte\<lparr>swap := t\<rparr>) = Inr (s'', pte\<lparr>swap := 0\<rparr>)" "inv s''"
    "lookup s'' = (lookup s')(t := None)"
    using free_law[of s' "pte\<lparr>swap := t\<rparr>" d] by auto
  with s' show ?thesis by (auto simp: fun_upd_idem)
qed

end

interpretation sw: swap_store swap_lookup swap_read swap_write swap_free swap_inv swap_room
proof (unfold_locales, goal_cases)
  case (1 s)
  then show ?case by (rule swap_lookup_0)
next
  case (2 s pte d)
  then show ?case by (simp add: swap_read_eq)
next
  case (3 s pte d0 d)
  then show ?case using swap_write_existing[of s pte d0 d] by auto
next
  case (4 s pte d)
  then show ?case using swap_write_new[of s pte d] by blast
next
  case (5 s pte d0)
  then show ?case using swap_free_eq[of s pte d0] by auto
qed

lemma swap_init_inv: "swap_inv (swap_init n)" "swap_lookup (swap_init n) t = None"
proof -
  have l: "swap_list (swap_init n) []"
    by (simp add: swap_list_def swap_init_def heap_ok_def fifo_empty)
  then show "swap_inv (swap_init n)" by (auto simp: swap_inv_def)
  show "swap_lookup (swap_init n) t = None" by (simp add: swap_lookup_eq[OF l])
qed

lemma swap_room_init: "swap_room (swap_init n) = min n (2 ^ 64 - 2)"
  by (simp add: swap_room_def swap_init_def)

end
