(* ===== verification/Vm_View.thy ===== *)
theory Vm_View
  imports Vm_Sim Vm_Swap_Map
begin

text \<open>
  The virtual pages of the simulator as an abstract structure: the page table entries \<open>E\<close> by
  process and page, the frame table \<open>F\<close>, the contents \<open>M\<close> of the data frames and the swap map
  \<open>L\<close>. The invariant on these four and the steps that paging takes on them (evict, install, write,
  release), each with its effect on the page that a process sees (\<open>view\<close>).
\<close>

type_synonym entries = "u32 \<Rightarrow> vpn_t \<Rightarrow> pte_t"

definition put_entry :: "entries \<Rightarrow> u32 \<Rightarrow> vpn_t \<Rightarrow> pte_t \<Rightarrow> entries" where
  "put_entry E p v e = E(p := (E p)(v := e))"

lemma put_entry_apply [simp]:
  "put_entry E p v e q w = (if q = p \<and> w = v then e else E q w)"
  by (simp add: put_entry_def)

lemma put_entry_twice [simp]: "put_entry (put_entry E p v e) p v e' = put_entry E p v e'"
  by (simp add: put_entry_def)

text \<open>The page a frame holds, according to the frame table.\<close>

definition owner :: "(pfn_t \<Rightarrow> fte_t) \<Rightarrow> pfn_t \<Rightarrow> (u32 \<times> vpn_t) option" where
  "owner F f = (if protected (F f) = 0 \<and> mapped (F f) \<noteq> 0
     then map_option (\<lambda>p. (p, vpn (F f))) (process (F f)) else None)"

text \<open>What the page holds when it is brought in: its swap copy, or zeros.\<close>

definition refill :: "(u64 \<Rightarrow> page option) \<Rightarrow> pte_t \<Rightarrow> page" where
  "refill L e = (if swap e = 0 then zero_page else case L (swap e) of None \<Rightarrow> zero_page | Some d \<Rightarrow> d)"

definition view :: "entries \<Rightarrow> (pfn_t \<Rightarrow> page option) \<Rightarrow> (u64 \<Rightarrow> page option) \<Rightarrow> u32 \<Rightarrow> vpn_t \<Rightarrow> page"
  where
  "view E M L p v = (if valid (E p v) \<noteq> 0 then the (M (pfn (E p v))) else refill L (E p v))"

text \<open>Valid entries and mapped frames point at each other.\<close>

definition mapped_inv :: "(pfn_t \<Rightarrow> fte_t) \<Rightarrow> entries \<Rightarrow> bool" where
  "mapped_inv F E \<longleftrightarrow>
     (\<forall>p v. valid (E p v) \<noteq> 0 \<longrightarrow>
        unat (pfn (E p v)) < NUM_FRAMES \<and> owner F (pfn (E p v)) = Some (p, v)) \<and>
     (\<forall>f. unat f < NUM_FRAMES \<longrightarrow> mapped (F f) \<noteq> 0 \<longrightarrow>
        (\<exists>p v. owner F f = Some (p, v) \<and> valid (E p v) \<noteq> 0 \<and> pfn (E p v) = f))"

text \<open>A valid page has its data in its frame, and a clean one equals what would be brought in.\<close>

definition clean_inv :: "entries \<Rightarrow> (pfn_t \<Rightarrow> page option) \<Rightarrow> (u64 \<Rightarrow> page option) \<Rightarrow> bool" where
  "clean_inv E M L \<longleftrightarrow>
     (\<forall>p v. valid (E p v) \<noteq> 0 \<longrightarrow>
        (\<exists>d. M (pfn (E p v)) = Some d \<and> (dirty (E p v) = 0 \<longrightarrow> d = refill L (E p v))))"

text \<open>Every token is that of one page, and the swap space holds nothing else.\<close>

definition token_inv :: "entries \<Rightarrow> (u64 \<Rightarrow> page option) \<Rightarrow> bool" where
  "token_inv E L \<longleftrightarrow> L 0 = None \<and>
     (\<forall>p v. swap (E p v) \<noteq> 0 \<longrightarrow> L (swap (E p v)) \<noteq> None) \<and>
     (\<forall>p v q w. swap (E p v) \<noteq> 0 \<longrightarrow> swap (E p v) = swap (E q w) \<longrightarrow> p = q \<and> v = w) \<and>
     (\<forall>t. L t \<noteq> None \<longrightarrow> (\<exists>p v. swap (E p v) = t))"

definition flags_inv :: "entries \<Rightarrow> bool" where
  "flags_inv E \<longleftrightarrow> (\<forall>p v. valid (E p v) \<in> {0, 1} \<and> dirty (E p v) \<in> {0, 1})"

definition pages_inv ::
    "(pfn_t \<Rightarrow> fte_t) \<Rightarrow> entries \<Rightarrow> (pfn_t \<Rightarrow> page option) \<Rightarrow> (u64 \<Rightarrow> page option) \<Rightarrow> bool" where
  "pages_inv F E M L \<longleftrightarrow> mapped_inv F E \<and> clean_inv E M L \<and> token_inv E L \<and> flags_inv E"

subsection \<open>Consequences\<close>

lemma owner_SomeD:
  "owner F f = Some (p, v) \<Longrightarrow> protected (F f) = 0 \<and> mapped (F f) \<noteq> 0 \<and> process (F f) = Some p \<and> vpn (F f) = v"
  by (auto simp: owner_def split: if_splits)

lemma mapped_invD1:
  "mapped_inv F E \<Longrightarrow> valid (E p v) \<noteq> 0 \<Longrightarrow>
    unat (pfn (E p v)) < NUM_FRAMES \<and> owner F (pfn (E p v)) = Some (p, v)"
  by (simp add: mapped_inv_def)

lemma mapped_invD2:
  assumes "mapped_inv F E" "unat f < NUM_FRAMES" "mapped (F f) \<noteq> 0"
  obtains p v where "owner F f = Some (p, v)" "valid (E p v) \<noteq> 0" "pfn (E p v) = f"
  using assms unfolding mapped_inv_def by metis

lemma frame_injective:
  "mapped_inv F E \<Longrightarrow> valid (E p v) \<noteq> 0 \<Longrightarrow> valid (E q w) \<noteq> 0 \<Longrightarrow> pfn (E p v) = pfn (E q w) \<Longrightarrow>
    p = q \<and> v = w"
  by (metis mapped_invD1 option.inject prod.inject)

lemma owner_upd [simp]: "f \<noteq> g \<Longrightarrow> owner (F(g := e)) f = owner F f"
  by (simp add: owner_def)

lemma owner_unmapped [simp]: "mapped e = 0 \<Longrightarrow> owner (F(f := e)) f = None"
  by (simp add: owner_def)

lemma refill_cong: "(swap e \<noteq> 0 \<Longrightarrow> L (swap e) = L' (swap e)) \<Longrightarrow> refill L e = refill L' e"
  by (auto simp: refill_def)

lemma refill_swap [simp]:
  "refill L (e\<lparr>valid := x\<rparr>) = refill L e" "refill L (e\<lparr>dirty := y\<rparr>) = refill L e"
  "refill L (e\<lparr>pfn := z\<rparr>) = refill L e"
  by (simp_all add: refill_def)

subsection \<open>Unmapping a frame\<close>

lemma mapped_inv_unmap:
  assumes "mapped_inv F E" and "valid (E p v) \<noteq> 0" and "f = pfn (E p v)" and "mapped fe = 0"
    and "valid e = 0"
  shows "mapped_inv (F(f := fe)) (put_entry E p v e)"
proof -
  have ne: "pfn (E q w) \<noteq> f" if "valid (E q w) \<noteq> 0" "(q, w) \<noteq> (p, v)" for q w
    using frame_injective[OF assms(1), of q w p v] that assms(2,3) by auto
  have "owner (F(f := fe)) (pfn (E q w)) = Some (q, w)" if "valid (E q w) \<noteq> 0" "(q, w) \<noteq> (p, v)" for q w
    using ne[OF that] mapped_invD1[OF assms(1) that(1)] by simp
  moreover have "\<exists>q w. owner (F(f := fe)) g = Some (q, w) \<and> valid (put_entry E p v e q w) \<noteq> 0
      \<and> pfn (put_entry E p v e q w) = g"
    if "unat g < NUM_FRAMES" "mapped ((F(f := fe)) g) \<noteq> 0" for g
  proof -
    have g: "g \<noteq> f" "mapped (F g) \<noteq> 0" using that(2) assms(4) by (auto split: if_splits)
    from mapped_invD2[OF assms(1) that(1) g(2)]
    obtain q w where "owner F g = Some (q, w)" "valid (E q w) \<noteq> 0" "pfn (E q w) = g" .
    moreover from this have "(q, w) \<noteq> (p, v)" using g(1) assms(3) by auto
    ultimately show ?thesis using g(1) by (intro exI[of _ q] exI[of _ w]) auto
  qed
  ultimately show ?thesis
    using assms(5) mapped_invD1[OF assms(1)] by (auto simp: mapped_inv_def)
qed

lemma evict_inv:
  assumes inv: "pages_inv F E M L" and e: "valid (E p v) \<noteq> 0" "f = pfn (E p v)" and "mapped fe = 0"
    and e': "valid e' = 0" "dirty e' \<in> {0, 1}" and refill: "refill L' e' = the (M f)"
    and tokens: "token_inv (put_entry E p v e') L'"
    and L': "\<And>t. t \<noteq> swap e' \<Longrightarrow> L' t = L t"
  shows "pages_inv (F(f := fe)) (put_entry E p v e') M L'"
    and "view (put_entry E p v e') M L' = view E M L"
proof -
  have same: "refill L' (E q w) = refill L (E q w)" if "(q, w) \<noteq> (p, v)" for q w
  proof (rule refill_cong)
    assume "swap (E q w) \<noteq> 0"
    then have "swap (E q w) \<noteq> swap e'"
      using tokens that unfolding token_inv_def by (metis put_entry_apply prod.inject)
    then show "L' (swap (E q w)) = L (swap (E q w))" by (rule L')
  qed
  have "clean_inv (put_entry E p v e') M L'"
    using inv e' same by (auto simp: pages_inv_def clean_inv_def)
  moreover have "mapped_inv (F(f := fe)) (put_entry E p v e')"
    using inv e assms(4) e' by (intro mapped_inv_unmap) (auto simp: pages_inv_def)
  moreover have "flags_inv (put_entry E p v e')"
    using inv e' by (simp add: pages_inv_def flags_inv_def)
  ultimately show "pages_inv (F(f := fe)) (put_entry E p v e') M L'"
    using tokens by (simp add: pages_inv_def)
  show "view (put_entry E p v e') M L' = view E M L"
    using e e' refill same by (auto simp: view_def fun_eq_iff)
qed

text \<open>The token of the evicted page: kept, or new when the page is stored for the first time.\<close>

lemma token_inv_keep:
  "token_inv E L \<Longrightarrow> swap e' = swap (E p v) \<Longrightarrow> (\<And>t. L' t = None \<longleftrightarrow> L t = None) \<Longrightarrow>
    token_inv (put_entry E p v e') L'"
proof -
  assume prems: "token_inv E L" "swap e' = swap (E p v)" "\<And>t. L' t = None \<longleftrightarrow> L t = None"
  then have "swap (put_entry E p v e' q w) = swap (E q w)" for q w by simp
  with prems(1,3) show ?thesis unfolding token_inv_def by (simp only: simp_thms) blast
qed

lemma token_inv_new:
  assumes "token_inv E L" and "swap (E p v) = 0" and "swap e' \<noteq> 0" and "L (swap e') = None"
  shows "token_inv (put_entry E p v e') (L(swap e' \<mapsto> d))"
proof -
  have old: "swap (E q w) \<noteq> swap e'" for q w
    using assms unfolding token_inv_def by metis
  have "swap (E p v) = 0 \<Longrightarrow> L t \<noteq> None \<Longrightarrow> \<exists>q w. (q, w) \<noteq> (p, v) \<and> swap (E q w) = t" for t
    using assms(1) unfolding token_inv_def by (metis prod.inject)
  with assms old show ?thesis
    unfolding token_inv_def by (simp split: if_splits) (metis old)
qed

lemma token_inv_drop:
  assumes "token_inv E L" and "swap e' = 0"
  shows "token_inv (put_entry E p v e') (L(swap (E p v) := None))"
proof -
  have ne: "swap (E q w) \<noteq> swap (E p v)" if "swap (E q w) \<noteq> 0" "(q, w) \<noteq> (p, v)" for q w
    using assms(1) that unfolding token_inv_def by (metis prod.inject)
  show ?thesis
    using assms ne unfolding token_inv_def by (simp split: if_splits) metis
qed

subsection \<open>Mapping a frame\<close>

lemma install_inv:
  assumes inv: "pages_inv F E M L" and v: "valid (E p v) = 0"
    and f: "unat f < NUM_FRAMES" "mapped (F f) = 0"
    and fe: "protected fe = 0" "mapped fe \<noteq> 0" "process fe = Some p" "vpn fe = v"
    and e': "e' = (E p v)\<lparr>valid := 1, dirty := 0, pfn := f\<rparr>"
  shows "pages_inv (F(f := fe)) (put_entry E p v e') (M(f \<mapsto> refill L (E p v))) L"
    and "view (put_entry E p v e') (M(f \<mapsto> refill L (E p v))) L = view E M L"
proof -
  have mi: "mapped_inv F E" using inv by (simp add: pages_inv_def)
  have ne: "pfn (E q w) \<noteq> f" if "valid (E q w) \<noteq> 0" for q w
    using mapped_invD1[OF mi that] f(2) by (auto dest: owner_SomeD)
  have own: "owner (F(f := fe)) f = Some (p, v)" using fe by (simp add: owner_def)
  have "mapped_inv (F(f := fe)) (put_entry E p v e')"
    unfolding mapped_inv_def
  proof (intro conjI allI impI, goal_cases)
    case (1 q w)
    then show ?case using mapped_invD1[OF mi, of q w] f e' by (auto split: if_splits)
  next
    case (2 q w)
    then show ?case using mapped_invD1[OF mi, of q w] ne[of q w] own e' by (auto split: if_splits)
  next
    case (3 g)
    show ?case
    proof (cases "g = f")
      case True
      then show ?thesis using own e' by (intro exI[of _ p] exI[of _ v]) simp
    next
      case False
      then have "mapped (F g) \<noteq> 0" using 3(2) by simp
      from mapped_invD2[OF mi 3(1) this]
      obtain q w where "owner F g = Some (q, w)" "valid (E q w) \<noteq> 0" "pfn (E q w) = g" .
      then show ?thesis using False v by (intro exI[of _ q] exI[of _ w]) auto
    qed
  qed
  moreover have "clean_inv (put_entry E p v e') (M(f \<mapsto> refill L (E p v))) L"
    using inv ne e' by (auto simp: pages_inv_def clean_inv_def)
  moreover have "token_inv (put_entry E p v e') L"
    using inv e' by (intro token_inv_keep[of E L]) (auto simp: pages_inv_def)
  moreover have "flags_inv (put_entry E p v e')"
    using inv e' by (simp add: pages_inv_def flags_inv_def)
  ultimately show "pages_inv (F(f := fe)) (put_entry E p v e') (M(f \<mapsto> refill L (E p v))) L"
    by (simp add: pages_inv_def)
  show "view (put_entry E p v e') (M(f \<mapsto> refill L (E p v))) L = view E M L"
    using v ne e' by (auto simp: view_def fun_eq_iff)
qed

subsection \<open>Writing a byte\<close>

lemma write_inv:
  assumes inv: "pages_inv F E M L" and v: "valid (E p v) \<noteq> 0"
  shows "pages_inv F (put_entry E p v ((E p v)\<lparr>dirty := 1\<rparr>)) (M(pfn (E p v) \<mapsto> d)) L"
    and "view (put_entry E p v ((E p v)\<lparr>dirty := 1\<rparr>)) (M(pfn (E p v) \<mapsto> d)) L
      = (view E M L)(p := (view E M L p)(v := d))"
proof -
  let ?E = "put_entry E p v ((E p v)\<lparr>dirty := 1\<rparr>)"
  have mi: "mapped_inv F E" using inv by (simp add: pages_inv_def)
  have ne: "pfn (E q w) \<noteq> pfn (E p v)" if "valid (E q w) \<noteq> 0" "(q, w) \<noteq> (p, v)" for q w
    using frame_injective[OF mi, of q w p v] that v by auto
  have same: "valid (?E q w) = valid (E q w)" "pfn (?E q w) = pfn (E q w)"
    "swap (?E q w) = swap (E q w)" for q w by simp_all
  have "mapped_inv F ?E" using mi unfolding mapped_inv_def same .
  moreover have "clean_inv ?E (M(pfn (E p v) \<mapsto> d)) L"
    using inv ne by (auto simp: pages_inv_def clean_inv_def)
  moreover have "token_inv ?E L"
    using inv by (intro token_inv_keep[of E L]) (auto simp: pages_inv_def)
  moreover have "flags_inv ?E" using inv by (simp add: pages_inv_def flags_inv_def)
  ultimately show "pages_inv F ?E (M(pfn (E p v) \<mapsto> d)) L" by (simp add: pages_inv_def)
  show "view ?E (M(pfn (E p v) \<mapsto> d)) L = (view E M L)(p := (view E M L p)(v := d))"
    using v ne by (auto simp: view_def fun_eq_iff)
qed

text \<open>Frame table fields that do not matter, and frames that hold no valid page, may change.\<close>

lemma pages_inv_frames:
  assumes "pages_inv F E M L" and "mapped fe = mapped (F f)" "protected fe = protected (F f)"
    "process fe = process (F f)" "vpn fe = vpn (F f)"
  shows "pages_inv (F(f := fe)) E M L"
proof -
  have "owner (F(f := fe)) g = owner F g" "mapped ((F(f := fe)) g) = mapped (F g)" for g
    using assms(2-5) by (auto simp: owner_def)
  then show ?thesis using assms(1) by (simp add: pages_inv_def mapped_inv_def del: fun_upd_apply)
qed

lemma pages_inv_unused:
  assumes inv: "pages_inv F E M L" and f: "mapped (F f) = 0" "mapped fe = 0"
    and M': "\<And>g. g \<noteq> f \<Longrightarrow> M' g = M g"
  shows "pages_inv (F(f := fe)) E M' L" and "view E M' L = view E M L"
proof -
  have mi: "mapped_inv F E" using inv by (simp add: pages_inv_def)
  have ne: "pfn (E q w) \<noteq> f" if "valid (E q w) \<noteq> 0" for q w
    using mapped_invD1[OF mi that] f by (auto dest: owner_SomeD)
  have "mapped_inv (F(f := fe)) E"
    unfolding mapped_inv_def
  proof (intro conjI allI impI, goal_cases)
    case (3 g)
    then have "g \<noteq> f" "mapped (F g) \<noteq> 0" using f by (auto split: if_splits)
    moreover from mapped_invD2[OF mi 3(1) this(2)]
    obtain q w where "owner F g = Some (q, w)" "valid (E q w) \<noteq> 0" "pfn (E q w) = g" .
    ultimately show ?case by auto
  qed (use mapped_invD1[OF mi] ne in auto)
  moreover have "clean_inv E M' L"
    using inv ne M' by (auto simp: pages_inv_def clean_inv_def)
  ultimately show "pages_inv (F(f := fe)) E M' L" using inv by (simp add: pages_inv_def)
  show "view E M' L = view E M L" using ne M' by (auto simp: view_def fun_eq_iff)
qed

subsection \<open>Releasing a page\<close>

lemma release_frame_inv:
  assumes inv: "pages_inv F E M L" and e: "valid (E p v) \<noteq> 0" and "mapped fe = 0"
  shows "pages_inv (F(pfn (E p v) := fe)) (put_entry E p v ((E p v)\<lparr>valid := 0\<rparr>)) M L"
proof -
  have "mapped_inv (F(pfn (E p v) := fe)) (put_entry E p v ((E p v)\<lparr>valid := 0\<rparr>))"
    using inv e assms(3) by (intro mapped_inv_unmap) (auto simp: pages_inv_def)
  moreover have "token_inv (put_entry E p v ((E p v)\<lparr>valid := 0\<rparr>)) L"
    using inv by (intro token_inv_keep[of E L]) (auto simp: pages_inv_def)
  ultimately show ?thesis using inv by (auto simp: pages_inv_def clean_inv_def flags_inv_def)
qed

lemma release_swap_inv:
  assumes inv: "pages_inv F E M L" and e: "valid (E p v) = 0" "swap (E p v) \<noteq> 0"
  shows "pages_inv F (put_entry E p v ((E p v)\<lparr>swap := 0\<rparr>)) M (L(swap (E p v) := None))"
proof -
  let ?E = "put_entry E p v ((E p v)\<lparr>swap := 0\<rparr>)"
  have same: "valid (?E q w) = valid (E q w)" "pfn (?E q w) = pfn (E q w)" for q w by simp_all
  have "mapped_inv F ?E" using inv unfolding pages_inv_def mapped_inv_def same by blast
  moreover have "token_inv ?E (L(swap (E p v) := None))"
    using inv by (intro token_inv_drop) (auto simp: pages_inv_def)
  moreover have "refill (L(swap (E p v) := None)) (E q w) = refill L (E q w)" if "(q, w) \<noteq> (p, v)" for q w
    using inv that unfolding pages_inv_def token_inv_def
    by (intro refill_cong) (metis fun_upd_other prod.inject)
  ultimately show ?thesis using inv e by (auto simp: pages_inv_def clean_inv_def flags_inv_def)
qed

lemma release_view:
  "(q, w) \<noteq> (p, v) \<Longrightarrow> pages_inv F E M L \<Longrightarrow>
    view (put_entry E p v e) M (L(swap (E p v) := None)) q w = view E M L q w"
proof -
  assume ne: "(q, w) \<noteq> (p, v)" and inv: "pages_inv F E M L"
  have "refill (L(swap (E p v) := None)) (E q w) = refill L (E q w)"
    using inv ne unfolding pages_inv_def token_inv_def
    by (intro refill_cong) (metis fun_upd_other prod.inject)
  then show ?thesis using ne by (auto simp: view_def)
qed

text \<open>A process with no page in memory and none in swap space can be forgotten.\<close>

lemma forget_inv:
  assumes inv: "pages_inv F E M L" and p: "\<And>v. valid (E p v) = 0 \<and> swap (E p v) = 0"
  shows "pages_inv F (E(p := \<lambda>_. zero_pte)) M L"
    and "view (E(p := \<lambda>_. zero_pte)) M L = view E M L"
proof -
  let ?E = "E(p := \<lambda>_. zero_pte)"
  have v: "valid (?E q w) = valid (E q w)" "swap (?E q w) = swap (E q w)" for q w
    using p by (simp_all add: zero_pte_def)
  have other: "valid (E q w) \<noteq> 0 \<Longrightarrow> ?E q w = E q w" for q w using p by auto
  have "mapped_inv F ?E"
    using inv v other unfolding pages_inv_def mapped_inv_def by metis
  moreover have "clean_inv ?E M L"
    using inv v other unfolding pages_inv_def clean_inv_def by metis
  moreover have "token_inv ?E L"
    using inv unfolding pages_inv_def token_inv_def v by blast
  moreover have "flags_inv ?E"
    using inv by (auto simp: pages_inv_def flags_inv_def zero_pte_def)
  ultimately show "pages_inv F ?E M L" by (simp add: pages_inv_def)
  show "view ?E M L = view E M L"
    using p by (auto simp: view_def fun_eq_iff zero_pte_def refill_def)
qed

end
