(* ===== verification/Vm_Inv.thy ===== *)
theory Vm_Inv
  imports Vm_View
begin

text \<open>
  The invariant of the virtual-memory simulator, and the effect of victim selection, eviction and
  page faults on it and on the pages the processes see.
\<close>

subsection \<open>The state as processes see it\<close>

text \<open>A process has its page table from \<open>START\<close> to \<open>STOP\<close>; \<open>saved_ptbr\<close> is zero otherwise.\<close>

definition running :: "vm \<Rightarrow> u32 \<Rightarrow> bool" where
  "running vm p \<longleftrightarrow> p < MAX_PID \<and> saved_ptbr (procs vm p) \<noteq> 0"

abbreviation ptbr :: "vm \<Rightarrow> u32 \<Rightarrow> pfn_t" where
  "ptbr vm p \<equiv> saved_ptbr (procs vm p)"

definition entries_at :: "frame_t \<Rightarrow> vpn_t \<Rightarrow> pte_t" where
  "entries_at c v = (case c of Page_Table t \<Rightarrow> t v | _ \<Rightarrow> zero_pte)"

definition table :: "vm \<Rightarrow> entries" where
  "table vm p v = (if running vm p \<and> unat v < NUM_PAGES then entries_at (mem vm (ptbr vm p)) v
     else zero_pte)"

definition pages :: "vm \<Rightarrow> pfn_t \<Rightarrow> page option" where
  "pages vm f = (case mem vm f of Page_Data d \<Rightarrow> Some d | _ \<Rightarrow> None)"

definition page_view :: "vm \<Rightarrow> u32 \<Rightarrow> vpn_t \<Rightarrow> page" where
  "page_view vm = view (table vm) (pages vm) (swap_lookup (swp vm))"

subsection \<open>The invariant\<close>

definition table_frame :: "vm \<Rightarrow> u32 \<Rightarrow> bool" where
  "table_frame vm p \<longleftrightarrow> pid (procs vm p) = p \<and> ptbr vm p \<noteq> 0 \<and> unat (ptbr vm p) < NUM_FRAMES
     \<and> protected (frame_table vm (ptbr vm p)) \<noteq> 0 \<and> (\<exists>t. mem vm (ptbr vm p) = Page_Table t)"

definition tables_ok :: "vm \<Rightarrow> bool" where
  "tables_ok vm \<longleftrightarrow> protected (frame_table vm 0) \<noteq> 0
     \<and> (\<forall>p. running vm p \<longrightarrow> table_frame vm p)
     \<and> (\<forall>p q. running vm p \<longrightarrow> running vm q \<longrightarrow> ptbr vm p = ptbr vm q \<longrightarrow> p = q)
     \<and> (\<forall>f. unat f < NUM_FRAMES \<longrightarrow> protected (frame_table vm f) \<noteq> 0 \<longrightarrow>
          f = 0 \<or> (\<exists>p. running vm p \<and> ptbr vm p = f))"

definition current_ok :: "vm \<Rightarrow> bool" where
  "current_ok vm \<longleftrightarrow> (\<forall>c. current_process vm = Some c \<longrightarrow>
     c < MAX_PID \<and> pid (procs vm c) = c \<and> (running vm c \<longrightarrow> PTBR vm = ptbr vm c))"

definition paging_inv :: "vm \<Rightarrow> bool" where
  "paging_inv vm \<longleftrightarrow> tables_ok vm \<and> swap_inv (swp vm)
     \<and> pages_inv (frame_table vm) (table vm) (pages vm) (swap_lookup (swp vm))"

definition vm_inv :: "vm \<Rightarrow> bool" where
  "vm_inv vm \<longleftrightarrow> paging_inv vm \<and> current_ok vm \<and> replacement vm = RANDOM
     \<and> (\<forall>p. p < MAX_PID \<longrightarrow> state (procs vm p) = PROC_RUNNING \<longleftrightarrow> saved_ptbr (procs vm p) \<noteq> 0)"

lemma running_cong [cong]: "procs vm = procs vm' \<Longrightarrow> running vm p = running vm' p"
  by (simp add: running_def)

lemma running_updates [simp]:
  "running (vm\<lparr>mem := a\<rparr>) = running vm" "running (vm\<lparr>frame_table := b\<rparr>) = running vm"
  "running (vm\<lparr>PTBR := c\<rparr>) = running vm" "running (vm\<lparr>current_process := d\<rparr>) = running vm"
  "running (vm\<lparr>swp := e\<rparr>) = running vm" "running (vm\<lparr>rng := f\<rparr>) = running vm"
  "running (vm\<lparr>stats := g\<rparr>) = running vm"
  by (simp_all add: fun_eq_iff running_def)

lemma table_updates [simp]:
  "table (vm\<lparr>frame_table := b\<rparr>) = table vm"
  "table (vm\<lparr>PTBR := c\<rparr>) = table vm" "table (vm\<lparr>current_process := d\<rparr>) = table vm"
  "table (vm\<lparr>swp := e\<rparr>) = table vm" "table (vm\<lparr>rng := f\<rparr>) = table vm"
  "table (vm\<lparr>stats := g\<rparr>) = table vm"
  by (simp_all add: fun_eq_iff table_def)

lemma pages_updates [simp]:
  "pages (vm\<lparr>frame_table := b\<rparr>) = pages vm" "pages (vm\<lparr>procs := h\<rparr>) = pages vm"
  "pages (vm\<lparr>PTBR := c\<rparr>) = pages vm" "pages (vm\<lparr>current_process := d\<rparr>) = pages vm"
  "pages (vm\<lparr>swp := e\<rparr>) = pages vm" "pages (vm\<lparr>rng := f\<rparr>) = pages vm"
  "pages (vm\<lparr>stats := g\<rparr>) = pages vm"
  by (simp_all add: fun_eq_iff pages_def)

lemma tables_ok_updates [simp]:
  "tables_ok (vm\<lparr>PTBR := c\<rparr>) = tables_ok vm" "tables_ok (vm\<lparr>current_process := d\<rparr>) = tables_ok vm"
  "tables_ok (vm\<lparr>swp := e\<rparr>) = tables_ok vm" "tables_ok (vm\<lparr>rng := f\<rparr>) = tables_ok vm"
  "tables_ok (vm\<lparr>stats := g\<rparr>) = tables_ok vm"
  by (simp_all add: tables_ok_def table_frame_def)

lemma tables_okD:
  assumes "tables_ok vm" and "running vm p"
  shows "pid (procs vm p) = p" "ptbr vm p \<noteq> 0" "unat (ptbr vm p) < NUM_FRAMES"
    "protected (frame_table vm (ptbr vm p)) \<noteq> 0" "p < MAX_PID"
  using assms by (auto simp: tables_ok_def table_frame_def running_def)

lemma table_inj: "tables_ok vm \<Longrightarrow> running vm p \<Longrightarrow> running vm q \<Longrightarrow> ptbr vm p = ptbr vm q \<Longrightarrow> p = q"
  by (simp add: tables_ok_def)

lemma get_table_running:
  assumes "tables_ok vm" and "running vm p"
  obtains t where "get_table vm (ptbr vm p) = Inr t" "mem vm (ptbr vm p) = Page_Table t"
    "\<And>v. unat v < NUM_PAGES \<Longrightarrow> table vm p v = t v"
  using assms by (auto simp: tables_ok_def table_frame_def get_table_def table_def entries_at_def)

lemma get_pte_running:
  "tables_ok vm \<Longrightarrow> running vm p \<Longrightarrow> unat v < NUM_PAGES \<Longrightarrow>
    get_pte vm (ptbr vm p) v = Inr (table vm p v)"
  by (rule get_table_running) (auto simp: get_pte_def)

lemma get_page_Some: "unat f < NUM_FRAMES \<Longrightarrow> pages vm f = Some d \<Longrightarrow> get_page vm f = Inr d"
  by (simp add: get_page_def pages_def split: frame_t.splits)

text \<open>A page table that replaces another one, and a page that fills a frame with no table.\<close>

lemma set_pte_running:
  assumes ok: "tables_ok vm" and p: "running vm p" and v: "unat v < NUM_PAGES"
  shows "\<exists>m. set_pte vm (ptbr vm p) v e = Inr (vm\<lparr>mem := m\<rparr>) \<and> tables_ok (vm\<lparr>mem := m\<rparr>)
    \<and> table (vm\<lparr>mem := m\<rparr>) = put_entry (table vm) p v e \<and> pages (vm\<lparr>mem := m\<rparr>) = pages vm"
proof -
  obtain t where t: "get_table vm (ptbr vm p) = Inr t" "mem vm (ptbr vm p) = Page_Table t"
    using get_table_running[OF ok p] by metis
  let ?m = "(mem vm)(ptbr vm p := Page_Table (t(v := e)))"
  have "tables_ok (vm\<lparr>mem := ?m\<rparr>)"
    using ok by (auto simp: tables_ok_def table_frame_def)
  moreover have "table (vm\<lparr>mem := ?m\<rparr>) q w = put_entry (table vm) p v e q w" for q w
    using t p v table_inj[OF ok p, of q] by (auto simp: table_def entries_at_def)
  moreover have "pages (vm\<lparr>mem := ?m\<rparr>) f = pages vm f" for f
    using t by (simp add: pages_def)
  ultimately show ?thesis using t v by (intro exI[of _ ?m]) (simp add: set_pte_def fun_eq_iff)
qed

lemma fill_frame_page:
  assumes ok: "tables_ok vm" and f: "unat f < NUM_FRAMES" "protected (frame_table vm f) = 0"
  shows "\<exists>m. fill_frame vm f (Page_Data d) = Inr (vm\<lparr>mem := m\<rparr>) \<and> tables_ok (vm\<lparr>mem := m\<rparr>)
    \<and> table (vm\<lparr>mem := m\<rparr>) = table vm \<and> pages (vm\<lparr>mem := m\<rparr>) = (pages vm)(f \<mapsto> d)"
proof -
  let ?m = "(mem vm)(f := Page_Data d)"
  have ne: "ptbr vm p \<noteq> f" if "running vm p" for p using tables_okD[OF ok that] f by auto
  have "tables_ok (vm\<lparr>mem := ?m\<rparr>)"
    using ok ne by (auto simp: tables_ok_def table_frame_def)
  moreover have "table (vm\<lparr>mem := ?m\<rparr>) q w = table vm q w" for q w
    using ne by (simp add: table_def)
  moreover have "pages (vm\<lparr>mem := ?m\<rparr>) = (pages vm)(f \<mapsto> d)"
    by (auto simp: pages_def)
  ultimately show ?thesis using f by (intro exI[of _ ?m]) (simp add: fill_frame_def fun_eq_iff)
qed

lemma tables_ok_frame:
  "tables_ok vm \<Longrightarrow> (protected e \<noteq> 0 \<longleftrightarrow> protected (frame_table vm f) \<noteq> 0) \<Longrightarrow>
    tables_ok (vm\<lparr>frame_table := (frame_table vm)(f := e)\<rparr>)"
  by (auto simp: tables_ok_def table_frame_def)

subsection \<open>Choosing a victim\<close>

lemma unat_frame [simp]: "i < NUM_FRAMES \<Longrightarrow> unat (of_nat i :: pfn_t) = i"
  by (simp add: unat_of_nat)

lemma free_loop_Some:
  "free_loop F i = Some f \<Longrightarrow> unat f < NUM_FRAMES \<and> protected (F f) = 0 \<and> mapped (F f) = 0"
proof (induction F i rule: free_loop.induct)
  case (1 F i)
  then show ?case
    by (subst (asm) (2) free_loop.simps) (auto split: if_splits)
qed

lemma random_loop_found:
  "random_loop F r l i = (found, l', r') \<Longrightarrow>
    (\<forall>f. found = Some f \<longrightarrow> unat f < NUM_FRAMES \<and> protected (F f) = 0) \<and>
    (unat l < NUM_FRAMES \<longrightarrow> protected (F l) = 0 \<longrightarrow> unat l' < NUM_FRAMES \<and> protected (F l') = 0) \<and>
    (found = None \<longrightarrow> (\<exists>j. i \<le> j \<and> j < NUM_FRAMES \<and> protected (F (of_nat j)) = 0) \<longrightarrow>
       unat l' < NUM_FRAMES \<and> protected (F l') = 0)"
proof (induction F r l i rule: random_loop.induct)
  case (1 F r l i)
  show ?case
  proof (cases "i < NUM_FRAMES")
    case False
    with "1.prems" show ?thesis by (auto simp: random_loop.simps)
  next
    case True
    note prems = "1.prems"[unfolded random_loop.simps[of F r l i]]
    obtain x r1 where r1: "prng_rand r = (x, r1)" by fastforce
    have later: "i \<le> j \<Longrightarrow> j \<noteq> i \<Longrightarrow> i + 1 \<le> j" for j by simp
    show ?thesis
    proof (cases "protected (F (of_nat i)) = 0")
      case prot: True
      show ?thesis
      proof (cases "x mod 2 = 0")
        case odd: True
        show ?thesis
          using 1(1)[OF True prot r1[symmetric]] prems True prot odd r1 by auto
      next
        case False
        then show ?thesis using prems True prot r1 by auto
      qed
    next
      case False
      have "i + 1 \<le> j" if "i \<le> j" "protected (F (of_nat j)) = 0" for j
        using that False later[of j] by (cases "j = i") auto
      then show ?thesis using 1(2)[OF True False] prems True False by auto
    qed
  qed
qed

lemma select_victim_frame_ok:
  assumes "replacement vm = RANDOM" and "\<exists>f. unat f < NUM_FRAMES \<and> protected (frame_table vm f) = 0"
  shows "\<exists>f r. select_victim_frame vm = Inr (f, vm\<lparr>rng := r\<rparr>) \<and> unat f < NUM_FRAMES
    \<and> protected (frame_table vm f) = 0"
proof (cases "free_loop (frame_table vm) 0")
  case (Some f)
  then show ?thesis
    using free_loop_Some[OF Some]
    by (intro exI[of _ f] exI[of _ "rng vm"]) (simp add: select_victim_frame_def)
next
  case None
  obtain found l r where loop: "random_loop (frame_table vm) (rng vm) (of_nat NUM_FRAMES) 0 = (found, l, r)"
    by (metis prod.collapse)
  obtain f where "unat f < NUM_FRAMES" "protected (frame_table vm f) = 0" using assms(2) by blast
  then have ex: "\<exists>j. 0 \<le> j \<and> j < NUM_FRAMES \<and> protected (frame_table vm (of_nat j)) = 0"
    by (intro exI[of _ "unat f"]) simp
  show ?thesis
  proof (cases found)
    case None
    with random_loop_found[OF loop] ex have "unat l < NUM_FRAMES" "protected (frame_table vm l) = 0"
      by auto
    with loop None \<open>free_loop (frame_table vm) 0 = None\<close> assms(1) show ?thesis
      by (auto simp: select_victim_frame_def)
  next
    case (Some f)
    with random_loop_found[OF loop] have "unat f < NUM_FRAMES" "protected (frame_table vm f) = 0"
      by auto
    with loop Some \<open>free_loop (frame_table vm) 0 = None\<close> assms(1) show ?thesis
      by (auto simp: select_victim_frame_def)
  qed
qed

text \<open>There is a frame to give as long as fewer than 63 processes run.\<close>

lemma unprotected_frame:
  assumes "tables_ok vm" and "finite {p. running vm p}" and "card {p. running vm p} < NUM_FRAMES - 1"
  shows "\<exists>f. unat f < NUM_FRAMES \<and> protected (frame_table vm f) = 0"
proof (rule ccontr)
  assume none: "\<not> ?thesis"
  have "of_nat ` {..<NUM_FRAMES} \<subseteq> insert 0 (ptbr vm ` {p. running vm p})"
  proof
    fix f :: pfn_t assume "f \<in> of_nat ` {..<NUM_FRAMES}"
    then have "unat f < NUM_FRAMES" by auto
    with none assms(1) show "f \<in> insert 0 (ptbr vm ` {p. running vm p})"
      unfolding tables_ok_def by blast
  qed
  then have "card (of_nat ` {..<NUM_FRAMES} :: pfn_t set) \<le> card (insert 0 (ptbr vm ` {p. running vm p}))"
    using assms(2) by (intro card_mono) auto
  also have "\<dots> \<le> Suc (card {p. running vm p})"
    using card_image_le[OF assms(2), of "ptbr vm"] assms(2)
    by (auto simp: card_insert_if intro: le_SucI)
  finally have "card (of_nat ` {..<NUM_FRAMES} :: pfn_t set) < NUM_FRAMES" using assms(3) by simp
  moreover have "inj_on (of_nat :: nat \<Rightarrow> pfn_t) {..<NUM_FRAMES}"
    by (rule inj_on_inverseI[of _ unat]) simp
  ultimately show False by (simp add: card_image)
qed

end
