(* ===== verification/Vm_Steps.thy ===== *)
theory Vm_Steps
  imports Vm_Inv
begin

text \<open>
  The operations of the paging code keep the invariant: eviction and page faults leave every page as
  the processes see it, an access reads or writes one byte of one page, starting a process
  gives it zeroed pages, and stopping it takes its pages away.
\<close>

text \<open>What paging never touches.\<close>

definition same_env :: "vm \<Rightarrow> vm \<Rightarrow> bool" where
  "same_env vm vm' \<longleftrightarrow> procs vm' = procs vm \<and> PTBR vm' = PTBR vm
     \<and> current_process vm' = current_process vm \<and> replacement vm' = replacement vm
     \<and> (\<forall>f. protected (frame_table vm' f) = protected (frame_table vm f))
     \<and> (\<exists>w. stats vm' = (stats vm)\<lparr>writebacks := w\<rparr>)
     \<and> swap_room (swp vm) \<le> swap_room (swp vm') + 1"

lemma paging_invD:
  assumes "paging_inv vm"
  shows "tables_ok vm" "swap_inv (swp vm)"
    "pages_inv (frame_table vm) (table vm) (pages vm) (swap_lookup (swp vm))"
    "mapped_inv (frame_table vm) (table vm)" "clean_inv (table vm) (pages vm) (swap_lookup (swp vm))"
    "token_inv (table vm) (swap_lookup (swp vm))" "flags_inv (table vm)"
  using assms by (simp_all add: paging_inv_def pages_inv_def)

lemma valid_running: "valid (table vm p v) \<noteq> 0 \<Longrightarrow> running vm p \<and> unat v < NUM_PAGES"
  by (auto simp: table_def zero_pte_def split: if_splits)

subsection \<open>Eviction\<close>

lemma token_store:
  assumes tok: "token_inv E L" and t: "t \<noteq> 0" "if L (swap (E p v)) = None then L t = None else t = swap (E p v)"
    and e': "swap e' = t"
  shows "token_inv (put_entry E p v e') (L(t \<mapsto> d))"
proof (cases "L (swap (E p v)) = None")
  case True
  then have "swap (E p v) = 0" using tok unfolding token_inv_def by metis
  with True t e' show ?thesis using token_inv_new[OF tok, of p v e' d] by simp
next
  case False
  with t e' show ?thesis using tok by (intro token_inv_keep[of E L]) auto
qed

lemma write_back_ok:
  assumes inv: "paging_inv vm" and room: "0 < swap_room (swp vm)"
    and e: "e = table vm p v" "valid e \<noteq> 0"
  shows "\<exists>vm' e'. write_back vm (pfn e) (ptbr vm p) v = Inr vm' \<and> tables_ok vm' \<and> swap_inv (swp vm')
    \<and> frame_table vm' = frame_table vm \<and> pages vm' = pages vm \<and> table vm' = put_entry (table vm) p v e'
    \<and> dirty e' = 0 \<and> refill (swap_lookup (swp vm')) e' = the (pages vm (pfn e))
    \<and> token_inv (table vm') (swap_lookup (swp vm'))
    \<and> (\<forall>t. t \<noteq> swap e' \<longrightarrow> swap_lookup (swp vm') t = swap_lookup (swp vm) t) \<and> same_env vm vm'"
proof -
  note D = paging_invD[OF inv]
  have p: "running vm p" "unat v < NUM_PAGES" using e valid_running[of vm p v] by auto
  have get: "get_pte vm (ptbr vm p) v = Inr e" using get_pte_running[OF D(1) p] e by simp
  obtain d where d: "pages vm (pfn e) = Some d" "dirty e = 0 \<Longrightarrow> d = refill (swap_lookup (swp vm)) e"
    using D(5) e unfolding clean_inv_def by metis
  show ?thesis
  proof (cases "dirty e = 0")
    case True
    have "put_entry (table vm) p v e = table vm" using e by (auto simp: fun_eq_iff)
    moreover have "write_back vm (pfn e) (ptbr vm p) v = Inr vm"
      using True get by (simp add: write_back_def)
    moreover have "same_env vm vm"
      by (auto simp: same_env_def intro: exI[of _ "writebacks (stats vm)"])
    ultimately show ?thesis
      using True d D by (intro exI[of _ vm] exI[of _ e]) simp
  next
    case False
    have page: "get_page vm (pfn e) = Inr d"
      using mapped_invD1[OF D(4), of p v] e d(1) by (intro get_page_Some) auto
    obtain s t where s: "swap_write (swp vm) e d = Inr (s, e\<lparr>swap := t\<rparr>)" "swap_inv s" "t \<noteq> 0"
      "swap_lookup s = (swap_lookup (swp vm))(t \<mapsto> d)" "swap_room (swp vm) \<le> swap_room s + 1"
      "if swap_lookup (swp vm) (swap e) = None then swap_lookup (swp vm) t = None else t = swap e"
      using sw.put_any[OF D(2) room, of e d] by blast
    let ?vm = "vm\<lparr>swp := s, stats := (stats vm)\<lparr>writebacks := writebacks (stats vm) + 1\<rparr>\<rparr>"
    let ?e = "e\<lparr>swap := t, dirty := 0\<rparr>"
    have "tables_ok ?vm" "running ?vm p" using D(1) p by simp_all
    from set_pte_running[OF this p(2), of ?e] obtain m where
      m: "set_pte ?vm (ptbr ?vm p) v ?e = Inr (?vm\<lparr>mem := m\<rparr>)" "tables_ok (?vm\<lparr>mem := m\<rparr>)"
      "table (?vm\<lparr>mem := m\<rparr>) = put_entry (table ?vm) p v ?e" "pages (?vm\<lparr>mem := m\<rparr>) = pages ?vm"
      by blast
    have "write_back vm (pfn e) (ptbr vm p) v = Inr (?vm\<lparr>mem := m\<rparr>)"
      using False get page s(1) m(1) by (simp add: write_back_def)
    moreover have "refill (swap_lookup s) ?e = d" using s(3,4) by (simp add: refill_def)
    moreover have "token_inv (put_entry (table vm) p v ?e) (swap_lookup s)"
      unfolding s(4) using s(3,6) e by (intro token_store[OF D(6)]) auto
    moreover have "same_env vm (?vm\<lparr>mem := m\<rparr>)" using s(5) by (auto simp: same_env_def)
    ultimately show ?thesis
      using m s d by (intro exI[of _ "?vm\<lparr>mem := m\<rparr>"] exI[of _ ?e]) simp
  qed
qed

text \<open>Evicting the page of a mapped frame that is not protected.\<close>

lemma evict_frame_ok:
  assumes inv: "paging_inv vm" and room: "0 < swap_room (swp vm)" and f: "unat f < NUM_FRAMES"
    and victim: "select_victim_frame vm0 = Inr (f, vm)" and mapped: "mapped (frame_table vm f) \<noteq> 0"
  shows "\<exists>vm'. free_frame vm0 = Inr (f, vm') \<and> paging_inv vm' \<and> page_view vm' = page_view vm
    \<and> protected (frame_table vm' f) = protected (frame_table vm f) \<and> mapped (frame_table vm' f) = 0
    \<and> same_env vm vm' \<and> (\<forall>p v. valid (table vm p v) = 0 \<longrightarrow> table vm' p v = table vm p v)"
proof -
  note D = paging_invD[OF inv]
  obtain p v where own: "owner (frame_table vm) f = Some (p, v)" "valid (table vm p v) \<noteq> 0" "pfn (table vm p v) = f"
    using mapped_invD2[OF D(4) f] mapped by auto
  define e where "e = table vm p v"
  have e: "valid e \<noteq> 0" "pfn e = f" using own by (simp_all add: e_def)
  have o: "process (frame_table vm f) = Some p" "vpn (frame_table vm f) = v" using owner_SomeD[OF own(1)] by simp_all
  have run: "running vm p" "unat v < NUM_PAGES" using valid_running[OF own(2)] by simp_all
  have proc: "get_proc vm p = Inr (procs vm p)" using run(1) by (simp add: get_proc_def running_def)
  obtain vm1 e1 where w: "write_back vm f (ptbr vm p) v = Inr vm1" "tables_ok vm1" "swap_inv (swp vm1)"
    "frame_table vm1 = frame_table vm" "pages vm1 = pages vm" "table vm1 = put_entry (table vm) p v e1"
    "dirty e1 = 0" "refill (swap_lookup (swp vm1)) e1 = the (pages vm f)"
    "token_inv (table vm1) (swap_lookup (swp vm1))"
    "\<forall>t. t \<noteq> swap e1 \<longrightarrow> swap_lookup (swp vm1) t = swap_lookup (swp vm) t" "same_env vm vm1"
    using write_back_ok[OF inv room e_def e(1)] e by auto
  have run1: "running vm1 p" "ptbr vm1 p = ptbr vm p" using run(1) w(11) by (simp_all add: same_env_def running_def)
  have get1: "get_pte vm1 (ptbr vm p) v = Inr e1" using get_pte_running[OF w(2) run1(1) run(2)] run1(2) w(6) by simp
  let ?e = "e1\<lparr>valid := 0\<rparr>"
  obtain m where m: "set_pte vm1 (ptbr vm p) v ?e = Inr (vm1\<lparr>mem := m\<rparr>)" "tables_ok (vm1\<lparr>mem := m\<rparr>)"
    "table (vm1\<lparr>mem := m\<rparr>) = put_entry (table vm) p v ?e" "pages (vm1\<lparr>mem := m\<rparr>) = pages vm"
    using set_pte_running[OF w(2) run1(1) run(2), of ?e] run1(2) w(5,6) by auto
  let ?fe = "(frame_table vm f)\<lparr>mapped := 0, referenced := 0, process := None, vpn := 0\<rparr>"
  let ?vm3 = "(vm1\<lparr>mem := m\<rparr>)\<lparr>frame_table := (frame_table vm)(f := ?fe)\<rparr>"
  have "free_frame vm0 = Inr (f, ?vm3)"
    using victim f mapped o proc w(1,4) get1 m(1) by (simp add: free_frame_def get_fte_def set_fte_def)
  moreover have "tables_ok ?vm3" using tables_ok_frame[OF m(2), of ?fe f] w(4) by simp
  moreover have "token_inv (put_entry (table vm) p v ?e) (swap_lookup (swp vm1))"
    using token_inv_keep[OF w(9), of ?e p v "swap_lookup (swp vm1)"] w(6) by simp
  then have pi: "pages_inv ((frame_table vm)(f := ?fe)) (put_entry (table vm) p v ?e) (pages vm) (swap_lookup (swp vm1))"
    and pv: "view (put_entry (table vm) p v ?e) (pages vm) (swap_lookup (swp vm1))
      = view (table vm) (pages vm) (swap_lookup (swp vm))"
    using evict_inv[OF D(3), of p v f ?fe ?e "swap_lookup (swp vm1)"] e w(7,8,10) by (simp_all add: e_def)
  have "paging_inv ?vm3" using \<open>tables_ok ?vm3\<close> pi w(3) m(3,4) by (simp add: paging_inv_def)
  moreover have "page_view ?vm3 = page_view vm" using pv m(3,4) by (simp add: page_view_def)
  moreover have "same_env vm ?vm3" using w(11) by (auto simp: same_env_def)
  moreover have "\<forall>q w. valid (table vm q w) = 0 \<longrightarrow> table ?vm3 q w = table vm q w" using m(3) e by (auto simp: e_def)
  ultimately show ?thesis by (intro exI[of _ ?vm3]) simp
qed

lemma free_frame_ok:
  assumes inv: "paging_inv vm0" and room: "0 < swap_room (swp vm0)" and "replacement vm0 = RANDOM"
    and "\<exists>f. unat f < NUM_FRAMES \<and> protected (frame_table vm0 f) = 0"
  shows "\<exists>f vm'. free_frame vm0 = Inr (f, vm') \<and> paging_inv vm' \<and> page_view vm' = page_view vm0
    \<and> unat f < NUM_FRAMES \<and> protected (frame_table vm' f) = 0 \<and> mapped (frame_table vm' f) = 0
    \<and> same_env vm0 vm' \<and> (\<forall>p v. valid (table vm0 p v) = 0 \<longrightarrow> table vm' p v = table vm0 p v)"
proof -
  obtain f r where f: "select_victim_frame vm0 = Inr (f, vm0\<lparr>rng := r\<rparr>)" "unat f < NUM_FRAMES"
    "protected (frame_table vm0 f) = 0"
    using select_victim_frame_ok[OF assms(3,4)] by blast
  let ?vm = "vm0\<lparr>rng := r\<rparr>"
  have inv': "paging_inv ?vm" using inv by (simp add: paging_inv_def)
  have env: "same_env vm0 vm'" if "same_env ?vm vm'" for vm' using that by (simp add: same_env_def)
  have view': "page_view ?vm = page_view vm0" by (simp add: page_view_def)
  show ?thesis
  proof (cases "mapped (frame_table vm0 f) = 0")
    case True
    then have "free_frame vm0 = Inr (f, ?vm)" using f by (simp add: free_frame_def get_fte_def)
    moreover have "same_env vm0 ?vm" by (auto simp: same_env_def intro: exI[of _ "writebacks (stats vm0)"])
    ultimately show ?thesis using f True inv' view' by (intro exI[of _ f] exI[of _ ?vm]) simp
  next
    case False
    then show ?thesis using evict_frame_ok[OF inv' _ f(2,1)] room view' env f by fastforce
  qed
qed

subsection \<open>Page faults\<close>

lemma get_current:
  "tables_ok vm \<Longrightarrow> running vm p \<Longrightarrow> PTBR vm = ptbr vm p \<Longrightarrow> unat v < NUM_PAGES \<Longrightarrow>
    get_pte vm (PTBR vm) v = Inr (table vm p v)"
  using get_pte_running by simp

definition count_fault :: "vm \<Rightarrow> vm" where
  "count_fault vm = vm\<lparr>stats := (stats vm)\<lparr>page_faults := page_faults (stats vm) + 1\<rparr>\<rparr>"

lemma page_fault_ok:
  assumes inv: "paging_inv vm0" and room: "0 < swap_room (swp vm0)" and rnd: "replacement vm0 = RANDOM"
    and ex: "\<exists>f. unat f < NUM_FRAMES \<and> protected (frame_table vm0 f) = 0"
    and p: "current_process vm0 = Some p" "running vm0 p" "PTBR vm0 = ptbr vm0 p"
    and v: "v = vaddr_vpn address" "unat v < NUM_PAGES" "valid (table vm0 p v) = 0"
  shows "\<exists>vm'. page_fault vm0 address = Inr vm' \<and> paging_inv vm' \<and> page_view vm' = page_view vm0
    \<and> valid (table vm' p v) \<noteq> 0 \<and> same_env (count_fault vm0) vm'"
proof -
  let ?vm1 = "count_fault vm0"
  have "paging_inv ?vm1" using inv by (simp add: paging_inv_def count_fault_def)
  from free_frame_ok[OF this] room rnd ex obtain f vm2 where
    f: "free_frame ?vm1 = Inr (f, vm2)" "paging_inv vm2" "page_view vm2 = page_view ?vm1"
      "unat f < NUM_FRAMES" "protected (frame_table vm2 f) = 0" "mapped (frame_table vm2 f) = 0"
      "same_env ?vm1 vm2" "\<forall>p v. valid (table ?vm1 p v) = 0 \<longrightarrow> table vm2 p v = table ?vm1 p v"
    by (auto simp: count_fault_def)
  define e where "e = table vm0 p v"
  have e: "table vm2 p v = e" "valid e = 0" using f(8) v(3) by (simp_all add: count_fault_def e_def)
  have p2: "current_process vm2 = Some p" "running vm2 p" "PTBR vm2 = ptbr vm2 p"
    using f(7) p by (simp_all add: same_env_def count_fault_def running_def)
  note D = paging_invD[OF f(2)]
  let ?e = "e\<lparr>valid := 1, dirty := 0, pfn := f\<rparr>"
  have get2: "get_pte vm2 (PTBR vm2) v = Inr e" using get_current[OF D(1) p2(2,3) v(2)] e by simp
  obtain m where m: "set_pte vm2 (PTBR vm2) v ?e = Inr (vm2\<lparr>mem := m\<rparr>)" "tables_ok (vm2\<lparr>mem := m\<rparr>)"
    "table (vm2\<lparr>mem := m\<rparr>) = put_entry (table vm2) p v ?e" "pages (vm2\<lparr>mem := m\<rparr>) = pages vm2"
    using set_pte_running[OF D(1) p2(2) v(2), of ?e] p2(3) by auto
  let ?fe = "\<lparr>protected = 0, mapped = 1, referenced = 0, process = Some p, vpn = v\<rparr>"
  let ?vm4 = "vm2\<lparr>mem := m, frame_table := (frame_table vm2)(f := ?fe)\<rparr>"
  have ok4: "tables_ok ?vm4" using tables_ok_frame[OF m(2), of ?fe f] f(5) by simp
  have t4: "table ?vm4 = put_entry (table vm2) p v ?e" "pages ?vm4 = pages vm2"
    using m(3,4) by (simp_all add: pages_def fun_eq_iff)
  have "running ?vm4 p" "PTBR ?vm4 = ptbr ?vm4 p" using p2 by simp_all
  from get_current[OF ok4 this v(2)] have get4: "get_pte ?vm4 (PTBR vm2) v = Inr ?e"
    unfolding t4 by simp
  let ?d = "refill (swap_lookup (swp vm2)) e"
  obtain n where n: "fill_frame ?vm4 f (Page_Data ?d) = Inr (?vm4\<lparr>mem := n\<rparr>)" "tables_ok (?vm4\<lparr>mem := n\<rparr>)"
    "table (?vm4\<lparr>mem := n\<rparr>) = table ?vm4" "pages (?vm4\<lparr>mem := n\<rparr>) = (pages ?vm4)(f \<mapsto> ?d)"
    using fill_frame_page[OF ok4 f(4), of ?d] by auto
  have read: "swap_read (swp vm2) ?e = Inr ?d" if "swap e \<noteq> 0"
  proof -
    have "swap_lookup (swp vm2) (swap e) \<noteq> None"
      using D(6) e(1) that unfolding token_inv_def by metis
    then show ?thesis using that sw.read_law[OF D(2), of ?e] by (auto simp: refill_def)
  qed
  have fill: "(if swap_exists ?e then bindE (swap_read (swp ?vm4) ?e) (\<lambda>d. fill_frame ?vm4 f (Page_Data d))
      else fill_frame ?vm4 f (Page_Data zero_page)) = Inr (?vm4\<lparr>mem := n\<rparr>)"
    unfolding n(1)[symmetric] using read by (simp add: swap_exists_def refill_def)
  have fte4: "set_fte (vm2\<lparr>mem := m\<rparr>) f \<lparr>protected = 0, mapped = 1, referenced = 0,
      process = current_process (vm2\<lparr>mem := m\<rparr>), vpn = v\<rparr> = Inr ?vm4"
    using f(4) p2(1) by (simp add: set_fte_def)
  have "PTBR ?vm4 = PTBR vm2" by simp
  note fault = page_fault_def Let_def count_fault_def[symmetric] f(1) prod.case bindE_Inr v(1)[symmetric]
    get2 m(1) fte4 this get4 fill
  have "page_fault vm0 address = Inr (?vm4\<lparr>mem := n\<rparr>)"
    by (simp only: fault)
  moreover have "pages_inv ((frame_table vm2)(f := ?fe)) (put_entry (table vm2) p v ?e)
      ((pages vm2)(f \<mapsto> ?d)) (swap_lookup (swp vm2))"
    and view': "view (put_entry (table vm2) p v ?e) ((pages vm2)(f \<mapsto> ?d)) (swap_lookup (swp vm2))
      = view (table vm2) (pages vm2) (swap_lookup (swp vm2))"
    using install_inv[OF D(3), of p v f ?fe ?e] e f(4,6) by simp_all
  then have "paging_inv (?vm4\<lparr>mem := n\<rparr>)"
    using n D(2) t4 by (simp add: paging_inv_def)
  moreover have "page_view (?vm4\<lparr>mem := n\<rparr>) = page_view vm0"
    using n t4 view' f(3) by (simp add: page_view_def count_fault_def)
  moreover have "same_env ?vm1 (?vm4\<lparr>mem := n\<rparr>)" using f(5,7) by (auto simp: same_env_def)
  moreover have "valid (table (?vm4\<lparr>mem := n\<rparr>) p v) \<noteq> 0" unfolding n(3) t4 by simp
  ultimately show ?thesis by blast
qed

subsection \<open>Physical addresses\<close>

lemma vaddr_offset_less: "unat (vaddr_offset a) < 16384"
proof -
  have "unat (a mod PAGE_SIZE) < 16384"
    using unat_mod_distrib[of a PAGE_SIZE] by simp
  then show ?thesis by (simp add: vaddr_offset_def unat_ucast_mod)
qed

lemma physical_address_split:
  assumes "unat (f :: pfn_t) < NUM_FRAMES" and "unat (x :: u16) < 16384"
  shows "ucast f * PAGE_SIZE + ucast x < MEM_SIZE"
    and "ucast ((ucast f * PAGE_SIZE + ucast x) div PAGE_SIZE) = f"
    and "ucast ((ucast f * PAGE_SIZE + ucast x) mod PAGE_SIZE) = x"
proof -
  have u: "unat (ucast f * PAGE_SIZE + ucast x :: paddr_t) = unat f * 16384 + unat x"
    using assms by (simp add: unat_word_ariths unat_ucast_mod)
  then show "ucast f * PAGE_SIZE + ucast x < MEM_SIZE"
    using assms by (simp add: word_less_nat_alt)
  have "unat ((ucast f * PAGE_SIZE + ucast x :: paddr_t) div PAGE_SIZE) = unat f"
    using u assms by (simp add: unat_div_distrib)
  then show "ucast ((ucast f * PAGE_SIZE + ucast x) div PAGE_SIZE) = f"
    using assms by (intro unat_eqI) (simp add: unat_ucast_mod)
  have "unat ((ucast f * PAGE_SIZE + ucast x :: paddr_t) mod PAGE_SIZE) = unat x"
    using u assms by (simp add: unat_mod_distrib)
  then show "ucast ((ucast f * PAGE_SIZE + ucast x) mod PAGE_SIZE) = x"
    using assms by (intro unat_eqI) (simp add: unat_ucast_mod)
qed

end
