(* ===== verification/Vm_Access.thy ===== *)
theory Vm_Access
  imports Vm_Steps
begin

text \<open>A memory access: the page is brought in when it is not there, then one byte is read or written.\<close>

definition count_access :: "vm \<Rightarrow> bool \<Rightarrow> vm" where
  "count_access vm fault = vm\<lparr>stats := (stats vm)\<lparr>accesses := accesses (stats vm) + 1,
     page_faults := page_faults (stats vm) + (if fault then 1 else 0)\<rparr>\<rparr>"

definition count_rw :: "char \<Rightarrow> vm \<Rightarrow> vm" where
  "count_rw rw vm = (if rw = CHR ''r'' then vm\<lparr>stats := (stats vm)\<lparr>reads := reads (stats vm) + 1\<rparr>\<rparr>
     else vm\<lparr>stats := (stats vm)\<lparr>writes := writes (stats vm) + 1\<rparr>\<rparr>)"

lemma count_rw_simps [simp]:
  "mem (count_rw rw vm) = mem vm" "frame_table (count_rw rw vm) = frame_table vm"
  "PTBR (count_rw rw vm) = PTBR vm" "procs (count_rw rw vm) = procs vm"
  "current_process (count_rw rw vm) = current_process vm" "replacement (count_rw rw vm) = replacement vm"
  "swp (count_rw rw vm) = swp vm" "table (count_rw rw vm) = table vm" "pages (count_rw rw vm) = pages vm"
  "running (count_rw rw vm) = running vm" "tables_ok (count_rw rw vm) = tables_ok vm"
  by (simp_all add: count_rw_def)

text \<open>A condition under which an access (or the start of a process) finds a frame and swap space.\<close>

definition resources :: "vm \<Rightarrow> bool" where
  "resources vm \<longleftrightarrow> replacement vm = RANDOM \<and> 0 < swap_room (swp vm)
     \<and> (\<exists>f. unat f < NUM_FRAMES \<and> protected (frame_table vm f) = 0)"

definition on_cpu :: "vm \<Rightarrow> u32 \<Rightarrow> bool" where
  "on_cpu vm p \<longleftrightarrow> current_process vm = Some p \<and> running vm p \<and> PTBR vm = ptbr vm p"

lemma on_cpu_env: "same_env vm vm' \<Longrightarrow> on_cpu vm p \<Longrightarrow> on_cpu vm' p"
  by (simp add: on_cpu_def same_env_def running_def)

lemma bring_in:
  assumes inv: "paging_inv vm" and res: "resources vm" and cpu: "on_cpu vm p"
    and v: "v = vaddr_vpn address" "unat v < NUM_PAGES"
  shows "\<exists>vm'. (if valid (table vm p v) = 0
      then page_fault (vm\<lparr>stats := (stats vm)\<lparr>accesses := accesses (stats vm) + 1\<rparr>\<rparr>) address
      else Inr (vm\<lparr>stats := (stats vm)\<lparr>accesses := accesses (stats vm) + 1\<rparr>\<rparr>)) = Inr vm'
    \<and> paging_inv vm' \<and> page_view vm' = page_view vm \<and> valid (table vm' p v) \<noteq> 0
    \<and> same_env (count_access vm (valid (table vm p v) = 0)) vm'"
proof (cases "valid (table vm p v) = 0")
  case True
  let ?vm = "vm\<lparr>stats := (stats vm)\<lparr>accesses := accesses (stats vm) + 1\<rparr>\<rparr>"
  have "paging_inv ?vm" using inv by (simp add: paging_inv_def)
  from page_fault_ok[OF this, of p v address] True res cpu v obtain vm' where
    "page_fault ?vm address = Inr vm'" "paging_inv vm'" "page_view vm' = page_view ?vm"
    "valid (table vm' p v) \<noteq> 0" "same_env (count_fault ?vm) vm'"
    by (auto simp: resources_def on_cpu_def)
  with True show ?thesis by (simp add: count_fault_def count_access_def page_view_def)
next
  case False
  with inv show ?thesis
    by (auto simp: paging_inv_def page_view_def count_access_def same_env_def
        intro: exI[of _ "writebacks (stats vm)"])
qed

lemma touch_frame:
  assumes inv: "paging_inv vm" and f: "unat f < NUM_FRAMES"
  shows "\<exists>vm'. set_fte vm f ((frame_table vm f)\<lparr>referenced := 1\<rparr>) = Inr vm' \<and> paging_inv vm'
    \<and> table vm' = table vm \<and> pages vm' = pages vm \<and> swp vm' = swp vm \<and> stats vm' = stats vm \<and> same_env vm vm'"
proof -
  let ?F = "(frame_table vm)(f := (frame_table vm f)\<lparr>referenced := 1\<rparr>)"
  have "tables_ok (vm\<lparr>frame_table := ?F\<rparr>)"
    using paging_invD(1)[OF inv] by (intro tables_ok_frame) simp_all
  moreover have "pages_inv ?F (table vm) (pages vm) (swap_lookup (swp vm))"
    using paging_invD(3)[OF inv] by (intro pages_inv_frames) simp_all
  ultimately show ?thesis
    using inv f by (auto simp: set_fte_def paging_inv_def same_env_def intro: exI[of _ "writebacks (stats vm)"])
qed

lemma load_byte_at:
  assumes "unat f < NUM_FRAMES" "pages vm f = Some d" "unat x < 16384"
  shows "load_byte vm (ucast f * PAGE_SIZE + ucast x) = Inr (d x)"
  using physical_address_split[OF assms(1,3)] get_page_Some[OF assms(1,2)]
  by (simp add: load_byte_def)

lemma store_byte_at:
  assumes "unat f < NUM_FRAMES" "pages vm f = Some d" "unat x < 16384"
  shows "store_byte vm (ucast f * PAGE_SIZE + ucast x) b = fill_frame vm f (Page_Data (d(x := b)))"
  using physical_address_split[OF assms(1,3)] get_page_Some[OF assms(1,2)]
  by (simp add: store_byte_def)

text \<open>The page with one byte changed.\<close>

definition poke :: "(u32 \<Rightarrow> vpn_t \<Rightarrow> page) \<Rightarrow> u32 \<Rightarrow> vaddr_t \<Rightarrow> u8 \<Rightarrow> u32 \<Rightarrow> vpn_t \<Rightarrow> page" where
  "poke V p a b = V(p := (V p)(vaddr_vpn a := (V p (vaddr_vpn a))(vaddr_offset a := b)))"

definition peek :: "(u32 \<Rightarrow> vpn_t \<Rightarrow> page) \<Rightarrow> u32 \<Rightarrow> vaddr_t \<Rightarrow> u8" where
  "peek V p a = V p (vaddr_vpn a) (vaddr_offset a)"

lemma write_byte_ok:
  assumes inv: "paging_inv vm" and cpu: "on_cpu vm p"
    and v: "v = vaddr_vpn address" "unat v < NUM_PAGES" "valid (table vm p v) \<noteq> 0"
  shows "\<exists>vm1 vm'. set_pte vm (PTBR vm) v ((table vm p v)\<lparr>dirty := 1\<rparr>) = Inr vm1
    \<and> store_byte vm1 (ucast (pfn (table vm p v)) * PAGE_SIZE + ucast (vaddr_offset address)) b = Inr vm'
    \<and> paging_inv vm' \<and> page_view vm' = poke (page_view vm) p address b \<and> same_env vm vm'
    \<and> swp vm' = swp vm"
proof -
  note D = paging_invD[OF inv]
  have p: "running vm p" "PTBR vm = ptbr vm p" using cpu by (simp_all add: on_cpu_def)
  define e where "e = table vm p v"
  obtain d where d: "pages vm (pfn e) = Some d" using D(5) v(3) unfolding clean_inv_def e_def by metis
  have f: "unat (pfn e) < NUM_FRAMES" "protected (frame_table vm (pfn e)) = 0"
    using mapped_invD1[OF D(4) v(3)] by (auto simp: e_def dest: owner_SomeD)
  obtain m where m: "set_pte vm (PTBR vm) v (e\<lparr>dirty := 1\<rparr>) = Inr (vm\<lparr>mem := m\<rparr>)" "tables_ok (vm\<lparr>mem := m\<rparr>)"
    "table (vm\<lparr>mem := m\<rparr>) = put_entry (table vm) p v (e\<lparr>dirty := 1\<rparr>)" "pages (vm\<lparr>mem := m\<rparr>) = pages vm"
    using set_pte_running[OF D(1) p(1) v(2), of "e\<lparr>dirty := 1\<rparr>"] p(2) by auto
  let ?x = "vaddr_offset address"
  have "store_byte (vm\<lparr>mem := m\<rparr>) (ucast (pfn e) * PAGE_SIZE + ucast ?x) b
      = fill_frame (vm\<lparr>mem := m\<rparr>) (pfn e) (Page_Data (d(?x := b)))"
    using d m(4) by (intro store_byte_at f vaddr_offset_less) simp
  moreover obtain n where n: "fill_frame (vm\<lparr>mem := m\<rparr>) (pfn e) (Page_Data (d(?x := b))) = Inr (vm\<lparr>mem := n\<rparr>)"
    "tables_ok (vm\<lparr>mem := n\<rparr>)" "table (vm\<lparr>mem := n\<rparr>) = table (vm\<lparr>mem := m\<rparr>)"
    "pages (vm\<lparr>mem := n\<rparr>) = (pages (vm\<lparr>mem := m\<rparr>))(pfn e \<mapsto> d(?x := b))"
    using fill_frame_page[OF m(2), of "pfn e" "d(?x := b)"] f by auto
  moreover have "view (table vm) (pages vm) (swap_lookup (swp vm)) p v = d"
    using d v(3) by (simp add: view_def e_def)
  then have "paging_inv (vm\<lparr>mem := n\<rparr>)"
    and "page_view (vm\<lparr>mem := n\<rparr>) = poke (page_view vm) p address b"
    using write_inv[OF D(3) v(3), of "d(?x := b)"] D(2) m n v(1)
    by (simp_all add: paging_inv_def page_view_def poke_def e_def)
  moreover have "same_env vm (vm\<lparr>mem := n\<rparr>)"
    by (auto simp: same_env_def intro: exI[of _ "writebacks (stats vm)"])
  ultimately show ?thesis using m(1) unfolding e_def by (intro exI[of _ "vm\<lparr>mem := m\<rparr>"] exI[of _ "vm\<lparr>mem := n\<rparr>"]) simp
qed

lemma paging_inv_stats [simp]: "paging_inv (count_rw rw vm) = paging_inv vm"
  by (simp add: paging_inv_def)

lemma page_view_stats [simp]: "page_view (count_rw rw vm) = page_view vm"
  by (simp add: page_view_def)

lemma same_env_rw: "same_env vm vm' \<Longrightarrow> same_env (count_rw rw vm) (count_rw rw vm')"
  by (auto simp: same_env_def count_rw_def intro!: exI[of _ "writebacks (stats vm')"] stats_t.equality)

lemma same_env_trans:
  "same_env a b \<Longrightarrow> same_env b c \<Longrightarrow> swp c = swp b \<Longrightarrow> same_env a c"
  by (auto simp: same_env_def)

lemma mem_access_ok:
  assumes inv: "paging_inv vm" and res: "resources vm" and cpu: "on_cpu vm p"
    and v: "unat (vaddr_vpn address) < NUM_PAGES"
  shows "\<exists>vm'. mem_access vm address rw b
      = Inr (if rw = CHR ''r'' then peek (page_view vm) p address else b, vm')
    \<and> paging_inv vm'
    \<and> page_view vm' = (if rw = CHR ''r'' then page_view vm else poke (page_view vm) p address b)
    \<and> same_env (count_rw rw (count_access vm (valid (table vm p (vaddr_vpn address)) = 0))) vm'"
proof -
  let ?v = "vaddr_vpn address" and ?x = "vaddr_offset address"
  let ?vm1 = "vm\<lparr>stats := (stats vm)\<lparr>accesses := accesses (stats vm) + 1\<rparr>\<rparr>"
  let ?count = "count_access vm (valid (table vm p ?v) = 0)"
  have get0: "get_pte vm (PTBR vm) ?v = Inr (table vm p ?v)"
    using cpu v by (intro get_current paging_invD[OF inv]) (simp_all add: on_cpu_def)
  obtain vm2 where vm2: "(if valid (table vm p ?v) = 0 then page_fault ?vm1 address else Inr ?vm1) = Inr vm2"
    "paging_inv vm2" "page_view vm2 = page_view vm" "valid (table vm2 p ?v) \<noteq> 0" "same_env ?count vm2"
    using bring_in[OF inv res cpu refl v] by blast
  note D = paging_invD[OF vm2(2)]
  have "on_cpu ?count p" using cpu by (simp add: on_cpu_def count_access_def)
  then have cpu2: "on_cpu vm2 p" using on_cpu_env[OF vm2(5)] by blast
  have get2: "get_pte vm2 (PTBR vm2) ?v = Inr (table vm2 p ?v)"
    using cpu2 v by (intro get_current D) (simp_all add: on_cpu_def)
  define f where "f = pfn (table vm2 p ?v)"
  have f: "unat f < NUM_FRAMES" using mapped_invD1[OF D(4) vm2(4)] by (simp add: f_def)
  obtain d where d: "pages vm2 f = Some d" using D(5) vm2(4) unfolding clean_inv_def f_def by metis
  obtain vm3 where vm3: "set_fte vm2 f ((frame_table vm2 f)\<lparr>referenced := 1\<rparr>) = Inr vm3" "paging_inv vm3"
    "table vm3 = table vm2" "pages vm3 = pages vm2" "swp vm3 = swp vm2" "same_env vm2 vm3"
    using touch_frame[OF vm2(2) f] by blast
  let ?vm4 = "count_rw rw vm3"
  have env4: "same_env (count_rw rw ?count) ?vm4"
    using same_env_trans[OF vm2(5) vm3(6,5)] by (rule same_env_rw)
  have view4: "page_view ?vm4 = page_view vm" using vm2(3) vm3(3,4,5) by (simp add: page_view_def)
  have access: "mem_access vm address rw b = (if rw = CHR ''r''
      then bindE (load_byte ?vm4 (ucast f * PAGE_SIZE + ucast ?x)) (\<lambda>b. Inr (b, ?vm4))
      else bindE (set_pte ?vm4 (PTBR ?vm4) ?v ((table vm2 p ?v)\<lparr>dirty := 1\<rparr>)) (\<lambda>vm5.
           bindE (store_byte vm5 (ucast f * PAGE_SIZE + ucast ?x) b) (\<lambda>vm6. Inr (b, vm6))))"
    unfolding mem_access_def Let_def get0 bindE_Inr vm2(1) get2
    using f vm3(1) by (simp add: get_fte_def f_def count_rw_def)
  show ?thesis
  proof (cases "rw = CHR ''r''")
    case True
    have "load_byte ?vm4 (ucast f * PAGE_SIZE + ucast ?x) = Inr (d ?x)"
      using d vm3(4) by (intro load_byte_at f vaddr_offset_less) simp
    moreover have "d = page_view vm p ?v"
      using d vm2(4) unfolding vm2(3)[symmetric] by (simp add: page_view_def view_def f_def)
    ultimately show ?thesis
      using access True vm3(2) env4 view4 by (intro exI[of _ ?vm4]) (simp add: peek_def)
  next
    case False
    have "on_cpu ?vm4 p" using on_cpu_env[OF vm3(6) cpu2] by (simp add: on_cpu_def)
    from write_byte_ok[OF _ this refl v, of b] vm3(2,3) vm2(4) obtain vm5 vm6 where
      "set_pte ?vm4 (PTBR ?vm4) ?v ((table vm2 p ?v)\<lparr>dirty := 1\<rparr>) = Inr vm5"
      "store_byte vm5 (ucast f * PAGE_SIZE + ucast ?x) b = Inr vm6"
      "paging_inv vm6" "page_view vm6 = poke (page_view ?vm4) p address b" "same_env ?vm4 vm6"
      "swp vm6 = swp ?vm4"
      by (auto simp: f_def)
    then show ?thesis
      using access False view4 same_env_trans[OF env4, of vm6] by (intro exI[of _ vm6]) simp
  qed
qed

end
