(* ===== verification/Vm_Procs.thy ===== *)
theory Vm_Procs
  imports Vm_Access
begin

text \<open>Starting and stopping processes, and switching between them.\<close>

subsection \<open>Starting a process\<close>

lemma not_running_entries: "\<not> running vm p \<Longrightarrow> table vm p v = zero_pte"
  by (simp add: table_def)

lemma not_running_view: "\<not> running vm p \<Longrightarrow> page_view vm p v = zero_page"
  by (simp add: page_view_def view_def not_running_entries zero_pte_def refill_def)

text \<open>A new page table: zeroed entries in a frame that becomes protected.\<close>

lemma new_table_tables:
  assumes D: "tables_ok vm" and p: "\<not> running vm p" "pid (procs vm p) = p" and f: "unat f < NUM_FRAMES" "protected (frame_table vm f) = 0"
    and procs': "\<And>q. procs vm' q = (if q = p then (procs vm p)\<lparr>saved_ptbr := f\<rparr> else procs vm q)"
    and run: "\<And>q. running vm' q \<longleftrightarrow> q = p \<or> running vm q"
    and ft': "frame_table vm' = (frame_table vm)(f := fe)" and mem': "mem vm' = (mem vm)(f := Page_Table (\<lambda>_. zero_pte))"
    and fe: "protected fe \<noteq> 0" and f0: "f \<noteq> 0"
  shows "tables_ok vm'"
proof -
  have ne: "ptbr vm q \<noteq> f" if "running vm q" for q using tables_okD[OF D that] f(2) by auto
  have other: "q \<noteq> p" if "running vm q" for q using that p(1) by auto
  show ?thesis
    unfolding tables_ok_def
  proof (intro conjI allI impI, goal_cases)
    case 1
    then show ?case using D f0 ft' by (simp add: tables_ok_def)
  next
    case (2 q)
    show ?case
    proof (cases "q = p")
      case True
      then show ?thesis using f0 f(1) fe p(2) ft' mem' procs' by (simp add: table_frame_def)
    next
      case False
      then have "running vm q" using run 2 by simp
      then have "table_frame vm q" "ptbr vm q \<noteq> f" using D ne by (simp_all add: tables_ok_def)
      then show ?thesis using False ft' mem' procs' by (simp add: table_frame_def)
    qed
  next
    case (3 q r)
    then show ?case
      using table_inj[OF D, of q r] run[of q] run[of r] ne[of q] ne[of r] procs'
      by (auto split: if_splits)
  next
    case (4 g)
    show ?case
    proof (cases "g = f")
      case True
      then show ?thesis using run procs' by (intro disjI2 exI[of _ p]) simp
    next
      case False
      then have "protected (frame_table vm g) \<noteq> 0" using 4 ft' by simp
      then consider "g = 0" | q where "running vm q" "ptbr vm q = g"
        using D 4(1) by (auto simp: tables_ok_def)
      then show ?thesis
      proof cases
        case (2 q)
        then show ?thesis using run[of q] other[of q] procs'[of q] by (intro disjI2 exI[of _ q]) simp
      qed simp
    qed
  qed
qed

lemma new_table_ok:
  assumes inv: "paging_inv vm" and p: "\<not> running vm p" "p < MAX_PID" "pid (procs vm p) = p"
    and f: "unat f < NUM_FRAMES" "protected (frame_table vm f) = 0" "mapped (frame_table vm f) = 0"
    and vm': "vm' = vm\<lparr>mem := (mem vm)(f := Page_Table (\<lambda>_. zero_pte)),
        procs := (procs vm)(p := (procs vm p)\<lparr>saved_ptbr := f\<rparr>),
        frame_table := (frame_table vm)(f := fe)\<rparr>"
    and fe: "protected fe \<noteq> 0" "mapped fe = 0"
  shows "paging_inv vm'" and "page_view vm' = page_view vm" and "running vm' = (running vm)(p := True)"
    and "f \<noteq> 0"
proof -
  note D = paging_invD[OF inv]
  show f0: "f \<noteq> 0" using D(1) f(2) by (auto simp: tables_ok_def)
  have procs': "procs vm' q = (if q = p then (procs vm p)\<lparr>saved_ptbr := f\<rparr> else procs vm q)" for q
    using vm' by simp
  have run: "running vm' q \<longleftrightarrow> q = p \<or> running vm q" for q
    using p f0 procs' by (simp add: running_def)
  then show "running vm' = (running vm)(p := True)" by (simp add: fun_eq_iff)
  have ne: "ptbr vm q \<noteq> f" if "running vm q" for q using tables_okD[OF D(1) that] f(2) by auto
  have other: "q \<noteq> p" if "running vm q" for q using that p(1) by auto
  have ft': "frame_table vm' = (frame_table vm)(f := fe)"
    and mem': "mem vm' = (mem vm)(f := Page_Table (\<lambda>_. zero_pte))"
    and swp': "swp vm' = swp vm" using vm' by simp_all
  have "tables_ok vm'" by (rule new_table_tables[OF D(1) p(1,3) f(1,2) procs' run ft' mem' fe(1) f0])
  moreover have tab: "table vm' = table vm"
  proof (intro ext)
    fix q v
    show "table vm' q v = table vm q v"
    proof (cases "q = p")
      case True
      then show ?thesis using run[of p] p(1) mem' procs' by (simp add: table_def entries_at_def)
    next
      case False
      then show ?thesis using run[of q] ne[of q] mem' procs' by (simp add: table_def)
    qed
  qed
  have M': "pages vm' g = pages vm g" if "g \<noteq> f" for g using that mem' by (simp add: pages_def)
  have pi: "pages_inv ((frame_table vm)(f := fe)) (table vm) (pages vm') (swap_lookup (swp vm))"
    and pv: "view (table vm) (pages vm') (swap_lookup (swp vm))
      = view (table vm) (pages vm) (swap_lookup (swp vm))"
    using pages_inv_unused[OF D(3) f(3) fe(2), of "pages vm'"] M' by simp_all
  show "page_view vm' = page_view vm" using tab swp' pv by (simp add: page_view_def)
  from \<open>tables_ok vm'\<close> show "paging_inv vm'" using D(2) tab swp' ft' pi by (simp add: paging_inv_def)
qed

text \<open>\<open>main\<close> marks the process as running before \<open>proc_init\<close> looks for a frame.\<close>

lemma mark_started:
  assumes "paging_inv vm" and p: "\<not> running vm p"
    and vm': "vm' = vm\<lparr>procs := (procs vm)(p := (procs vm p)\<lparr>pid := i, state := j\<rparr>)\<rparr>"
  shows "paging_inv vm' \<and> page_view vm' = page_view vm \<and> running vm' = running vm"
proof -
  have run: "running vm' = running vm" using vm' by (auto simp: running_def fun_eq_iff)
  have ne: "q \<noteq> p" if "running vm q" for q using that p by auto
  then have same: "procs vm' q = procs vm q" if "running vm q" for q using that vm' by simp
  have rest: "frame_table vm' = frame_table vm" "mem vm' = mem vm" "swp vm' = swp vm" using vm' by simp_all
  have pt: "ptbr vm' q = ptbr vm q" for q using vm' by simp
  have tf: "table_frame vm' q = table_frame vm q" if "running vm q" for q
    using same[OF that] rest by (simp add: table_frame_def)
  have "tables_ok vm' = tables_ok vm"
    unfolding tables_ok_def run rest pt using tf by simp
  moreover have "table vm' = table vm"
    using run same rest by (auto simp: fun_eq_iff table_def)
  moreover have "pages vm' = pages vm" using rest by (simp add: pages_def fun_eq_iff)
  ultimately show ?thesis using assms(1) rest run by (simp add: paging_inv_def page_view_def)
qed

lemma start_process_ok:
  assumes inv: "paging_inv vm" and res: "resources vm" and p: "p < MAX_PID" "\<not> running vm p"
  shows "\<exists>vm' f. start_process vm p = Inr vm' \<and> paging_inv vm' \<and> page_view vm' = page_view vm
    \<and> running vm' = (running vm)(p := True) \<and> f \<noteq> 0
    \<and> procs vm' = (procs vm)(p := (procs vm p)\<lparr>pid := p, state := PROC_RUNNING, saved_ptbr := f\<rparr>)
    \<and> PTBR vm' = PTBR vm \<and> current_process vm' = current_process vm \<and> replacement vm' = replacement vm
    \<and> (\<exists>w. stats vm' = (stats vm)\<lparr>writebacks := w\<rparr>) \<and> swap_room (swp vm) \<le> swap_room (swp vm') + 1"
proof -
  let ?pcb = "(procs vm p)\<lparr>pid := p, state := PROC_RUNNING\<rparr>"
  let ?vm1 = "vm\<lparr>procs := (procs vm)(p := ?pcb)\<rparr>"
  have 1: "paging_inv ?vm1" "page_view ?vm1 = page_view vm" "running ?vm1 = running vm"
    using mark_started[OF inv p(2) refl] by auto
  from free_frame_ok[OF 1(1)] res obtain f vm2 where
    f: "free_frame ?vm1 = Inr (f, vm2)" "paging_inv vm2" "page_view vm2 = page_view ?vm1"
      "unat f < NUM_FRAMES" "protected (frame_table vm2 f) = 0" "mapped (frame_table vm2 f) = 0"
      "same_env ?vm1 vm2"
    by (auto simp: resources_def)
  have procs2: "procs vm2 = (procs vm)(p := ?pcb)" using f(7) by (simp add: same_env_def)
  have run2: "running vm2 = running vm" using 1(3) procs2 by (simp add: running_def fun_eq_iff)
  let ?fe = "\<lparr>protected = 1, mapped = 0, referenced = 0, process = None, vpn = 0\<rparr> :: fte_t"
  let ?vm' = "vm2\<lparr>mem := (mem vm2)(f := Page_Table (\<lambda>_. zero_pte)),
    procs := (procs vm2)(p := (procs vm2 p)\<lparr>saved_ptbr := f\<rparr>), frame_table := (frame_table vm2)(f := ?fe)\<rparr>"
  have "start_process vm p = Inr ?vm'"
    using p(1) f(1,4) procs2
    by (simp add: start_process_def proc_init_def get_proc_def set_proc_def fill_frame_def set_fte_def)
  moreover have "paging_inv ?vm'" "page_view ?vm' = page_view vm2" "running ?vm' = (running vm2)(p := True)" "f \<noteq> 0"
    using new_table_ok[OF f(2) _ p(1) _ f(4,5,6) refl, of ?fe] run2 p(2) procs2 by simp_all
  ultimately show ?thesis
    using f(3,7) 1(2) run2 procs2 by (intro exI[of _ ?vm'] exI[of _ f]) (simp add: same_env_def)
qed

subsection \<open>Stopping a process\<close>

text \<open>What releasing pages never touches.\<close>

definition kept :: "vm \<Rightarrow> vm \<Rightarrow> bool" where
  "kept vm vm' \<longleftrightarrow> procs vm' = procs vm \<and> PTBR vm' = PTBR vm
     \<and> current_process vm' = current_process vm \<and> replacement vm' = replacement vm
     \<and> stats vm' = stats vm \<and> swap_room (swp vm) \<le> swap_room (swp vm')"

lemma kept_refl: "kept vm vm"
  by (simp add: kept_def)

lemma kept_trans: "kept a b \<Longrightarrow> kept b c \<Longrightarrow> kept a c"
  by (auto simp: kept_def)

lemma kept_running: "kept vm vm' \<Longrightarrow> running vm' = running vm"
  by (simp add: kept_def running_def fun_eq_iff)

lemma release_frame_ok:
  assumes inv: "paging_inv vm" and p: "running vm p" and v: "unat v < NUM_PAGES"
  shows "\<exists>vm' e. release_frame vm (ptbr vm p) v = Inr vm' \<and> paging_inv vm' \<and> kept vm vm'
    \<and> table vm' = put_entry (table vm) p v e \<and> valid e = 0 \<and> swap e = swap (table vm p v)
    \<and> (\<forall>q. q \<noteq> p \<longrightarrow> page_view vm' q = page_view vm q)"
proof -
  note D = paging_invD[OF inv]
  define e where "e = table vm p v"
  have get: "get_pte vm (ptbr vm p) v = Inr e" using get_pte_running[OF D(1) p v] by (simp add: e_def)
  show ?thesis
  proof (cases "valid e = 0")
    case True
    moreover have "put_entry (table vm) p v e = table vm" by (auto simp: fun_eq_iff e_def)
    ultimately show ?thesis
      using inv get by (intro exI[of _ vm] exI[of _ e]) (simp add: release_frame_def kept_refl e_def)
  next
    case False
    then have val: "valid (table vm p v) \<noteq> 0" by (simp add: e_def)
    have f: "unat (pfn e) < NUM_FRAMES" using mapped_invD1[OF D(4) val] by (simp add: e_def)
    let ?fe = "(frame_table vm (pfn e))\<lparr>mapped := 0, referenced := 0, process := None, vpn := 0\<rparr>"
    let ?vm1 = "vm\<lparr>frame_table := (frame_table vm)(pfn e := ?fe)\<rparr>"
    have ok1: "tables_ok ?vm1" using tables_ok_frame[OF D(1), of ?fe "pfn e"] by simp
    obtain m where m: "set_pte ?vm1 (ptbr vm p) v (e\<lparr>valid := 0\<rparr>) = Inr (?vm1\<lparr>mem := m\<rparr>)"
      "tables_ok (?vm1\<lparr>mem := m\<rparr>)" "table (?vm1\<lparr>mem := m\<rparr>) = put_entry (table vm) p v (e\<lparr>valid := 0\<rparr>)"
      "pages (?vm1\<lparr>mem := m\<rparr>) = pages vm"
      using set_pte_running[OF ok1 _ v, of p "e\<lparr>valid := 0\<rparr>"] p by auto
    have "release_frame vm (ptbr vm p) v = Inr (?vm1\<lparr>mem := m\<rparr>)"
      using False get f m(1) by (simp add: release_frame_def get_fte_def set_fte_def)
    moreover have "pages_inv ((frame_table vm)(pfn e := ?fe)) (put_entry (table vm) p v (e\<lparr>valid := 0\<rparr>))
        (pages vm) (swap_lookup (swp vm))"
      using release_frame_inv[OF D(3) val, of ?fe] by (simp add: e_def)
    then have "paging_inv (?vm1\<lparr>mem := m\<rparr>)" using m(2-4) D(2) by (simp add: paging_inv_def)
    moreover have "page_view (?vm1\<lparr>mem := m\<rparr>) q = page_view vm q" if "q \<noteq> p" for q
      using that m(3,4) by (simp add: page_view_def view_def fun_eq_iff)
    moreover have "kept vm (?vm1\<lparr>mem := m\<rparr>)" by (simp add: kept_def)
    ultimately show ?thesis
      using m(3) by (intro exI[of _ "?vm1\<lparr>mem := m\<rparr>"] exI[of _ "e\<lparr>valid := 0\<rparr>"]) (simp add: e_def)
  qed
qed

lemma release_swap_ok:
  assumes inv: "paging_inv vm" and p: "running vm p" and v: "unat v < NUM_PAGES"
    and val: "valid (table vm p v) = 0"
  shows "\<exists>vm' e. release_swap vm (ptbr vm p) v = Inr vm' \<and> paging_inv vm' \<and> kept vm vm'
    \<and> table vm' = put_entry (table vm) p v e \<and> valid e = 0 \<and> swap e = 0
    \<and> (\<forall>q. q \<noteq> p \<longrightarrow> page_view vm' q = page_view vm q)"
proof -
  note D = paging_invD[OF inv]
  define e where "e = table vm p v"
  have get: "get_pte vm (ptbr vm p) v = Inr e" using get_pte_running[OF D(1) p v] by (simp add: e_def)
  show ?thesis
  proof (cases "swap e = 0")
    case True
    moreover have "put_entry (table vm) p v e = table vm" by (auto simp: fun_eq_iff e_def)
    ultimately show ?thesis
      using inv get val
      by (intro exI[of _ vm] exI[of _ e]) (simp add: release_swap_def swap_exists_def kept_refl e_def)
  next
    case False
    then obtain d where d: "swap_lookup (swp vm) (swap e) = Some d"
      using D(6) unfolding token_inv_def e_def by blast
    obtain s where s: "swap_free (swp vm) e = Inr (s, e\<lparr>swap := 0\<rparr>)" "swap_inv s"
      "swap_lookup s = (swap_lookup (swp vm))(swap e := None)" "swap_room (swp vm) \<le> swap_room s"
      using sw.free_law[OF D(2) d] by blast
    let ?vm1 = "vm\<lparr>swp := s\<rparr>" and ?e = "e\<lparr>swap := 0\<rparr>"
    obtain m where m: "set_pte ?vm1 (ptbr vm p) v ?e = Inr (?vm1\<lparr>mem := m\<rparr>)"
      "tables_ok (?vm1\<lparr>mem := m\<rparr>)" "table (?vm1\<lparr>mem := m\<rparr>) = put_entry (table vm) p v ?e"
      "pages (?vm1\<lparr>mem := m\<rparr>) = pages vm"
      using set_pte_running[of ?vm1 p v ?e] D(1) p v by auto
    have "release_swap vm (ptbr vm p) v = Inr (?vm1\<lparr>mem := m\<rparr>)"
      using False get s(1) m(1) by (simp add: release_swap_def swap_exists_def)
    moreover have "pages_inv (frame_table vm) (put_entry (table vm) p v ?e) (pages vm) (swap_lookup s)"
      unfolding s(3) using release_swap_inv[OF D(3) val] False by (simp add: e_def)
    then have "paging_inv (?vm1\<lparr>mem := m\<rparr>)" using m(2-4) s(2) by (simp add: paging_inv_def)
    moreover have "page_view (?vm1\<lparr>mem := m\<rparr>) q = page_view vm q" if "q \<noteq> p" for q
    proof
      fix w
      have "(q, w) \<noteq> (p, v)" using that by simp
      from release_view[OF this D(3), of ?e] show "page_view (?vm1\<lparr>mem := m\<rparr>) q w = page_view vm q w"
        using m(3,4) s(3) by (simp add: page_view_def e_def)
    qed
    moreover have "kept vm (?vm1\<lparr>mem := m\<rparr>)" using s(4) by (simp add: kept_def)
    ultimately show ?thesis
      using m(3) val by (intro exI[of _ "?vm1\<lparr>mem := m\<rparr>"] exI[of _ ?e]) (simp add: e_def)
  qed
qed

lemma cleanup_loop_ok:
  assumes "paging_inv vm" and "running vm p" and "n \<le> NUM_PAGES"
  shows "\<exists>vm'. foldE (cleanup_page (ptbr vm p)) vm [0..<n] = Inr vm' \<and> paging_inv vm' \<and> kept vm vm'
    \<and> (\<forall>v. unat v < n \<longrightarrow> valid (table vm' p v) = 0 \<and> swap (table vm' p v) = 0)
    \<and> (\<forall>q. q \<noteq> p \<longrightarrow> page_view vm' q = page_view vm q)"
  using assms(3)
proof (induction n)
  case 0
  then show ?case using assms(1) by (simp add: kept_refl)
next
  case (Suc n)
  then obtain vm1 where 1: "foldE (cleanup_page (ptbr vm p)) vm [0..<n] = Inr vm1" "paging_inv vm1" "kept vm vm1"
    "\<forall>v. unat v < n \<longrightarrow> valid (table vm1 p v) = 0 \<and> swap (table vm1 p v) = 0"
    "\<forall>q. q \<noteq> p \<longrightarrow> page_view vm1 q = page_view vm q"
    by auto
  have pt1: "ptbr vm1 p = ptbr vm p" "running vm1 p" using 1(3) assms(2) by (simp_all add: kept_def running_def)
  let ?v = "of_nat n :: vpn_t"
  have v: "unat ?v = n" "unat ?v < NUM_PAGES" using Suc.prems by (simp_all add: unat_of_nat)
  obtain vm2 e2 where 2: "release_frame vm1 (ptbr vm p) ?v = Inr vm2" "paging_inv vm2" "kept vm1 vm2"
    "table vm2 = put_entry (table vm1) p ?v e2" "valid e2 = 0" "\<forall>q. q \<noteq> p \<longrightarrow> page_view vm2 q = page_view vm1 q"
    using release_frame_ok[OF 1(2) pt1(2) v(2)] pt1(1) by metis
  have pt2: "ptbr vm2 p = ptbr vm p" "running vm2 p"
    using 2(3) pt1 by (simp_all add: kept_def running_def)
  obtain vm3 e3 where 3: "release_swap vm2 (ptbr vm p) ?v = Inr vm3" "paging_inv vm3" "kept vm2 vm3"
    "table vm3 = put_entry (table vm2) p ?v e3" "valid e3 = 0" "swap e3 = 0"
    "\<forall>q. q \<noteq> p \<longrightarrow> page_view vm3 q = page_view vm2 q"
    using release_swap_ok[OF 2(2) pt2(2) v(2)] 2(4,5) pt2(1) by auto
  have "foldE (cleanup_page (ptbr vm p)) vm [0..<Suc n] = Inr vm3"
    using 1(1) 2(1) 3(1) by (simp add: foldE_append cleanup_page_def)
  moreover have "valid (table vm3 p w) = 0 \<and> swap (table vm3 p w) = 0" if "unat w < Suc n" for w
  proof (cases "w = ?v")
    case False
    then have "unat w \<noteq> n" using v(1) unat_eqI by metis
    with that False show ?thesis using 1(4) 2(4) 3(4) by simp
  qed (use 3 in simp)
  moreover have "kept vm vm3" using kept_trans[OF kept_trans[OF 1(3) 2(3)] 3(3)] .
  ultimately show ?case using 1(5) 2(6) 3(2,7) by auto
qed

lemma drop_table_ok:
  assumes inv: "paging_inv vm" and p: "running vm p"
    and none: "\<And>v. unat v < NUM_PAGES \<Longrightarrow> valid (table vm p v) = 0 \<and> swap (table vm p v) = 0"
    and fe: "protected fe = 0" "mapped fe = 0"
    and vm': "vm' = vm\<lparr>frame_table := (frame_table vm)(ptbr vm p := fe),
      procs := (procs vm)(p := (procs vm p)\<lparr>saved_ptbr := 0, state := j\<rparr>)\<rparr>"
  shows "paging_inv vm'" and "page_view vm' = page_view vm" and "running vm' = (running vm)(p := False)"
proof -
  note D = paging_invD[OF inv]
  let ?f = "ptbr vm p"
  note F = tables_okD[OF D(1) p]
  show run: "running vm' = (running vm)(p := False)" using vm' by (auto simp: running_def fun_eq_iff)
  have none': "valid (table vm p v) = 0 \<and> swap (table vm p v) = 0" for v
    using none[of v] by (cases "unat v < NUM_PAGES") (auto simp: table_def zero_pte_def)
  have procs': "procs vm' q = procs vm q" if "q \<noteq> p" for q using that vm' by simp
  have ne: "ptbr vm q \<noteq> ?f" if "running vm q" "q \<noteq> p" for q using table_inj[OF D(1) that(1) p] that(2) by auto
  have ft': "frame_table vm' = (frame_table vm)(?f := fe)" and mem': "mem vm' = mem vm"
    and swp': "swp vm' = swp vm" using vm' by simp_all
  have "tables_ok vm'"
    unfolding tables_ok_def run
  proof (intro conjI allI impI, goal_cases)
    case 1
    then show ?case using D(1) F(2) ft' by (simp add: tables_ok_def)
  next
    case (2 q)
    then have q: "running vm q" "q \<noteq> p" by (auto split: if_splits)
    then have "table_frame vm q" using D(1) by (simp add: tables_ok_def)
    then show ?case using ne[OF q] procs'[OF q(2)] ft' mem' by (simp add: table_frame_def)
  next
    case (3 q r)
    then show ?case using table_inj[OF D(1), of q r] procs'[of q] procs'[of r] by (auto split: if_splits)
  next
    case (4 g)
    then have g: "g \<noteq> ?f" "protected (frame_table vm g) \<noteq> 0" using ft' fe(1) by (auto split: if_splits)
    then consider "g = 0" | q where "running vm q" "ptbr vm q = g"
      using D(1) 4(1) by (auto simp: tables_ok_def)
    then show ?case
    proof cases
      case (2 q)
      moreover from this g(1) have "q \<noteq> p" by auto
      ultimately show ?thesis using procs' by (intro disjI2 exI[of _ q]) simp
    qed simp
  qed
  moreover have tab: "table vm' = (table vm)(p := \<lambda>_. zero_pte)"
    using run procs' mem' by (auto simp: table_def fun_eq_iff)
  have pg: "pages vm' = pages vm" using mem' by (simp add: pages_def fun_eq_iff)
  have um: "mapped (frame_table vm ?f) = 0"
    using mapped_invD2[OF D(4) F(3)] F(4) by (metis owner_SomeD)
  have pi: "pages_inv ((frame_table vm)(?f := fe)) (table vm) (pages vm) (swap_lookup (swp vm))"
    using pages_inv_unused(1)[OF D(3) um fe(2), of "pages vm"] by simp
  show "page_view vm' = page_view vm"
    using forget_inv(2)[OF pi, of p] none' tab pg swp' by (simp add: page_view_def)
  have "pages_inv (frame_table vm') (table vm') (pages vm') (swap_lookup (swp vm'))"
    using forget_inv(1)[OF pi, of p] none' tab pg swp' ft' by simp
  with \<open>tables_ok vm'\<close> show "paging_inv vm'" using D(2) swp' by (simp add: paging_inv_def)
qed

lemma stop_process_ok:
  assumes inv: "paging_inv vm" and p: "running vm p"
  shows "\<exists>vm'. stop_process vm p = Inr vm' \<and> paging_inv vm' \<and> page_view vm' = (page_view vm)(p := \<lambda>_. zero_page)
    \<and> running vm' = (running vm)(p := False)
    \<and> procs vm' = (procs vm)(p := (procs vm p)\<lparr>saved_ptbr := 0, state := PROC_STOPPED\<rparr>)
    \<and> PTBR vm' = PTBR vm \<and> current_process vm' = current_process vm \<and> replacement vm' = replacement vm
    \<and> stats vm' = stats vm \<and> swap_room (swp vm) \<le> swap_room (swp vm')"
proof -
  obtain vm1 where 1: "foldE (cleanup_page (ptbr vm p)) vm [0..<NUM_PAGES] = Inr vm1" "paging_inv vm1" "kept vm vm1"
    "\<forall>v. unat v < NUM_PAGES \<longrightarrow> valid (table vm1 p v) = 0 \<and> swap (table vm1 p v) = 0"
    "\<forall>q. q \<noteq> p \<longrightarrow> page_view vm1 q = page_view vm q"
    using cleanup_loop_ok[OF inv p order_refl] by blast
  have pt1: "procs vm1 = procs vm" "running vm1 p" using 1(3) p by (simp_all add: kept_def running_def)
  let ?fe = "\<lparr>protected = 0, mapped = 0, referenced = 0, process = None, vpn = 0\<rparr> :: fte_t"
  let ?vm' = "vm1\<lparr>frame_table := (frame_table vm1)(ptbr vm1 p := ?fe),
      procs := (procs vm1)(p := (procs vm1 p)\<lparr>saved_ptbr := 0, state := PROC_STOPPED\<rparr>)\<rparr>"
  have b: "unat (ptbr vm p) < NUM_FRAMES" "p < MAX_PID"
    using tables_okD[OF paging_invD(1)[OF inv] p] by simp_all
  have "proc_cleanup vm p = Inr (vm1\<lparr>frame_table := (frame_table vm1)(ptbr vm1 p := ?fe)\<rparr>)"
    unfolding proc_cleanup_def using b 1(1) pt1(1) by (simp add: get_proc_def set_fte_def)
  then have "stop_process vm p = Inr ?vm'"
    using b by (simp add: stop_process_def get_proc_def set_proc_def)
  moreover have d: "paging_inv ?vm'" "page_view ?vm' = page_view vm1" "running ?vm' = (running vm1)(p := False)"
    using drop_table_ok[OF 1(2) pt1(2) _ _ _ refl, of ?fe PROC_STOPPED] 1(4) by auto
  moreover have "page_view vm1 p = (\<lambda>_. zero_page)"
    using not_running_view[of ?vm' p] d(2,3) by auto
  then have "page_view vm1 = (page_view vm)(p := \<lambda>_. zero_page)"
    using 1(5) by (auto simp: fun_eq_iff)
  ultimately show ?thesis
    using 1(3) kept_running[OF 1(3)] pt1(1) by (intro exI[of _ ?vm']) (simp add: kept_def)
qed

end
