(* ===== verification/Vm_Check.thy ===== *)
theory Vm_Check
  imports Vm_Procs
begin

text \<open>
  The simulator's own consistency check never panics on a state that satisfies the invariant.
\<close>

subsection \<open>Arrays of flags as sets of frames\<close>

definition marks :: "flags \<Rightarrow> pfn_t set" where
  "marks fl = {f. unat f < NUM_FRAMES \<and> fl ! unat f \<noteq> 0}"

definition flags_of :: "flags \<Rightarrow> pfn_t set \<Rightarrow> bool" where
  "flags_of fl S \<longleftrightarrow> length fl = NUM_FRAMES \<and> marks fl = S"

lemma flags_of_zero: "flags_of (replicate NUM_FRAMES 0) {}"
  by (auto simp: flags_of_def marks_def)

lemma mark_flag_ok:
  assumes "flags_of fl S" and "unat f < NUM_FRAMES"
  shows "\<exists>fl'. mark_flag fl f = Inr fl' \<and> flags_of fl' (insert f S)"
proof -
  have "mark_flag fl f = Inr (fl[unat f := 1])"
    unfolding mark_flag_def using assms by (intro arr_set_nat) (simp add: flags_of_def)
  moreover have "marks (fl[unat f := 1]) = insert f (marks fl)"
  proof -
    have "fl[unat f := 1] ! unat g = (if g = f then 1 else fl ! unat g)" if "unat g < NUM_FRAMES" for g
      using assms that unat_eqI[of f g] by (auto simp: flags_of_def nth_list_update)
    then show ?thesis using assms(2) by (auto simp: marks_def split: if_splits)
  qed
  ultimately show ?thesis using assms(1) by (simp add: flags_of_def)
qed

lemma flag_at_ok:
  assumes "flags_of fl S" and "unat f < NUM_FRAMES"
  shows "\<exists>b. flag_at fl f = Inr b \<and> (b \<noteq> 0 \<longleftrightarrow> f \<in> S)"
proof -
  have "flag_at fl f = Inr (fl ! unat f)"
    unfolding flag_at_def using assms by (intro arr_get_nat) (simp add: flags_of_def)
  then show ?thesis using assms by (auto simp: flags_of_def marks_def)
qed

lemma panic_if_False [simp]: "panic_if False msg = Inr ()"
  by (simp add: panic_if_def)

lemma foldE_unit: "(\<And>i. i \<in> set xs \<Longrightarrow> f () i = Inr ()) \<Longrightarrow> foldE f () xs = Inr ()"
  by (induction xs) auto

lemma pid_of_nat: "i < unat MAX_PID \<Longrightarrow> (of_nat i :: u32) < MAX_PID \<and> unat (of_nat i :: u32) = i"
  by (simp add: MAX_PID_def word_less_nat_alt unat_of_nat)

lemma vpn_of_nat: "i < NUM_PAGES \<Longrightarrow> unat (of_nat i :: vpn_t) = i"
  by (simp add: unat_of_nat)

lemma unat_less_Suc: "unat (x :: 'a::len word) < Suc n \<longleftrightarrow> unat x < n \<or> unat x = n"
  by auto

subsection \<open>Page tables\<close>

lemma vm_invD:
  assumes "vm_inv vm"
  shows "paging_inv vm" "current_ok vm" "replacement vm = RANDOM"
    "\<And>p. p < MAX_PID \<Longrightarrow> state (procs vm p) = PROC_RUNNING \<longleftrightarrow> running vm p"
  using assms by (simp_all add: vm_inv_def running_def)

lemma check_ptbr_loop:
  assumes inv: "vm_inv vm" and fl: "flags_of fl {0}" and "n \<le> unat MAX_PID"
  shows "\<exists>prot. foldE (check_ptbr vm) fl [0..<n] = Inr prot
    \<and> flags_of prot (insert 0 {f. \<exists>p. unat p < n \<and> running vm p \<and> ptbr vm p = f})"
  using assms(3)
proof (induction n)
  case 0
  then show ?case using fl by simp
next
  case (Suc n)
  note D = paging_invD[OF vm_invD(1)[OF inv]]
  from Suc obtain prot where prot: "foldE (check_ptbr vm) fl [0..<n] = Inr prot"
    "flags_of prot (insert 0 {f. \<exists>p. unat p < n \<and> running vm p \<and> ptbr vm p = f})"
    by auto
  let ?p = "of_nat n :: u32"
  have p: "?p < MAX_PID" "unat ?p = n" using pid_of_nat[of n] Suc.prems by simp_all
  have at: "unat q = n \<longleftrightarrow> q = ?p" for q using p(2) unat_eqI by metis
  show ?case
  proof (cases "running vm ?p")
    case False
    then have "check_ptbr vm prot n = Inr prot"
      using p(1) vm_invD(4)[OF inv] by (simp add: check_ptbr_def get_proc_def)
    moreover have "{f. \<exists>q. unat q < Suc n \<and> running vm q \<and> ptbr vm q = f}
        = {f. \<exists>q. unat q < n \<and> running vm q \<and> ptbr vm q = f}"
      using False unfolding unat_less_Suc at by blast
    ultimately show ?thesis using prot by (auto simp: foldE_append)
  next
    case True
    note T = tables_okD[OF D(1) True]
    obtain prot' where m: "mark_flag prot (ptbr vm ?p) = Inr prot'"
      "flags_of prot' (insert (ptbr vm ?p) (insert 0 {f. \<exists>p. unat p < n \<and> running vm p \<and> ptbr vm p = f}))"
      using mark_flag_ok[OF prot(2) T(3)] by blast
    have "check_ptbr vm prot n = Inr prot'"
      using p(1) vm_invD(4)[OF inv] True T(2,3,4) m(1)
      by (simp add: check_ptbr_def get_proc_def get_fte_def)
    moreover have "insert (ptbr vm ?p) (insert 0 {f. \<exists>q. unat q < n \<and> running vm q \<and> ptbr vm q = f})
        = insert 0 {f. \<exists>q. unat q < Suc n \<and> running vm q \<and> ptbr vm q = f}"
      using True unfolding unat_less_Suc at by blast
    ultimately show ?thesis using prot(1) m(2) by (auto simp: foldE_append)
  qed
qed

abbreviation table_frames :: "vm \<Rightarrow> pfn_t set" where
  "table_frames vm \<equiv> insert 0 {f. \<exists>p. running vm p \<and> ptbr vm p = f}"

lemma protected_iff:
  assumes "tables_ok vm" and "unat f < NUM_FRAMES"
  shows "protected (frame_table vm f) \<noteq> 0 \<longleftrightarrow> f \<in> table_frames vm"
  using assms unfolding tables_ok_def table_frame_def by auto

subsection \<open>Page table entries\<close>

text \<open>The frames of the valid entries that come before page \<open>k\<close> of process \<open>n\<close>.\<close>

definition seen :: "vm \<Rightarrow> nat \<Rightarrow> nat \<Rightarrow> pfn_t set" where
  "seen vm n k = {f. \<exists>p v. valid (table vm p v) \<noteq> 0 \<and> pfn (table vm p v) = f
     \<and> (unat p < n \<or> unat p = n \<and> unat v < k)}"

lemma check_mapping_ok:
  assumes inv: "vm_inv vm" and val: "valid (table vm p v) \<noteq> 0"
    and prot: "flags_of prot (table_frames vm)" and mapd: "flags_of mapd S"
    and new: "pfn (table vm p v) \<notin> S"
  shows "\<exists>mapd'. check_mapping vm prot p v (table vm p v) mapd = Inr mapd'
    \<and> flags_of mapd' (insert (pfn (table vm p v)) S)"
proof -
  note D = paging_invD[OF vm_invD(1)[OF inv]]
  let ?f = "pfn (table vm p v)"
  have f: "unat ?f < NUM_FRAMES" "protected (frame_table vm ?f) = 0" "mapped (frame_table vm ?f) \<noteq> 0"
    "process (frame_table vm ?f) = Some p" "vpn (frame_table vm ?f) = v"
    using mapped_invD1[OF D(4) val] owner_SomeD by blast+
  have p: "running vm p" using valid_running[OF val] by simp
  then have pid: "pid (procs vm p) = p" "p < MAX_PID" using tables_okD[OF D(1)] by simp_all
  have np: "?f \<notin> table_frames vm" using protected_iff[OF D(1) f(1)] f(2) by simp
  then have f0: "?f \<noteq> 0" by simp
  obtain bp where bp: "flag_at prot ?f = Inr bp" "bp = 0" using flag_at_ok[OF prot f(1)] np by blast
  obtain bm where bm: "flag_at mapd ?f = Inr bm" "bm = 0" using flag_at_ok[OF mapd f(1)] new by blast
  obtain mapd' where m: "mark_flag mapd ?f = Inr mapd'" "flags_of mapd' (insert ?f S)"
    using mark_flag_ok[OF mapd f(1)] by blast
  have "\<not> unat ?f > NUM_FRAMES - 1" using f(1) by simp
  then have "check_mapping vm prot p v (table vm p v) mapd = Inr mapd'"
    unfolding check_mapping_def Let_def
    using bp bm m(1) f f0 pid by (simp add: get_fte_def get_proc_def)
  then show ?thesis using m(2) by blast
qed

lemma check_entry_ok:
  assumes inv: "vm_inv vm" and p: "running vm p" and k: "k < NUM_PAGES"
    and prot: "flags_of prot (table_frames vm)" and mapd: "flags_of mapd (seen vm (unat p) k)"
  shows "\<exists>mapd'. check_entry vm prot p (ptbr vm p) mapd k = Inr mapd' \<and> flags_of mapd' (seen vm (unat p) (Suc k))"
proof -
  note D = paging_invD[OF vm_invD(1)[OF inv]]
  let ?v = "of_nat k :: vpn_t"
  define e where "e = table vm p ?v"
  have v: "unat ?v = k" using vpn_of_nat[OF k] .
  have at: "unat w = k \<longleftrightarrow> w = ?v" "unat q = unat p \<longleftrightarrow> q = p" for w q using v unat_eqI by metis+
  have get: "get_pte vm (ptbr vm p) ?v = Inr e" using get_pte_running[OF D(1) p] v k by (simp add: e_def)
  have flags: "valid e = 0 \<or> valid e = 1" "dirty e = 0 \<or> dirty e = 1"
    using D(7) unfolding flags_inv_def e_def by blast+
  have swap_ok: "(if swap e = 0 then Inr m else bindE (swap_queue_find (swp vm) (swap e)) (\<lambda>found.
       bindE (panic_if (found = None)
         ''Page table entry points to swap entry that does not exist'') (\<lambda>_. Inr m))) = Inr m" for m :: flags
  proof (cases "swap e = 0")
    case False
    then have "swap_lookup (swp vm) (swap e) \<noteq> None" using D(6) unfolding token_inv_def e_def by blast
    then obtain a where "swap_queue_find (swp vm) (swap e) = Inr (Some a)"
      unfolding swap_lookup_def by (auto split: sum.splits option.splits)
    then show ?thesis using False by simp
  qed simp
  have step: "seen vm (unat p) (Suc k) = (if valid e \<noteq> 0 then insert (pfn e) (seen vm (unat p) k) else seen vm (unat p) k)"
    unfolding seen_def unat_less_Suc at e_def by auto
  have "\<exists>mapd'. (if valid e \<noteq> 0 then check_mapping vm prot p ?v e mapd else Inr mapd) = Inr mapd'
      \<and> flags_of mapd' (seen vm (unat p) (Suc k))"
  proof (cases "valid e = 0")
    case True
    then show ?thesis using mapd step by simp
  next
    case False
    have "pfn e \<notin> seen vm (unat p) k"
    proof
      assume "pfn e \<in> seen vm (unat p) k"
      then obtain q w where "valid (table vm q w) \<noteq> 0" "pfn (table vm q w) = pfn e"
        "unat q < unat p \<or> unat q = unat p \<and> unat w < k" by (auto simp: seen_def)
      with frame_injective[OF D(4), of q w p ?v] False v show False by (auto simp: e_def)
    qed
    with check_mapping_ok[OF inv, of p ?v prot mapd] False prot mapd step show ?thesis by (simp add: e_def)
  qed
  then show ?thesis
    unfolding check_entry_def get bindE_Inr using flags swap_ok by auto
qed

lemma seen_wrap: "seen vm n NUM_PAGES = seen vm (Suc n) 0"
proof -
  have "unat v < NUM_PAGES" if "valid (table vm p v) \<noteq> 0" for p v using valid_running[OF that] by simp
  then show ?thesis unfolding seen_def unat_less_Suc by blast
qed

lemma check_table_entries:
  assumes inv: "vm_inv vm" and p: "running vm p" and prot: "flags_of prot (table_frames vm)"
    and mapd: "flags_of mapd (seen vm (unat p) 0)" and "k \<le> NUM_PAGES"
  shows "\<exists>mapd'. foldE (check_entry vm prot p (ptbr vm p)) mapd [0..<k] = Inr mapd'
    \<and> flags_of mapd' (seen vm (unat p) k)"
  using assms(5)
proof (induction k)
  case 0
  then show ?case using mapd by simp
next
  case (Suc k)
  then obtain m where "foldE (check_entry vm prot p (ptbr vm p)) mapd [0..<k] = Inr m"
    "flags_of m (seen vm (unat p) k)" by auto
  then show ?case using check_entry_ok[OF inv p _ prot, of k m] Suc.prems by (auto simp: foldE_append)
qed

lemma check_table_loop:
  assumes inv: "vm_inv vm" and prot: "flags_of prot (table_frames vm)" and "n \<le> unat MAX_PID"
  shows "\<exists>mapd. foldE (check_table vm prot) (replicate NUM_FRAMES 0) [0..<n] = Inr mapd
    \<and> flags_of mapd (seen vm n 0)"
  using assms(3)
proof (induction n)
  case 0
  have "seen vm 0 0 = {}" by (simp add: seen_def)
  then show ?case using flags_of_zero by simp
next
  case (Suc n)
  then obtain m where m: "foldE (check_table vm prot) (replicate NUM_FRAMES 0) [0..<n] = Inr m"
    "flags_of m (seen vm n 0)" by auto
  let ?p = "of_nat n :: u32"
  have p: "?p < MAX_PID" "unat ?p = n" using pid_of_nat[of n] Suc.prems by simp_all
  have "\<exists>m'. check_table vm prot m n = Inr m' \<and> flags_of m' (seen vm (Suc n) 0)"
  proof (cases "running vm ?p")
    case True
    then show ?thesis
      using check_table_entries[OF inv True prot _ order_refl, of m] m(2) p vm_invD(4)[OF inv p(1)]
      by (simp add: check_table_def get_proc_def seen_wrap del: num_pages_value)
  next
    case False
    have not_at: "unat q \<noteq> n" if "valid (table vm q v) \<noteq> 0" for q v
    proof
      assume "unat q = n"
      then have "q = ?p" by (intro unat_eqI) (simp only: p(2))
      then show False using valid_running[OF that] False by blast
    qed
    have "seen vm (Suc n) 0 = seen vm n 0"
      using not_at unfolding seen_def unat_less_Suc by blast
    then show ?thesis using False m(2) p(1) vm_invD(4)[OF inv p(1)] by (simp add: check_table_def get_proc_def)
  qed
  then show ?case using m(1) by (auto simp: foldE_append)
qed

text \<open>The check passes.\<close>

lemma check_validity_ok:
  assumes inv: "vm_inv vm"
  shows "check_validity vm n = Inr ()"
proof -
  note D = paging_invD[OF vm_invD(1)[OF inv]]
  have F0: "protected (frame_table vm 0) \<noteq> 0" using D(1) by (simp add: tables_ok_def)
  obtain fl where fl: "mark_flag (replicate NUM_FRAMES 0) 0 = Inr fl" "flags_of fl {0}"
    using mark_flag_ok[OF flags_of_zero, of 0] by auto
  have all: "unat p < unat MAX_PID" if "running vm p" for p
    using that by (simp add: running_def word_less_nat_alt)
  then have tf: "{f. \<exists>p. unat p < unat MAX_PID \<and> running vm p \<and> ptbr vm p = f} = {f. \<exists>p. running vm p \<and> ptbr vm p = f}"
    by blast
  obtain prot where prot: "foldE (check_ptbr vm) fl [0..<unat MAX_PID] = Inr prot" "flags_of prot (table_frames vm)"
    using check_ptbr_loop[OF inv fl(2) order_refl] unfolding tf by blast
  obtain mapd where mapd: "foldE (check_table vm prot) (replicate NUM_FRAMES 0) [0..<unat MAX_PID] = Inr mapd"
    "flags_of mapd (seen vm (unat MAX_PID) 0)"
    using check_table_loop[OF inv prot(2) order_refl] by blast
  have 1: "check_protected vm prot () i = Inr ()" if "i < NUM_FRAMES" for i
    using flag_at_ok[OF prot(2), of "of_nat i"] protected_iff[OF D(1), of "of_nat i"] that
    by (auto simp: check_protected_def get_fte_def)
  have 2: "check_mapped vm mapd () i = Inr ()" if i: "i < NUM_FRAMES" for i
  proof -
    have "of_nat i \<in> seen vm (unat MAX_PID) 0" if "mapped (frame_table vm (of_nat i)) \<noteq> 0"
    proof -
      have "unat (of_nat i :: pfn_t) < NUM_FRAMES" using i by (simp only: unat_frame)
      from mapped_invD2[OF D(4) this that]
      obtain p v where "valid (table vm p v) \<noteq> 0" "pfn (table vm p v) = of_nat i" by blast
      with all valid_running show ?thesis unfolding seen_def by blast
    qed
    then show ?thesis
      using flag_at_ok[OF mapd(2), of "of_nat i"] i
      by (cases "mapped (frame_table vm (of_nat i)) = 0") (auto simp: check_mapped_def get_fte_def)
  qed
  have "foldE (check_protected vm prot) () [0..<NUM_FRAMES] = Inr ()" using 1 by (intro foldE_unit) auto
  moreover have "foldE (check_mapped vm mapd) () [0..<NUM_FRAMES] = Inr ()" using 2 by (intro foldE_unit) auto
  moreover have "get_fte vm 0 = Inr (frame_table vm 0)" by (simp add: get_fte_def)
  ultimately show ?thesis
    unfolding check_validity_def fl(1) using prot(1) mapd(1) F0 by simp
qed

end
