(* ===== verification/Vm_Ref.thy ===== *)
theory Vm_Ref
  imports Vm_Check
begin

text \<open>
  What the simulator promises: every process has its own memory of \<open>2 ^ 24\<close> bytes, all zero when it
  starts. The reference machine below has no frames, no page tables and no swap space. The lemmas
  relate each command of a trace on the two machines.
\<close>

subsection \<open>The reference machine\<close>

record ref_vm =
  live :: "u32 set"
  bytes :: "u32 \<Rightarrow> vaddr_t \<Rightarrow> u8"
  cur :: "u32 option"
  n_reads :: nat
  n_writes :: nat

definition ref_init :: ref_vm where
  "ref_init = \<lparr>live = {}, bytes = (\<lambda>_ _. 0), cur = None, n_reads = 0, n_writes = 0\<rparr>"

definition ref_step :: "ref_vm \<Rightarrow> command \<Rightarrow> ref_vm \<times> u8 option" where
  "ref_step r c = (case c of
     START p \<Rightarrow> (r\<lparr>live := insert p (live r), bytes := (bytes r)(p := \<lambda>_. 0)\<rparr>, None)
   | STOP p \<Rightarrow> (r\<lparr>live := live r - {p}\<rparr>, None)
   | ACCESS p rw a d \<Rightarrow>
       if rw = CHR ''r'' then (r\<lparr>cur := Some p, n_reads := n_reads r + 1\<rparr>, Some (bytes r p a))
       else (r\<lparr>cur := Some p, n_writes := n_writes r + 1,
               bytes := (bytes r)(p := (bytes r p)(a := d))\<rparr>, Some d)
   | _ \<Rightarrow> (r, None))"

text \<open>
  The traces the simulator is made for. A process is started once and not again while it is the
  current process, it is accessed and stopped while it runs, addresses have 24 bits, and
  at most 62 processes run at a time (63 frames less one for a page).
\<close>

definition allowed :: "ref_vm \<Rightarrow> command \<Rightarrow> bool" where
  "allowed r c \<longleftrightarrow> (case c of
     START p \<Rightarrow> p < MAX_PID \<and> p \<notin> live r \<and> cur r \<noteq> Some p \<and> card (live r) < 62
   | STOP p \<Rightarrow> p \<in> live r
   | ACCESS p rw a d \<Rightarrow> p \<in> live r \<and> a < 2 ^ VADDR_LEN
   | _ \<Rightarrow> False)"

fun trace_ok :: "ref_vm \<Rightarrow> command list \<Rightarrow> bool" where
  "trace_ok r [] \<longleftrightarrow> True"
| "trace_ok r (c # cs) \<longleftrightarrow> allowed r c \<and> trace_ok (fst (ref_step r c)) cs"

fun ref_run :: "ref_vm \<Rightarrow> command list \<Rightarrow> ref_vm" where
  "ref_run r [] = r"
| "ref_run r (c # cs) = ref_run (fst (ref_step r c)) cs"

fun ref_outputs :: "ref_vm \<Rightarrow> command list \<Rightarrow> u8 list" where
  "ref_outputs r [] = []"
| "ref_outputs r (c # cs) = (case snd (ref_step r c) of None \<Rightarrow> [] | Some b \<Rightarrow> [b])
     @ ref_outputs (fst (ref_step r c)) cs"

subsection \<open>Addresses\<close>

lemma unat_vpn: "a < 2 ^ VADDR_LEN \<Longrightarrow> unat (vaddr_vpn a) = unat a div 16384"
  and unat_offset: "unat (vaddr_offset a) = unat a mod 16384"
proof -
  have "unat (a mod PAGE_SIZE) = unat a mod 16384" by (simp add: unat_mod_distrib)
  moreover have "unat a mod 16384 < 65536" by (rule less_trans[of _ 16384]) simp_all
  ultimately show "unat (vaddr_offset a) = unat a mod 16384"
    by (simp add: vaddr_offset_def unat_ucast_mod)
  assume "a < 2 ^ VADDR_LEN"
  then have "unat a < 16777216" by (simp add: word_less_nat_alt VADDR_LEN_def)
  moreover have "unat (a div PAGE_SIZE) = unat a div 16384" by (simp add: unat_div_distrib)
  ultimately show "unat (vaddr_vpn a) = unat a div 16384"
    by (simp add: vaddr_vpn_def unat_ucast_mod)
qed

lemma vpn_in_table: "a < 2 ^ VADDR_LEN \<Longrightarrow> unat (vaddr_vpn a) < NUM_PAGES"
proof -
  assume a: "a < 2 ^ VADDR_LEN"
  then have "unat a < 16777216" by (simp add: word_less_nat_alt VADDR_LEN_def)
  then show ?thesis using unat_vpn[OF a] by simp
qed

lemma address_parts_inj:
  assumes "a < 2 ^ VADDR_LEN" "b < 2 ^ VADDR_LEN" "vaddr_vpn a = vaddr_vpn b" "vaddr_offset a = vaddr_offset b"
  shows "a = b"
proof -
  have "unat a div 16384 = unat b div 16384" using assms unat_vpn by metis
  moreover have "unat a mod 16384 = unat b mod 16384" using assms(4) unat_offset by metis
  ultimately have "unat a = unat b" by (metis div_mult_mod_eq)
  then show ?thesis by (rule unat_eqI)
qed

lemma peek_poke:
  assumes "a < 2 ^ VADDR_LEN" "b < 2 ^ VADDR_LEN"
  shows "peek (poke V p b d) q a = (if q = p \<and> a = b then d else peek V q a)"
  using address_parts_inj[OF assms] by (auto simp: peek_def poke_def)

subsection \<open>The relation between the machines\<close>

definition sim_rel :: "vm \<Rightarrow> ref_vm \<Rightarrow> bool" where
  "sim_rel vm r \<longleftrightarrow> vm_inv vm \<and> live r = {p. running vm p} \<and> finite (live r) \<and> card (live r) \<le> 62
     \<and> (\<forall>p \<in> live r. \<forall>a. a < 2 ^ VADDR_LEN \<longrightarrow> peek (page_view vm) p a = bytes r p a)
     \<and> current_process vm = cur r
     \<and> reads (stats vm) = of_nat (n_reads r) \<and> writes (stats vm) = of_nat (n_writes r)
     \<and> accesses (stats vm) = of_nat (n_reads r + n_writes r)
     \<and> (\<exists>k \<le> n_reads r + n_writes r. page_faults (stats vm) = of_nat k)"

lemma sim_rel_resources: "sim_rel vm r \<Longrightarrow> 0 < swap_room (swp vm) \<Longrightarrow> resources vm"
  using unprotected_frame[of vm]
  by (auto simp: sim_rel_def resources_def vm_inv_def paging_inv_def)

lemma sim_start:
  assumes rel: "sim_rel vm r" and room: "0 < swap_room (swp vm)"
    and p: "p < MAX_PID" "p \<notin> live r" "cur r \<noteq> Some p" "card (live r) < 62"
  shows "\<exists>vm'. start_process vm p = Inr vm' \<and> sim_rel vm' (fst (ref_step r (START p)))
    \<and> swap_room (swp vm) \<le> swap_room (swp vm') + 1"
proof -
  have inv: "vm_inv vm" and L: "live r = {p. running vm p}" using rel by (simp_all add: sim_rel_def)
  have np: "\<not> running vm p" using p(2) L by simp
  from start_process_ok[OF vm_invD(1)[OF inv] sim_rel_resources[OF rel room] p(1) np]
  obtain vm' f w where s: "start_process vm p = Inr vm'" "paging_inv vm'" "page_view vm' = page_view vm"
    "running vm' = (running vm)(p := True)" "f \<noteq> 0"
    "procs vm' = (procs vm)(p := (procs vm p)\<lparr>pid := p, state := PROC_RUNNING, saved_ptbr := f\<rparr>)"
    "PTBR vm' = PTBR vm" "current_process vm' = current_process vm" "replacement vm' = replacement vm"
    "stats vm' = (stats vm)\<lparr>writebacks := w\<rparr>" "swap_room (swp vm) \<le> swap_room (swp vm') + 1"
    by blast
  have "current_ok vm'"
    using inv p(3) rel s(4,6,7,8) by (auto simp: vm_inv_def current_ok_def sim_rel_def)
  moreover have "state (procs vm' q) = PROC_RUNNING \<longleftrightarrow> ptbr vm' q \<noteq> 0" if "q < MAX_PID" for q
    using inv s(5,6) that by (simp add: vm_inv_def)
  ultimately have "vm_inv vm'" using inv s(2,9) by (simp add: vm_inv_def)
  moreover have "{q. running vm' q} = insert p (live r)" using s(4) L by auto
  moreover have "peek (page_view vm') p a = 0" for a
    using not_running_view[OF np] s(3) by (simp add: peek_def zero_page_def)
  ultimately have "sim_rel vm' (fst (ref_step r (START p)))"
    using rel p s(3,8,10) by (auto simp: sim_rel_def ref_step_def card_insert_if)
  with s(1,11) show ?thesis by blast
qed

lemma sim_stop:
  assumes rel: "sim_rel vm r" and p: "p \<in> live r"
  shows "\<exists>vm'. stop_process vm p = Inr vm' \<and> sim_rel vm' (fst (ref_step r (STOP p)))
    \<and> swap_room (swp vm) \<le> swap_room (swp vm')"
proof -
  have inv: "vm_inv vm" and L: "live r = {p. running vm p}" using rel by (simp_all add: sim_rel_def)
  have "running vm p" using p L by simp
  from stop_process_ok[OF vm_invD(1)[OF inv] this] obtain vm' where
    s: "stop_process vm p = Inr vm'" "paging_inv vm'" "page_view vm' = (page_view vm)(p := \<lambda>_. zero_page)"
    "running vm' = (running vm)(p := False)"
    "procs vm' = (procs vm)(p := (procs vm p)\<lparr>saved_ptbr := 0, state := PROC_STOPPED\<rparr>)"
    "PTBR vm' = PTBR vm" "current_process vm' = current_process vm" "replacement vm' = replacement vm"
    "stats vm' = stats vm" "swap_room (swp vm) \<le> swap_room (swp vm')"
    by blast
  have "current_ok vm'"
    using inv s(4,5,6,7) by (auto simp: vm_inv_def current_ok_def)
  moreover have "state (procs vm' q) = PROC_RUNNING \<longleftrightarrow> ptbr vm' q \<noteq> 0" if "q < MAX_PID" for q
    using inv s(5) that by (simp add: vm_inv_def PROC_RUNNING_def PROC_STOPPED_def)
  ultimately have "vm_inv vm'" using inv s(2,8) by (simp add: vm_inv_def)
  moreover have "{q. running vm' q} = live r - {p}" using s(4) L by auto
  moreover have "card (live r) \<le> 62" using rel unfolding sim_rel_def by blast
  then have "card (live r - {p}) \<le> 62" using card_Diff1_le[of "live r" p] by (rule order_trans[rotated])
  ultimately have "sim_rel vm' (fst (ref_step r (STOP p)))"
    using rel s(3,7,9) by (auto simp: sim_rel_def ref_step_def peek_def)
  with s(1,10) show ?thesis by blast
qed

lemma switch_to_ok:
  assumes inv: "vm_inv vm" and p: "running vm p"
  shows "\<exists>b. switch_to vm p = Inr (vm\<lparr>PTBR := b, current_process := Some p\<rparr>)
    \<and> on_cpu (vm\<lparr>PTBR := b, current_process := Some p\<rparr>) p"
proof -
  have P: "p < MAX_PID" using p by (simp add: running_def)
  have switch: "context_switch vm p = Inr (vm\<lparr>PTBR := ptbr vm p\<rparr>)"
    using P by (simp add: context_switch_def get_proc_def)
  have on: "on_cpu (vm\<lparr>PTBR := ptbr vm p, current_process := Some p\<rparr>) p" using p by (simp add: on_cpu_def)
  show ?thesis
  proof (cases "current_process vm")
    case None
    then show ?thesis using switch on by (intro exI[of _ "ptbr vm p"]) (simp add: switch_to_def)
  next
    case (Some c)
    then have c: "c < MAX_PID" "pid (procs vm c) = c" "running vm c \<Longrightarrow> PTBR vm = ptbr vm c"
      using inv by (auto simp: vm_inv_def current_ok_def)
    show ?thesis
    proof (cases "c = p")
      case True
      then have "vm\<lparr>PTBR := ptbr vm p, current_process := Some p\<rparr> = vm"
        using c(3)[unfolded True, OF p] Some by (intro vm.equality) simp_all
      then show ?thesis
        using True c(1,2) Some on by (intro exI[of _ "ptbr vm p"]) (simp add: switch_to_def get_proc_def)
    next
      case False
      then show ?thesis
        using c(1,2) Some switch on by (intro exI[of _ "ptbr vm p"]) (simp add: switch_to_def get_proc_def)
    qed
  qed
qed

lemma sim_access:
  assumes rel: "sim_rel vm r" and room: "0 < swap_room (swp vm)"
    and p: "p \<in> live r" and a: "a < 2 ^ VADDR_LEN"
  shows "\<exists>vm'. run_command vm (ACCESS p rw a d) = Inr (vm', snd (ref_step r (ACCESS p rw a d)))
    \<and> sim_rel vm' (fst (ref_step r (ACCESS p rw a d))) \<and> swap_room (swp vm) \<le> swap_room (swp vm') + 1"
proof -
  have inv: "vm_inv vm" and L: "live r = {p. running vm p}" using rel by (simp_all add: sim_rel_def)
  have run: "running vm p" using p L by simp
  obtain b where b: "switch_to vm p = Inr (vm\<lparr>PTBR := b, current_process := Some p\<rparr>)"
    "on_cpu (vm\<lparr>PTBR := b, current_process := Some p\<rparr>) p"
    using switch_to_ok[OF inv run] by blast
  let ?vm = "vm\<lparr>PTBR := b, current_process := Some p\<rparr>"
  let ?fault = "valid (table ?vm p (vaddr_vpn a)) = 0"
  have "paging_inv ?vm" using inv by (simp add: vm_inv_def paging_inv_def)
  moreover have "resources ?vm" using sim_rel_resources[OF rel room] by (simp add: resources_def)
  ultimately obtain vm' where m: "mem_access ?vm a rw d
      = Inr (if rw = CHR ''r'' then peek (page_view ?vm) p a else d, vm')" "paging_inv vm'"
    "page_view vm' = (if rw = CHR ''r'' then page_view ?vm else poke (page_view ?vm) p a d)"
    "same_env (count_rw rw (count_access ?vm ?fault)) vm'"
    using mem_access_ok[OF _ _ b(2) vpn_in_table[OF a]] by blast
  have view: "page_view ?vm = page_view vm" by (simp add: page_view_def)
  have byte: "peek (page_view vm) p a = bytes r p a" using rel p a by (simp add: sim_rel_def)
  have env: "procs vm' = procs vm" "current_process vm' = Some p" "PTBR vm' = b" "replacement vm' = replacement vm"
    "swap_room (swp vm) \<le> swap_room (swp vm') + 1"
    using m(4) by (simp_all add: same_env_def count_access_def)
  have run': "running vm' = running vm" using env(1) by (simp add: running_def fun_eq_iff)
  obtain w where st: "stats vm' = (stats (count_rw rw (count_access ?vm ?fault)))\<lparr>writebacks := w\<rparr>"
    using m(4) by (auto simp: same_env_def)
  have "current_ok vm'"
    using b(2) env run' inv run by (auto simp: current_ok_def on_cpu_def vm_inv_def paging_inv_def running_def
        dest: tables_okD(1)[of vm])
  then have "vm_inv vm'" using inv m(2) env by (simp add: vm_inv_def)
  moreover have "peek (page_view vm') q c = bytes (fst (ref_step r (ACCESS p rw a d))) q c"
    if "q \<in> live r" "c < 2 ^ VADDR_LEN" for q c
    using rel that peek_poke[OF that(2) a, of "page_view vm" p d q] m(3) view
    by (auto simp: sim_rel_def ref_step_def)
  moreover have same: "{q. running vm' q} = live r" "card (live r) \<le> 62"
    "reads (stats vm) = of_nat (n_reads r)" "writes (stats vm) = of_nat (n_writes r)"
    "accesses (stats vm) = of_nat (n_reads r + n_writes r)"
    using rel run' L unfolding sim_rel_def by simp_all
  moreover have "\<exists>k \<le> Suc (n_reads r + n_writes r). page_faults (stats vm') = of_nat k"
  proof -
    obtain k where "k \<le> n_reads r + n_writes r" "page_faults (stats vm) = of_nat k"
      using rel by (auto simp: sim_rel_def)
    then show ?thesis
      using st by (intro exI[of _ "if ?fault then Suc k else k"]) (simp add: count_rw_def count_access_def add.commute)
  qed
  moreover have "reads (stats vm') = reads (stats vm) + (if rw = CHR ''r'' then 1 else 0)"
    "writes (stats vm') = writes (stats vm) + (if rw = CHR ''r'' then 0 else 1)"
    "accesses (stats vm') = accesses (stats vm) + 1"
    using st by (simp_all add: count_rw_def count_access_def)
  ultimately have "sim_rel vm' (fst (ref_step r (ACCESS p rw a d)))"
    using env(2) same by (simp add: sim_rel_def ref_step_def add.commute)
  moreover have "run_command vm (ACCESS p rw a d) = Inr (vm', snd (ref_step r (ACCESS p rw a d)))"
    using b(1) m(1) view byte by (simp add: run_command_def ref_step_def)
  ultimately show ?thesis using env(5) by blast
qed

lemma sim_command:
  assumes rel: "sim_rel vm r" and ok: "allowed r c" and room: "0 < swap_room (swp vm)"
  shows "\<exists>vm'. run_command vm c = Inr (vm', snd (ref_step r c)) \<and> sim_rel vm' (fst (ref_step r c))
    \<and> swap_room (swp vm) \<le> swap_room (swp vm') + 1"
proof (cases c)
  case (START p)
  then show ?thesis
    using sim_start[OF rel room, of p] ok by (auto simp: allowed_def run_command_def ref_step_def)
next
  case (STOP p)
  then show ?thesis
    using sim_stop[OF rel, of p] ok by (auto simp: allowed_def run_command_def ref_step_def)
next
  case (ACCESS p rw a d)
  then show ?thesis using sim_access[OF rel room, of p a rw d] ok by (simp add: allowed_def)
qed (use ok in \<open>simp_all add: allowed_def\<close>)

subsection \<open>Whole traces\<close>

lemma sim_trace:
  "sim_rel (machine s) r \<Longrightarrow> trace_ok r cs \<Longrightarrow> length cs \<le> swap_room (swp (machine s)) \<Longrightarrow>
    \<exists>s'. foldE (sim_step chk) s cs = Inr s' \<and> sim_rel (machine s') (ref_run r cs)
      \<and> map snd (printed s') = map snd (printed s) @ ref_outputs r cs"
proof (induction cs arbitrary: s r)
  case Nil
  then show ?case by simp
next
  case (Cons c cs)
  let ?r = "fst (ref_step r c)" and ?out = "snd (ref_step r c)"
  from Cons.prems obtain vm' where c: "run_command (machine s) c = Inr (vm', ?out)" "sim_rel vm' ?r"
    "swap_room (swp (machine s)) \<le> swap_room (swp vm') + 1"
    using sim_command[of "machine s" r c] by auto
  let ?s = "s\<lparr>machine := vm', printed := (case ?out of None \<Rightarrow> printed s | Some b \<Rightarrow> printed s @ [(step_count s, b)]),
    step_count := step_count s + 1\<rparr>"
  have "check_validity vm' 1 = Inr ()" using c(2) by (intro check_validity_ok) (simp add: sim_rel_def)
  then have step: "sim_step chk s c = Inr ?s" using c(1) by (simp add: sim_step_def)
  obtain s' where "foldE (sim_step chk) ?s cs = Inr s'" "sim_rel (machine s') (ref_run ?r cs)"
    "map snd (printed s') = map snd (printed ?s) @ ref_outputs ?r cs"
    using Cons.IH[of ?s ?r] c Cons.prems by auto
  with step show ?case by (auto split: option.splits)
qed

lemma sim_rel_init: "sim_rel (system_init (power_on RANDOM n)) ref_init"
proof -
  let ?vm = "system_init (power_on RANDOM n)"
  have np: "\<not> running ?vm p" for p by (simp add: running_def system_init_def power_on_def)
  then have tab: "table ?vm = (\<lambda>_ _. zero_pte)" by (simp add: fun_eq_iff table_def)
  have L: "swap_lookup (swp ?vm) = (\<lambda>_. None)"
    using swap_init_inv(2) by (simp add: fun_eq_iff system_init_def power_on_def)
  have F: "mapped (frame_table ?vm f) = 0" "protected (frame_table ?vm f) \<noteq> 0 \<longleftrightarrow> f = 0" for f
    by (simp_all add: system_init_def zero_fte_def)
  have "tables_ok ?vm" using np F by (simp add: tables_ok_def)
  moreover have "pages_inv (frame_table ?vm) (table ?vm) (pages ?vm) (swap_lookup (swp ?vm))"
    unfolding tab L using F
    by (simp add: pages_inv_def mapped_inv_def clean_inv_def token_inv_def flags_inv_def zero_pte_def)
  moreover have "swap_inv (swp ?vm)" using swap_init_inv(1) by (simp add: system_init_def power_on_def)
  ultimately have "vm_inv ?vm"
    by (simp add: vm_inv_def paging_inv_def)
      (simp add: current_ok_def system_init_def power_on_def PROC_RUNNING_def)
  then show ?thesis
    using np by (simp add: sim_rel_def ref_init_def) (simp add: system_init_def power_on_def)
qed

lemma sim_main:
  assumes "trace_ok ref_init trace" and "length trace \<le> min room (2 ^ 64 - 2)"
    and "algorithm = 0 \<or> algorithm = RANDOM"
  shows "\<exists>s. vm_main chk algorithm room trace = Inr s \<and> sim_rel (machine s) (ref_run ref_init trace)
    \<and> map snd (printed s) = ref_outputs ref_init trace"
proof -
  let ?vm = "system_init (power_on RANDOM room)"
  have rel: "sim_rel ?vm ref_init" by (rule sim_rel_init)
  have "swap_room (swp ?vm) = min room (2 ^ 64 - 2)"
    by (simp add: system_init_def power_on_def swap_room_init)
  then have "length trace \<le> swap_room (swp ?vm)" using assms(2) by simp
  moreover have "check_validity ?vm 0 = Inr ()" using rel by (intro check_validity_ok) (simp add: sim_rel_def)
  ultimately show ?thesis
    using sim_trace[of "\<lparr>machine = ?vm, printed = [], step_count = 0\<rparr>" ref_init trace chk] rel assms(1,3)
    by (auto simp: vm_main_def Let_def RANDOM_def)
qed

end
