(* ===== verification/Vm_Options.thy ===== *)
theory Vm_Options
  imports Vm_Sim
begin

text \<open>
  The command line of the virtual-memory simulator. \<open>getopt\<close> is the C library's: the model takes the
  options and arguments it returns, in order; \<open>opens\<close> tells which files \<open>fopen\<close> can open.
\<close>

datatype vm_option =
    Opt_Input string
  | Opt_Stdin
  | Opt_Check
  | Opt_Replacement string
  | Opt_Other

datatype trace_source = Trace_File string | Trace_Stdin

record vm_config =
  fin :: "trace_source option"
  corruption_checks :: bool
  chosen_algorithm :: u8

definition print_help_and_exit :: "'a res" where
  "print_help_and_exit = Inl (Exit_Success ''./vm-sim [OPTIONS] -i traces/file.trace -r<replacement algorithm>'')"

definition parse_vm_option :: "(string \<Rightarrow> bool) \<Rightarrow> vm_config \<Rightarrow> vm_option \<Rightarrow> vm_config res" where
  "parse_vm_option opens cfg opt = (case opt of
     Opt_Input f \<Rightarrow> if opens f then Inr (cfg\<lparr>fin := Some (Trace_File f)\<rparr>)
       else Inl (Exit_Failure ''Unable to open trace file'')
   | Opt_Stdin \<Rightarrow> Inr (cfg\<lparr>fin := Some Trace_Stdin\<rparr>)
   | Opt_Check \<Rightarrow> Inr (cfg\<lparr>corruption_checks := True\<rparr>)
   | Opt_Replacement a \<Rightarrow>
       if a = ''random'' then Inr (cfg\<lparr>chosen_algorithm := RANDOM\<rparr>)
       else if a = ''clocksweep'' then Inr (cfg\<lparr>chosen_algorithm := CLOCKSWEEP\<rparr>)
       else Inl (Exit_Failure ''Unknown replacement algorithm'')
   | Opt_Other \<Rightarrow> print_help_and_exit)"

text \<open>A missing trace ends with the usage message, so with \<open>exit(0)\<close>.\<close>

definition parse_vm_options :: "(string \<Rightarrow> bool) \<Rightarrow> vm_option list \<Rightarrow> vm_config res" where
  "parse_vm_options opens opts =
     bindE (foldE (parse_vm_option opens) \<lparr>fin = None, corruption_checks = False, chosen_algorithm = 0\<rparr> opts) (\<lambda>cfg.
       if fin cfg = None then print_help_and_exit else Inr cfg)"

text \<open>\<open>main\<close> with the lines \<open>read\<close> gives for the trace.\<close>

definition vm_program ::
    "(string \<Rightarrow> bool) \<Rightarrow> (trace_source \<Rightarrow> command list) \<Rightarrow> nat \<Rightarrow> vm_option list \<Rightarrow> sim res" where
  "vm_program opens lines_of room opts =
     bindE (parse_vm_options opens opts) (\<lambda>cfg.
       vm_main (corruption_checks cfg) (chosen_algorithm cfg) room (lines_of (the (fin cfg))))"

subsection \<open>What the options select\<close>

fun acceptable :: "(string \<Rightarrow> bool) \<Rightarrow> vm_option \<Rightarrow> bool" where
  "acceptable opens (Opt_Input f) = opens f"
| "acceptable opens (Opt_Replacement a) = (a = ''random'' \<or> a = ''clocksweep'')"
| "acceptable opens Opt_Other = False"
| "acceptable opens _ = True"

fun trace_sources :: "vm_option list \<Rightarrow> trace_source list" where
  "trace_sources [] = []"
| "trace_sources (Opt_Input f # os) = Trace_File f # trace_sources os"
| "trace_sources (Opt_Stdin # os) = Trace_Stdin # trace_sources os"
| "trace_sources (_ # os) = trace_sources os"

fun algorithms :: "vm_option list \<Rightarrow> u8 list" where
  "algorithms [] = []"
| "algorithms (Opt_Replacement a # os) = (if a = ''random'' then RANDOM else CLOCKSWEEP) # algorithms os"
| "algorithms (_ # os) = algorithms os"

definition last_or :: "'a \<Rightarrow> 'a list \<Rightarrow> 'a" where
  "last_or d xs = (if xs = [] then d else last xs)"

lemma last_or_simps [simp]: "last_or d [] = d" "last_or d (x # xs) = last_or x xs"
  by (simp_all add: last_or_def)

lemma parse_vm_option_simps:
  "parse_vm_option opens cfg (Opt_Input f) = (if opens f then Inr (cfg\<lparr>fin := Some (Trace_File f)\<rparr>)
     else Inl (Exit_Failure ''Unable to open trace file''))"
  "parse_vm_option opens cfg Opt_Stdin = Inr (cfg\<lparr>fin := Some Trace_Stdin\<rparr>)"
  "parse_vm_option opens cfg Opt_Check = Inr (cfg\<lparr>corruption_checks := True\<rparr>)"
  "parse_vm_option opens cfg (Opt_Replacement ''random'') = Inr (cfg\<lparr>chosen_algorithm := RANDOM\<rparr>)"
  "parse_vm_option opens cfg (Opt_Replacement ''clocksweep'') = Inr (cfg\<lparr>chosen_algorithm := CLOCKSWEEP\<rparr>)"
  by (simp_all add: parse_vm_option_def)

lemma parse_vm_options_good:
  "\<forall>opt \<in> set opts. acceptable opens opt \<Longrightarrow>
    foldE (parse_vm_option opens) cfg opts =
      Inr \<lparr>fin = last_or (fin cfg) (map Some (trace_sources opts)),
        corruption_checks = (corruption_checks cfg \<or> Opt_Check \<in> set opts), chosen_algorithm = last_or (chosen_algorithm cfg) (algorithms opts)\<rparr>"
proof (induction opts arbitrary: cfg)
  case Nil
  then show ?case by simp
next
  case (Cons opt opts)
  show ?case
  proof (cases opt)
    case (Opt_Replacement a)
    then have "a = ''random'' \<or> a = ''clocksweep''" using Cons.prems by simp
    then show ?thesis using Cons Opt_Replacement by (auto simp: parse_vm_option_simps)
  qed (use Cons in \<open>simp_all add: parse_vm_option_simps\<close>)
qed

lemma parse_vm_options_bad:
  "\<not> (\<forall>opt \<in> set opts. acceptable opens opt) \<Longrightarrow> foldE (parse_vm_option opens) cfg opts \<noteq> Inr cfg'"
proof (induction opts arbitrary: cfg)
  case (Cons opt opts)
  show ?case
  proof (cases "acceptable opens opt")
    case True
    then show ?thesis using Cons by auto
  next
    case False
    then have "parse_vm_option opens cfg opt \<noteq> Inr cfg1" for cfg1
      by (cases opt) (auto simp: parse_vm_option_def print_help_and_exit_def)
    then show ?thesis by auto
  qed
qed simp

lemma last_or_Some: "last_or None (map Some xs) = (if xs = [] then None else Some (last xs))"
  by (simp add: last_or_def last_map)

lemma parse_vm_option_exits:
  "parse_vm_option opens cfg opt = Inl e \<Longrightarrow> \<exists>msg. e \<in> {Exit_Failure msg, Exit_Success msg}"
  by (cases opt) (auto simp: parse_vm_option_def print_help_and_exit_def split: if_splits)

lemma parse_vm_options_exits:
  "foldE (parse_vm_option opens) cfg opts = Inl e \<Longrightarrow> \<exists>msg. e \<in> {Exit_Failure msg, Exit_Success msg}"
proof (induction opts arbitrary: cfg)
  case (Cons opt opts)
  then show ?case using parse_vm_option_exits by (cases "parse_vm_option opens cfg opt") auto
qed simp

end
