(* ===== verification/Vm_Correct.thy ===== *)
theory Vm_Correct
  imports Vm_Ref Vm_Options
begin

text \<open>The properties of the virtual-memory simulator.\<close>

subsection \<open>Traces\<close>

text \<open>A trace of two processes, for the examples.\<close>

definition demo_trace :: "command list" where
  "demo_trace = [START 1, START 2, ACCESS 1 CHR ''w'' 5 7, ACCESS 2 CHR ''r'' 5 0,
     ACCESS 1 CHR ''r'' 5 0, STOP 2, STOP 1]"

lemma demo_trace_ok:
  "trace_ok ref_init demo_trace" "length demo_trace \<le> min 100 (2 ^ 64 - 2)"
  "ref_outputs ref_init demo_trace = [7, 0, 7]" "live (ref_run ref_init demo_trace) = {}"
  by (simp_all add: demo_trace_def ref_init_def allowed_def ref_step_def MAX_PID_def VADDR_LEN_def)



lemma no_process_no_swap:
  assumes inv: "vm_inv vm" and none: "\<And>p. \<not> running vm p"
  shows "q_size (swap_queue (swp vm)) = 0 \<and> q_head (swap_queue (swp vm)) = None"
proof -
  note D = paging_invD[OF vm_invD(1)[OF inv]]
  have none': "swap_lookup (swp vm) t = None" for t
  proof (rule ccontr)
    assume t: "swap_lookup (swp vm) t \<noteq> None"
    then obtain p v where "swap (table vm p v) = t" using D(6) unfolding token_inv_def by blast
    then have "t = 0" using none by (auto simp: not_running_entries zero_pte_def)
    then show False using t D(6) by (simp add: token_inv_def)
  qed
  obtain as where as: "swap_list (swp vm) as" using D(2) by (auto simp: swap_inv_def)
  have "as = []"
  proof (rule ccontr)
    let ?tok = "fst \<circ> entry (swap_heap (swp vm))"
    assume "as \<noteq> []"
    then have "?tok (hd as) \<in> ?tok ` set as" by (intro imageI hd_in_set)
    then show False using swap_lookup_None_iff[OF as, of "?tok (hd as)"] none' by (simp only: simp_thms)
  qed
  then show ?thesis using as by (auto simp: swap_list_def fifo_def)
qed

text \<open>C15: When every process of a well-formed trace has been stopped, the swap queue is empty:
  no entry is leaked, so the line "Swap Not Freed" is not printed.\<close>

theorem vm_no_swap_leak:
  assumes "trace_ok ref_init trace" and "length trace \<le> min room (2 ^ 64 - 2)"
    and "algorithm = 0 \<or> algorithm = RANDOM" and "live (ref_run ref_init trace) = {}"
  shows "\<exists>s. vm_main check_corruption algorithm room trace = Inr s
    \<and> q_size (swap_queue (swp (machine s))) = 0 \<and> q_head (swap_queue (swp (machine s))) = None"
proof -
  obtain s where s: "vm_main check_corruption algorithm room trace = Inr s"
    "sim_rel (machine s) (ref_run ref_init trace)"
    using sim_main[OF assms(1-3)] by blast
  then have "vm_inv (machine s)" "\<And>p. \<not> running (machine s) p"
    using assms(4) by (auto simp: sim_rel_def)
  from no_process_no_swap[OF this] s(1) show ?thesis by blast
qed

theorem vm_no_swap_leak_witness:
  "\<exists>s. vm_main False RANDOM 100 demo_trace = Inr s
    \<and> q_size (swap_queue (swp (machine s))) = 0 \<and> q_head (swap_queue (swp (machine s))) = None"
  using vm_no_swap_leak[OF demo_trace_ok(1,2) _ demo_trace_ok(4), of RANDOM False] by simp

definition is_read :: "command \<Rightarrow> bool" where
  "is_read c = (case c of ACCESS p rw a d \<Rightarrow> rw = CHR ''r'' | _ \<Rightarrow> False)"

definition is_write :: "command \<Rightarrow> bool" where
  "is_write c = (case c of ACCESS p rw a d \<Rightarrow> rw \<noteq> CHR ''r'' | _ \<Rightarrow> False)"

lemma ref_run_counts:
  "n_reads (ref_run r cs) = n_reads r + length (filter is_read cs)"
  "n_writes (ref_run r cs) = n_writes r + length (filter is_write cs)"
  by (induction cs arbitrary: r) (auto simp: ref_step_def is_read_def is_write_def split: command.splits)

lemma vm_counts:
  assumes "sim_rel vm (ref_run ref_init trace)"
  shows "reads (stats vm) = of_nat (length (filter is_read trace))" "writes (stats vm) = of_nat (length (filter is_write trace))"
    "accesses (stats vm) = reads (stats vm) + writes (stats vm)"
    "\<exists>k \<le> length (filter is_read trace) + length (filter is_write trace). page_faults (stats vm) = of_nat k"
proof -
  have "n_reads ref_init = 0" "n_writes ref_init = 0" by (simp_all add: ref_init_def)
  then show "reads (stats vm) = of_nat (length (filter is_read trace))" "writes (stats vm) = of_nat (length (filter is_write trace))"
    "accesses (stats vm) = reads (stats vm) + writes (stats vm)"
    "\<exists>k \<le> length (filter is_read trace) + length (filter is_write trace). page_faults (stats vm) = of_nat k"
    using assms by (auto simp: sim_rel_def ref_run_counts)
qed

subsection \<open>Frames\<close>

text \<open>C9: \<open>free_frame\<close> gives an unprotected frame that maps nothing, and what every process would
  read from its memory is what it was: a dirty victim is in swap space, a clean one can be
  brought in again.\<close>

theorem eviction_is_transparent:
  assumes "vm_inv vm" and "0 < swap_room (swp vm)"
    and "\<exists>f. unat f < NUM_FRAMES \<and> protected (frame_table vm f) = 0"
  shows "\<exists>f vm'. free_frame vm = Inr (f, vm') \<and> vm_inv vm' \<and> page_view vm' = page_view vm
    \<and> unat f < NUM_FRAMES \<and> protected (frame_table vm' f) = 0 \<and> mapped (frame_table vm' f) = 0"
proof -
  from free_frame_ok[OF vm_invD(1)[OF assms(1)] assms(2) vm_invD(3)[OF assms(1)] assms(3)]
  obtain f vm' where f: "free_frame vm = Inr (f, vm')" "paging_inv vm'" "page_view vm' = page_view vm"
    "unat f < NUM_FRAMES" "protected (frame_table vm' f) = 0" "mapped (frame_table vm' f) = 0"
    "same_env vm vm'" by blast
  moreover have "running vm' = running vm" using f(7) by (simp add: same_env_def running_def fun_eq_iff)
  ultimately have "vm_inv vm'"
    using assms(1) by (simp add: vm_inv_def same_env_def current_ok_def)
  with f show ?thesis by blast
qed

theorem eviction_is_transparent_witness:
  "\<exists>f vm'. free_frame (system_init (power_on RANDOM 3)) = Inr (f, vm') \<and> vm_inv vm'
    \<and> mapped (frame_table vm' f) = 0"
proof -
  have "vm_inv (system_init (power_on RANDOM 3))"
    using sim_rel_init by (simp add: sim_rel_def)
  moreover have "0 < swap_room (swp (system_init (power_on RANDOM 3)))"
    by (simp add: system_init_def power_on_def swap_room_init)
  moreover have "unat (1 :: pfn_t) < NUM_FRAMES
      \<and> protected (frame_table (system_init (power_on RANDOM 3)) 1) = 0"
    by (simp add: system_init_def zero_fte_def)
  ultimately show ?thesis using eviction_is_transparent by blast
qed

lemma free_loop_first:
  assumes "k < NUM_FRAMES" and "protected (F (of_nat k)) = 0" "mapped (F (of_nat k)) = 0"
    and "\<And>j. j < k \<Longrightarrow> protected (F (of_nat j)) \<noteq> 0 \<or> mapped (F (of_nat j)) \<noteq> 0" and "i \<le> k"
  shows "free_loop F i = Some (of_nat k)"
  using assms(5)
proof (induction "k - i" arbitrary: i)
  case 0
  then show ?case using assms(1-3) by (simp add: free_loop.simps)
next
  case (Suc n)
  then have "free_loop F (i + 1) = Some (of_nat k)" "i < k" by simp_all
  then show ?case using assms(1) assms(4)[of i] by (subst free_loop.simps) auto
qed

text \<open>A free frame is used before any page is evicted, the one with the lowest number first,
  and no random number is consumed.\<close>

lemma free_frame_before_eviction:
  assumes "unat f < NUM_FRAMES" and "protected (frame_table vm f) = 0" "mapped (frame_table vm f) = 0"
    and "\<And>g. g < f \<Longrightarrow> protected (frame_table vm g) \<noteq> 0 \<or> mapped (frame_table vm g) \<noteq> 0"
  shows "free_frame vm = Inr (f, vm)"
proof -
  have "free_loop (frame_table vm) 0 = Some (of_nat (unat f))"
  proof (rule free_loop_first)
    fix j assume j: "j < unat f"
    then have "unat (of_nat j :: pfn_t) = j" using assms(1) by simp
    then have "(of_nat j :: pfn_t) < f" using j by (simp add: word_less_nat_alt)
    then show "protected (frame_table vm (of_nat j)) \<noteq> 0 \<or> mapped (frame_table vm (of_nat j)) \<noteq> 0"
      by (rule assms(4))
  qed (use assms in simp_all)
  then show ?thesis using assms(1,3) by (simp add: free_frame_def select_victim_frame_def get_fte_def)
qed

lemma free_frame_before_eviction_example:
  "free_frame (system_init (power_on RANDOM 3)) = Inr (1, system_init (power_on RANDOM 3))"
proof (rule free_frame_before_eviction)
  fix g :: pfn_t assume "g < 1"
  then have "g = 0" by (intro unat_eqI) (simp add: word_less_nat_alt)
  then show "protected (frame_table (system_init (power_on RANDOM 3)) g) \<noteq> 0
      \<or> mapped (frame_table (system_init (power_on RANDOM 3)) g) \<noteq> 0"
    by (simp add: system_init_def)
qed (simp_all add: system_init_def zero_fte_def)

lemma free_loop_none:
  "(\<And>f. unat f < NUM_FRAMES \<Longrightarrow> protected (F f) \<noteq> 0 \<or> mapped (F f) \<noteq> 0) \<Longrightarrow> free_loop F i = None"
  using free_loop_Some[of F i] by (cases "free_loop F i") auto

text \<open>C39: The replacement policy \<open>clocksweep\<close>, which the command line accepts, is not implemented:
  with it the simulator stops with "out of memory" as soon as no frame is free, although
  there are pages to evict.\<close>

theorem clocksweep_cannot_evict:
  assumes "replacement vm = CLOCKSWEEP"
    and "\<And>f. unat f < NUM_FRAMES \<Longrightarrow> protected (frame_table vm f) \<noteq> 0 \<or> mapped (frame_table vm f) \<noteq> 0"
  shows "free_frame vm = Inl (Panic ''System ran out of memory'')"
  using assms free_loop_none[of "frame_table vm" 0]
  by (simp add: free_frame_def select_victim_frame_def CLOCKSWEEP_def RANDOM_def)

theorem clocksweep_cannot_evict_witness:
  "free_frame ((power_on CLOCKSWEEP 3)\<lparr>frame_table := (\<lambda>_. zero_fte\<lparr>mapped := 1\<rparr>)\<rparr>)
    = Inl (Panic ''System ran out of memory'')"
  by (rule clocksweep_cannot_evict) (simp_all add: power_on_def)

subsection \<open>Addresses\<close>

text \<open>A 24-bit virtual address is split without loss: the page number indexes the page table,
  the offset stays in the page, and together they give the address back.\<close>

lemma address_split_roundtrip_vm:
  assumes "a < 2 ^ VADDR_LEN"
  shows "unat (vaddr_vpn a) < NUM_PAGES \<and> unat (vaddr_offset a) < unat PAGE_SIZE
    \<and> unat (vaddr_vpn a) * unat PAGE_SIZE + unat (vaddr_offset a) = unat a"
  using vpn_in_table[OF assms] vaddr_offset_less[of a] unat_vpn[OF assms] unat_offset[of a] by simp

lemma address_split_roundtrip_vm_example:
  "unat (vaddr_vpn 0x123456) * unat PAGE_SIZE + unat (vaddr_offset 0x123456) = 0x123456"
  using address_split_roundtrip_vm[of "0x123456"] by (simp add: VADDR_LEN_def)



subsection \<open>Swap space and random numbers\<close>

text \<open>C26: A page written to swap space is read back unchanged through its page table entry, no other
  page in swap space changes, and an entry that was in swap space keeps its token.\<close>

theorem swap_write_then_read:
  assumes "swap_inv s" and "0 < swap_room s"
  shows "\<exists>s' pte'. swap_write s pte d = Inr (s', pte') \<and> swap_inv s' \<and> swap_read s' pte' = Inr d
    \<and> swap_exists pte' \<and> (\<forall>t. t \<noteq> swap pte' \<longrightarrow> swap_lookup s' t = swap_lookup s t)
    \<and> (swap_lookup s (swap pte) \<noteq> None \<longrightarrow> pte' = pte)"
  using sw.read_after_put[OF assms, of pte d] by (simp add: swap_exists_def)

theorem swap_write_then_read_witness:
  "\<exists>s' pte'. swap_write (swap_init 1) zero_pte (\<lambda>_. 7) = Inr (s', pte')
    \<and> swap_read s' pte' = Inr (\<lambda>_. 7) \<and> swap_exists pte'"
  using swap_write_then_read[OF swap_init_inv(1), of 1 zero_pte "\<lambda>_. 7"] by (auto simp: swap_room_init)

text \<open>C27: Freeing an entry that was just written leaves every token as it was before the write.\<close>

theorem swap_free_after_write:
  assumes "swap_inv s" and "0 < swap_room s" and "swap_lookup s (swap pte) = None"
  shows "\<exists>s' s''. bindE (swap_write s pte d) (\<lambda>(s', pte'). swap_free s' pte') = Inr (s'', pte\<lparr>swap := 0\<rparr>)
    \<and> swap_inv s'' \<and> swap_lookup s'' = swap_lookup s"
  using sw.free_after_put[OF assms] .

theorem swap_free_after_write_witness:
  "\<exists>s' s''. bindE (swap_write (swap_init 1) zero_pte (\<lambda>_. 7)) (\<lambda>(s', pte'). swap_free s' pte')
      = Inr (s'', zero_pte\<lparr>swap := 0\<rparr>) \<and> swap_inv s'' \<and> swap_lookup s'' = swap_lookup (swap_init 1)"
  using swap_free_after_write[OF swap_init_inv(1), of 1 zero_pte "\<lambda>_. 7"]
  by (simp add: swap_room_init swap_init_inv(2))

lemma neg_mod_32: "n < 32 \<Longrightarrow> nat ((- int n) mod 32) = (32 - n) mod 32"
  by (cases "n = 0") (auto simp: zmod_zminus1_eq_if nat_diff_distrib)

lemma neg_and_31:
  assumes "unat (rot :: u32) < 32"
  shows "unat ((- rot) AND 31) = (32 - unat rot) mod 32"
proof -
  have "(- rot) AND 31 = take_bit 5 (- rot)"
    by (simp add: take_bit_eq_mask mask_eq_exp_minus_1)
  moreover have "uint (take_bit 5 (- rot)) = take_bit 5 (uint (- rot))" by (rule unsigned_take_bit_eq)
  moreover have "uint (- rot) = (- uint rot) mod 2 ^ 32" by (simp add: uint_word_ariths)
  ultimately have "uint ((- rot) AND 31) = (- uint rot) mod 2 ^ 32 mod 2 ^ 5"
    by (simp only: take_bit_eq_mod)
  also have "\<dots> = (- uint rot) mod 2 ^ 5" by (rule mod_mod_cancel) simp
  finally have "int (unat ((- rot) AND 31)) = (- int (unat rot)) mod 32" by simp
  then have u: "unat ((- rot) AND 31) = nat ((- int (unat rot)) mod 32)" by linarith
  show ?thesis unfolding u by (rule neg_mod_32[OF assms])
qed

lemma rotate_shifts:
  assumes "n < 32"
  shows "drop_bit n x OR push_bit ((32 - n) mod 32) x = word_rotr n (x :: u32)"
proof (rule bit_word_eqI)
  fix k assume "k < LENGTH(32)"
  then have k: "k < 32" by simp
  have high: "\<not> bit x j" if "32 \<le> j" for j using that bit_imp_le_length[of x j] by auto
  consider "n = 0" | "0 < n" "k + n < 32" | "0 < n" "32 \<le> k + n" by linarith
  then show "bit (drop_bit n x OR push_bit ((32 - n) mod 32) x) k = bit (word_rotr n x) k"
  proof cases
    case 1
    then show ?thesis using k by (simp add: bit_word_rotr_iff bit_or_iff bit_drop_bit_eq bit_push_bit_iff)
  next
    case 2
    then have "\<not> 32 - n \<le> k" by linarith
    with 2 show ?thesis
      using k assms by (simp add: bit_word_rotr_iff bit_or_iff bit_drop_bit_eq bit_push_bit_iff add.commute)
  next
    case 3
    then have "k + n - 32 < 32" "32 - n \<le> k" using k assms by linarith+
    then have "(k + n) mod 32 = k - (32 - n)" using 3 assms by (simp add: le_mod_geq)
    with \<open>32 - n \<le> k\<close> show ?thesis
      using 3 k assms high[of "n + k"]
      by (simp add: bit_word_rotr_iff bit_or_iff bit_drop_bit_eq bit_push_bit_iff add.commute)
  qed
qed

text \<open>The output function of the random number generator is the rotation that PCG32 (XSH RR)
  specifies, for every state, rotation by zero included.\<close>

lemma pcg32_output_rotates:
  "fst (pcg32_random_r r) = word_rotr (unat (drop_bit 59 (pcg_state r)))
     (ucast (drop_bit 27 (drop_bit 18 (pcg_state r) XOR pcg_state r)))"
proof -
  let ?rot = "drop_bit 59 (pcg_state r)"
  have "unat ?rot = unat (pcg_state r) div 2 ^ 59" by (simp only: unat_drop_bit_eq) (simp only: drop_bit_eq_div)
  moreover have "unat (pcg_state r) < 2 ^ 64" using unsigned_less[of "pcg_state r"] by simp
  ultimately have rot: "unat ?rot < 32" by (simp add: less_mult_imp_div_less)
  then have c: "unat (ucast ?rot :: u32) = unat ?rot" by (simp add: unat_ucast_mod)
  show ?thesis
    unfolding pcg32_random_r_def Let_def fst_conv
    using rotate_shifts[OF rot] neg_and_31[of "ucast ?rot"] c rot by simp
qed

subsection \<open>Restarting the current process\<close>






subsection \<open>The command line\<close>

text \<open>C38: With acceptable options, at least one of them a trace, the program runs \<open>vm_main\<close> on the last trace named, with
  the last replacement algorithm named (random if none is) and with the consistency check if it is asked for, in whatever order
  the options come; otherwise it exits with a message before it simulates anything.\<close>

theorem vm_program_options:
  "if (\<forall>opt \<in> set opts. acceptable opens opt) \<and> trace_sources opts \<noteq> []
   then vm_program opens lines_of room opts =
     vm_main (Opt_Check \<in> set opts) (last_or 0 (algorithms opts)) room (lines_of (last (trace_sources opts)))
   else \<exists>msg. vm_program opens lines_of room opts \<in> {Inl (Exit_Failure msg), Inl (Exit_Success msg)}"
proof -
  let ?cfg = "\<lparr>fin = None, corruption_checks = False, chosen_algorithm = 0\<rparr>"
  show ?thesis
  proof (cases "\<forall>opt \<in> set opts. acceptable opens opt")
    case True
    from parse_vm_options_good[OF True, of ?cfg] show ?thesis
      using True by (auto simp: vm_program_def parse_vm_options_def last_or_Some print_help_and_exit_def)
  next
    case False
    then obtain e where "foldE (parse_vm_option opens) ?cfg opts = Inl e"
      using parse_vm_options_bad[OF False, of ?cfg] by (cases "foldE (parse_vm_option opens) ?cfg opts") auto
    with parse_vm_options_exits[OF this] False show ?thesis
      by (auto simp: vm_program_def parse_vm_options_def)
  qed
qed

theorem vm_program_options_witness:
  "vm_program (\<lambda>f. f = ''a'') (\<lambda>_. demo_trace) 100 [Opt_Replacement ''clocksweep'', Opt_Input ''a'', Opt_Check, Opt_Replacement ''random'']
    = vm_main True RANDOM 100 demo_trace"
  using vm_program_options[of "[Opt_Replacement ''clocksweep'', Opt_Input ''a'', Opt_Check, Opt_Replacement ''random'']"
      "\<lambda>f. f = ''a''" "\<lambda>_. demo_trace" 100]
  by simp

end
