(* ===== verification/C_Float.thy ===== *)
theory C_Float
  imports Complex_Main "HOL-Library.Log_Nat" C_Prelude
begin

text \<open>
  Floating-point numbers of C, as far as the programs use them: non-negative values far from the ends of the exponent's range. A
  value is a rational number, and an operation rounds its exact result to the nearest number with \<open>p\<close> significant bits, to
  the one with an even significand between two (IEEE 754): 53 for \<open>double\<close>, 24 for \<open>float\<close>.
\<close>

subsection \<open>Rounding\<close>

definition round_half_even :: "rat \<Rightarrow> int" where
  "round_half_even x = (let f = \<lfloor>x\<rfloor>; d = x - of_int f in
     if d < 1 / 2 then f else if d > 1 / 2 then f + 1 else if even f then f else f + 1)"

text \<open>The exponent: \<open>2 ^ e \<le> x < 2 ^ (e + 1)\<close>.\<close>

definition binary_exponent :: "rat \<Rightarrow> int" where
  "binary_exponent x = (case quotient_of x of (a, b) \<Rightarrow>
     let k = bitlen a - bitlen b in if 2 powi k \<le> x then k else k - 1)"

text \<open>The distance between two neighbouring numbers with \<open>p\<close> bits.\<close>

definition ulp :: "nat \<Rightarrow> rat \<Rightarrow> rat" where
  "ulp p x = 2 powi (binary_exponent x + 1 - int p)"

definition round_to :: "nat \<Rightarrow> rat \<Rightarrow> rat" where
  "round_to p x = (if x \<le> 0 then 0 else of_int (round_half_even (x / ulp p x)) * ulp p x)"

definition to_double :: "rat \<Rightarrow> rat" where "to_double = round_to 53"

definition to_float :: "rat \<Rightarrow> rat" where "to_float = round_to 24"

subsection \<open>Lemmas\<close>

lemma round_half_even_error: "\<bar>of_int (round_half_even x) - x\<bar> \<le> 1 / 2"
proof -
  have "0 \<le> x - of_int \<lfloor>x\<rfloor>" "x - of_int \<lfloor>x\<rfloor> < 1" by linarith+
  then show ?thesis unfolding round_half_even_def Let_def by (simp add: abs_if; linarith)
qed

lemma round_half_even_int [simp]: "round_half_even (of_int n) = n"
  by (simp add: round_half_even_def)

lemma bitlen_range:
  assumes "0 < (a :: int)"
  shows "2 powi (bitlen a - 1) \<le> (of_int a :: rat)" "(of_int a :: rat) < 2 powi bitlen a"
proof -
  have b: "2 ^ nat (bitlen a - 1) \<le> a" "a < 2 ^ nat (bitlen a)" using bitlen_bounds[OF assms] by auto
  have pos: "0 \<le> bitlen a - 1" using bitlen_nonneg[of a] bitlen_eq_zero_iff[of a] assms by linarith
  have "2 powi (bitlen a - 1) = (of_int (2 ^ nat (bitlen a - 1)) :: rat)" using pos by (simp add: power_int_def)
  then show "2 powi (bitlen a - 1) \<le> (of_int a :: rat)" using b(1) by (metis of_int_le_iff)
  have "2 powi bitlen a = (of_int (2 ^ nat (bitlen a)) :: rat)" using pos by (simp add: power_int_def)
  then show "(of_int a :: rat) < 2 powi bitlen a" using b(2) by (metis of_int_less_iff)
qed

lemma binary_exponent_range:
  assumes "0 < x"
  shows "2 powi binary_exponent x \<le> x" "x < 2 powi (binary_exponent x + 1)"
proof -
  obtain a b where ab: "quotient_of x = (a, b)" by force
  have b: "0 < b" and x: "x = of_int a / of_int b" using quotient_of_denom_pos[OF ab] quotient_of_div[OF ab] by simp_all
  then have a: "0 < a" using assms by (simp add: zero_less_divide_iff)
  let ?k = "bitlen a - bitlen b"
  note A = bitlen_range[OF a] and B = bitlen_range[OF b]
  have "x < 2 powi bitlen a / 2 powi (bitlen b - 1)"
    unfolding x using A(2) B(1) b by (intro frac_less) (use a in simp_all)
  also have "\<dots> = 2 powi (?k + 1)" by (simp add: power_int_diff[symmetric] algebra_simps)
  finally have hi: "x < 2 powi (?k + 1)" .
  have "2 powi (bitlen a - 1) / 2 powi bitlen b \<le> x"
    unfolding x using A(1) B(2) b by (intro frac_le) (use a in simp_all)
  then have lo: "2 powi (?k - 1) \<le> x" by (simp add: power_int_diff)
  show "2 powi binary_exponent x \<le> x" "x < 2 powi (binary_exponent x + 1)"
    using hi lo by (auto simp: binary_exponent_def ab Let_def)
qed

lemma ulp_pos: "0 < ulp p x"
  by (simp add: ulp_def)

lemma ulp_le:
  assumes "0 < x"
  shows "ulp p x \<le> 2 * x / 2 ^ p"
proof -
  have "ulp p x = 2 * 2 powi binary_exponent x / 2 ^ p" by (simp add: ulp_def power_int_diff power_int_add)
  then show ?thesis using binary_exponent_range(1)[OF assms] by (simp add: divide_right_mono)
qed

text \<open>The relative error of one rounding.\<close>

lemma round_to_error:
  assumes "0 \<le> x"
  shows "\<bar>round_to p x - x\<bar> \<le> x / 2 ^ p"
proof (cases "x = 0")
  case False
  then have x: "0 < x" using assms by simp
  let ?u = "ulp p x"
  have u: "0 < ?u" by (rule ulp_pos)
  have "round_to p x - x = (of_int (round_half_even (x / ?u)) - x / ?u) * ?u"
    using x u by (simp add: round_to_def algebra_simps)
  then have "\<bar>round_to p x - x\<bar> = \<bar>of_int (round_half_even (x / ?u)) - x / ?u\<bar> * ?u"
    using u by (simp add: abs_mult)
  also have "\<dots> \<le> 1 / 2 * ?u" using u round_half_even_error by (intro mult_right_mono) auto
  also have "\<dots> \<le> x / 2 ^ p" using ulp_le[OF x, of p] by (simp add: mult.commute)
  finally show ?thesis .
qed (simp add: round_to_def)

text \<open>Whole numbers of at most \<open>p\<close> bits are exact.\<close>

lemma round_to_nat:
  assumes "n < 2 ^ p"
  shows "round_to p (of_nat n) = of_nat n"
proof (cases "n = 0")
  case False
  let ?x = "of_nat n :: rat" and ?e = "binary_exponent (of_nat n)"
  have x: "0 < ?x" using False by simp
  have "?x < of_nat (2 ^ p)" using assms by (simp only: of_nat_less_iff)
  then have "?x < (2 :: rat) powi int p" by simp
  then have "2 powi ?e < (2 :: rat) powi int p" using binary_exponent_range(1)[OF x] by (rule order_le_less_trans[rotated])
  then have "?e < int p" using power_int_increasing[of "int p" ?e "2 :: rat"] by (meson not_le one_le_numeral)
  then obtain k where k: "int p - 1 - ?e = int k" using zero_le_imp_eq_int[of "int p - 1 - ?e"] by auto
  then have e: "?e + 1 - int p = - int k" by linarith
  have u: "ulp p ?x = 1 / 2 ^ k" unfolding ulp_def e by (simp add: power_int_minus divide_inverse)
  have "?x / ulp p ?x = of_int (int n * 2 ^ k)" using u by simp
  then have "round_half_even (?x / ulp p ?x) = int n * 2 ^ k" using round_half_even_int by metis
  then show ?thesis using x u by (simp add: round_to_def)
qed (simp add: round_to_def)

end
