(* ===== verification/Vm_Report.thy ===== *)
theory Vm_Report
  imports Vm_Correct C_Float
begin

text \<open>
  What the virtual-memory simulator prints at its end: the statistics, the average access time (\<open>implementation/stats.c\<close>), and
  the use of swap space.
\<close>

subsection \<open>Average access time\<close>

text \<open>The times, in nanoseconds, which \<open>compute_stats\<close> casts to \<open>double\<close>.\<close>

definition MEMORY_READ_TIME :: nat where "MEMORY_READ_TIME = 100"
definition DISK_PAGE_READ_TIME :: nat where "DISK_PAGE_READ_TIME = 100000"
definition DISK_PAGE_WRITE_TIME :: nat where "DISK_PAGE_WRITE_TIME = 200000"

text \<open>A \<open>double\<close> factor times a \<open>uint64_t\<close>: the integer is converted to \<open>double\<close> first.\<close>

definition time_of :: "nat \<Rightarrow> u64 \<Rightarrow> rat" where
  "time_of t n = to_double (to_double (of_nat t) * to_double (of_nat (unat n)))"

text \<open>The value of \<open>stats.aat\<close>.\<close>

definition compute_stats :: "stats_t \<Rightarrow> rat" where
  "compute_stats st =
     (if accesses st = 0 then 0
      else to_double (to_double (to_double (time_of MEMORY_READ_TIME (accesses st) + time_of DISK_PAGE_READ_TIME (page_faults st))
          + time_of DISK_PAGE_WRITE_TIME (writebacks st))
        / to_double (of_nat (unat (accesses st)))))"

subsection \<open>The report\<close>

text \<open>\<open>rep_not_freed\<close> is the line that is printed only if swap entries are left.\<close>

record vm_report =
  rep_accesses :: u64
  rep_reads :: u64
  rep_writes :: u64
  rep_page_faults :: u64
  rep_writebacks :: u64
  rep_aat :: rat
  rep_max_swap :: u64
  rep_not_freed :: "u64 option"

definition kilobytes :: "u64 \<Rightarrow> u64" where
  "kilobytes n = drop_bit 10 (n * ucast PAGE_SIZE)"

definition print_report :: "vm \<Rightarrow> vm_report" where
  "print_report vm = (let st = stats vm; q = swap_queue (swp vm) in
     \<lparr>rep_accesses = accesses st, rep_reads = reads st, rep_writes = writes st, rep_page_faults = page_faults st,
      rep_writebacks = writebacks st, rep_aat = compute_stats st, rep_max_swap = kilobytes (q_size_max q),
      rep_not_freed = (if q_size q > 0 then Some (kilobytes (q_size q)) else None)\<rparr>)"

text \<open>The whole simulation, with the report.\<close>

definition vm_simulate :: "bool \<Rightarrow> u8 \<Rightarrow> nat \<Rightarrow> command list \<Rightarrow> ((u32 \<times> u8) list \<times> vm_report) res" where
  "vm_simulate check_corruption algorithm room trace =
     bindE (vm_main check_corruption algorithm room trace) (\<lambda>s. Inr (printed s, print_report (machine s)))"

subsection \<open>Exact times\<close>

lemma to_double_nat: "n < 2 ^ 53 \<Longrightarrow> to_double (of_nat n) = of_nat n"
  by (simp add: to_double_def round_to_nat)

lemma time_of_exact: "t * unat n < 2 ^ 53 \<Longrightarrow> 0 < t \<Longrightarrow> t < 2 ^ 53 \<Longrightarrow> time_of t n = of_nat (t * unat n)"
proof -
  assume a: "t * unat n < 2 ^ 53" "0 < t" "t < 2 ^ 53"
  have "unat n \<le> t * unat n" using a(2) by simp
  then have n: "unat n < 2 ^ 53" using a(1) by (rule order_le_less_trans)
  show ?thesis
    unfolding time_of_def to_double_nat[OF a(3)] to_double_nat[OF n] of_nat_mult[symmetric] to_double_nat[OF a(1)] by (rule refl)
qed

text \<open>The total time in nanoseconds.\<close>

definition total_time :: "stats_t \<Rightarrow> nat" where
  "total_time st = MEMORY_READ_TIME * unat (accesses st) + DISK_PAGE_READ_TIME * unat (page_faults st)
     + DISK_PAGE_WRITE_TIME * unat (writebacks st)"

text \<open>As long as the total fits the 53 bits of a \<open>double\<close>, only the division rounds.\<close>

lemma compute_stats_exact:
  assumes "accesses st \<noteq> 0" and "total_time st < 2 ^ 53"
  shows "compute_stats st = to_double (of_nat (total_time st) / of_nat (unat (accesses st)))"
proof -
  let ?a = "MEMORY_READ_TIME * unat (accesses st)" and ?p = "DISK_PAGE_READ_TIME * unat (page_faults st)"
    and ?w = "DISK_PAGE_WRITE_TIME * unat (writebacks st)"
  have parts: "?a < 2 ^ 53" "?p < 2 ^ 53" "?w < 2 ^ 53" "?a + ?p < 2 ^ 53" using assms(2) by (simp_all add: total_time_def)
  have t: "time_of MEMORY_READ_TIME (accesses st) = of_nat ?a" "time_of DISK_PAGE_READ_TIME (page_faults st) = of_nat ?p"
    "time_of DISK_PAGE_WRITE_TIME (writebacks st) = of_nat ?w"
    using parts by (intro time_of_exact; simp add: MEMORY_READ_TIME_def DISK_PAGE_READ_TIME_def DISK_PAGE_WRITE_TIME_def)+
  have "unat (accesses st) < 2 ^ 53" using parts(1) by (simp add: MEMORY_READ_TIME_def)
  then have "to_double (of_nat (unat (accesses st))) = of_nat (unat (accesses st))" by (rule to_double_nat)
  moreover have "to_double (of_nat ?a + of_nat ?p) = of_nat (?a + ?p)"
    using to_double_nat[OF parts(4)] by (simp only: of_nat_add)
  moreover have "to_double (of_nat (?a + ?p) + of_nat ?w) = of_nat (total_time st)"
    using to_double_nat[OF assms(2)] by (simp only: total_time_def of_nat_add)
  ultimately show ?thesis using assms(1) by (simp only: compute_stats_def t if_False)
qed

subsection \<open>Properties\<close>

text \<open>C33: The average access time is the exact mean of the times of all accesses, page faults and write-backs up to a relative error of
  \<open>2 ^ -53\<close>, half a unit in the last place of a \<open>double\<close>, as long as the total time is below \<open>2 ^ 53\<close> nanoseconds (104 days); without
  accesses it is 0.\<close>

theorem average_access_time:
  assumes "total_time st < 2 ^ 53"
  shows "(accesses st = 0 \<and> compute_stats st = 0)
    \<or> (accesses st \<noteq> 0 \<and> \<bar>compute_stats st - of_nat (total_time st) / of_nat (unat (accesses st))\<bar>
        \<le> of_nat (total_time st) / of_nat (unat (accesses st)) / 2 ^ 53)"
proof (cases "accesses st = 0")
  case True
  then show ?thesis by (simp add: compute_stats_def)
next
  case False
  let ?x = "of_nat (total_time st) / of_nat (unat (accesses st)) :: rat"
  have "\<bar>round_to 53 ?x - ?x\<bar> \<le> ?x / 2 ^ 53" by (intro round_to_error divide_nonneg_nonneg of_nat_0_le_iff)
  then show ?thesis using False compute_stats_exact[OF False assms] by (simp only: to_double_def simp_thms)
qed

text \<open>Three accesses with two page faults take 66766.666... ns on average, which no \<open>double\<close> is.\<close>

theorem average_access_time_witness:
  "\<bar>compute_stats \<lparr>writes = 1, reads = 2, accesses = 3, page_faults = 2, writebacks = 0\<rparr> - 200300 / 3\<bar> \<le> 200300 / 3 / 2 ^ 53"
  using average_access_time[of "\<lparr>writes = 1, reads = 2, accesses = 3, page_faults = 2, writebacks = 0\<rparr>"]
  by (simp add: total_time_def MEMORY_READ_TIME_def DISK_PAGE_READ_TIME_def DISK_PAGE_WRITE_TIME_def)

text \<open>C32: The report of a well-formed trace counts what it says: reads and writes are the numbers of read and write lines of the
  trace, accesses their sum, and at most one page fault is counted per access; and when every process has been stopped, no line
  "Swap Not Freed" is printed.\<close>

theorem vm_report_counts:
  assumes "trace_ok ref_init trace" and "length trace \<le> min room (2 ^ 64 - 2)" and "algorithm = 0 \<or> algorithm = RANDOM"
  shows "\<exists>out r. vm_simulate check_corruption algorithm room trace = Inr (out, r)
    \<and> rep_reads r = of_nat (length (filter is_read trace)) \<and> rep_writes r = of_nat (length (filter is_write trace))
    \<and> rep_accesses r = rep_reads r + rep_writes r
    \<and> (\<exists>k \<le> length (filter is_read trace) + length (filter is_write trace). rep_page_faults r = of_nat k)
    \<and> (live (ref_run ref_init trace) = {} \<longrightarrow> rep_not_freed r = None)"
proof -
  obtain s where s: "vm_main check_corruption algorithm room trace = Inr s" "sim_rel (machine s) (ref_run ref_init trace)"
    using sim_main[OF assms] by blast
  have "q_size (swap_queue (swp (machine s))) = 0" if "live (ref_run ref_init trace) = {}"
    using no_process_no_swap[of "machine s"] s(2) that by (auto simp: sim_rel_def)
  then show ?thesis
    using s vm_counts[OF s(2)] by (auto simp: vm_simulate_def print_report_def Let_def)
qed

theorem vm_report_counts_witness:
  "\<exists>out r. vm_simulate True RANDOM 100 demo_trace = Inr (out, r) \<and> rep_reads r = 2 \<and> rep_writes r = 1 \<and> rep_not_freed r = None"
proof -
  have "length (filter is_read demo_trace) = 2" "length (filter is_write demo_trace) = 1"
    by (simp_all add: demo_trace_def is_read_def is_write_def)
  then show ?thesis using vm_report_counts[OF demo_trace_ok(1,2), of RANDOM True] demo_trace_ok(4) by auto
qed

end
