(* ===== verification/Os_Processes.thy ===== *)
theory Os_Processes
  imports Linked_List
begin

text \<open>
  The data of the operating-system scheduler simulator: the types of \<open>os-sim.h\<close> and the processes of
  \<open>process.c\<close>. A \<open>pcb_t *\<close> is an index into \<open>processes\<close>, and the "program counter" of a process,
  in C a pointer into its array of operations, is an index into that array.
\<close>

subsection \<open>Types\<close>

datatype process_state_t = PROCESS_NEW | PROCESS_READY | PROCESS_RUNNING | PROCESS_WAITING | PROCESS_TERMINATED

datatype op_type = OP_CPU | OP_IO | OP_TERMINATE

record op_t =
  op_kind :: op_type
  op_time :: u32

record os_pcb_t =
  os_pid :: u32
  os_name :: string
  time_remaining :: u32
  os_state :: process_state_t
  os_pc :: nat
  os_next :: "nat option"

definition PROCESS_COUNT :: nat where "PROCESS_COUNT = 8"

subsection \<open>The operations of the processes\<close>

definition cpu_op :: "u32 \<Rightarrow> op_t" where "cpu_op t = \<lparr>op_kind = OP_CPU, op_time = t\<rparr>"

definition io_op :: "u32 \<Rightarrow> op_t" where "io_op t = \<lparr>op_kind = OP_IO, op_time = t\<rparr>"

definition terminate_op :: op_t where "terminate_op = \<lparr>op_kind = OP_TERMINATE, op_time = 0\<rparr>"

definition pid0_ops :: "op_t list" where
  "pid0_ops = [
     cpu_op 2, io_op 2, cpu_op 3, io_op 5, cpu_op 1, io_op 4, cpu_op 2, io_op 2, cpu_op 3,
     io_op 5, cpu_op 1, io_op 4, cpu_op 2, io_op 2, cpu_op 3, io_op 5, cpu_op 1, io_op 4,
     cpu_op 2, io_op 5, cpu_op 1, io_op 4, cpu_op 2, io_op 2, cpu_op 3, io_op 5, cpu_op 1,
     io_op 4, cpu_op 2, terminate_op]"

definition pid1_ops :: "op_t list" where
  "pid1_ops = [
     cpu_op 3, io_op 4, cpu_op 2, io_op 6, cpu_op 1, io_op 3, cpu_op 4, io_op 4, cpu_op 2,
     io_op 6, cpu_op 1, io_op 3, cpu_op 4, io_op 4, cpu_op 2, io_op 6, cpu_op 1, io_op 3,
     cpu_op 4, io_op 3, cpu_op 4, io_op 4, cpu_op 2, io_op 6, cpu_op 1, io_op 3, cpu_op 4,
     terminate_op]"

definition pid2_ops :: "op_t list" where
  "pid2_ops = [
     cpu_op 1, io_op 4, cpu_op 2, io_op 5, cpu_op 1, io_op 3, cpu_op 3, io_op 4, cpu_op 2,
     io_op 5, cpu_op 1, io_op 3, cpu_op 3, io_op 4, cpu_op 2, io_op 5, cpu_op 1, io_op 3,
     cpu_op 3, io_op 4, cpu_op 2, io_op 5, cpu_op 1, io_op 3, cpu_op 3, terminate_op]"

definition pid3_ops :: "op_t list" where
  "pid3_ops = [
     cpu_op 9, io_op 1, cpu_op 6, io_op 1, cpu_op 8, io_op 1, cpu_op 7, io_op 1, cpu_op 6,
     io_op 1, cpu_op 8, io_op 1, cpu_op 7, io_op 1, cpu_op 6, io_op 1, cpu_op 8, io_op 1,
     cpu_op 8, terminate_op]"

definition pid4_ops :: "op_t list" where
  "pid4_ops = [
     cpu_op 10, io_op 1, cpu_op 14, io_op 1, cpu_op 7, io_op 2, cpu_op 11, io_op 1, cpu_op 14,
     io_op 1, cpu_op 7, io_op 2, cpu_op 11, io_op 1, cpu_op 14, io_op 1, cpu_op 7, io_op 2,
     cpu_op 11, terminate_op]"

definition pid5_ops :: "op_t list" where
  "pid5_ops = [
     cpu_op 9, io_op 1, cpu_op 10, io_op 2, cpu_op 15, io_op 1, cpu_op 8, io_op 1, cpu_op 10,
     io_op 2, cpu_op 15, io_op 1, cpu_op 8, io_op 1, cpu_op 10, io_op 2, cpu_op 15, io_op 1,
     cpu_op 8, terminate_op]"

definition pid6_ops :: "op_t list" where
  "pid6_ops = [
     cpu_op 6, io_op 3, cpu_op 9, io_op 1, cpu_op 14, io_op 1, cpu_op 11, io_op 3, cpu_op 9,
     io_op 1, cpu_op 14, io_op 1, cpu_op 11, io_op 3, cpu_op 9, io_op 1, cpu_op 14, io_op 1,
     cpu_op 11, terminate_op]"

definition pid7_ops :: "op_t list" where
  "pid7_ops = [
     cpu_op 6, io_op 3, cpu_op 12, io_op 3, cpu_op 7, io_op 1, cpu_op 9, io_op 3, cpu_op 12,
     io_op 3, cpu_op 7, io_op 1, cpu_op 9, io_op 3, cpu_op 12, io_op 3, cpu_op 7, io_op 1,
     cpu_op 9, terminate_op]"

subsection \<open>The process table\<close>

text \<open>The initializer of \<open>processes\<close>, and the operations each entry points to.\<close>

definition new_process :: "u32 \<Rightarrow> string \<Rightarrow> u32 \<Rightarrow> os_pcb_t" where
  "new_process i n t = \<lparr>os_pid = i, os_name = n, time_remaining = t, os_state = PROCESS_NEW,
     os_pc = 0, os_next = None\<rparr>"

definition process_table :: "os_pcb_t list" where
  "process_table = [
     new_process 0 ''Iapache'' 2,
     new_process 1 ''Ibash'' 3,
     new_process 2 ''Imozilla'' 1,
     new_process 3 ''Ccpu'' 9,
     new_process 4 ''Cgcc'' 10,
     new_process 5 ''Cspice'' 9,
     new_process 6 ''Cmysql'' 6,
     new_process 7 ''Csim'' 6]"

definition operation_table :: "op_t list list" where
  "operation_table = [pid0_ops, pid1_ops, pid2_ops, pid3_ops, pid4_ops, pid5_ops, pid6_ops, pid7_ops]"

text \<open>Process \<open>p\<close> and its operations before the simulation starts.\<close>

definition initial_process :: "nat \<Rightarrow> os_pcb_t" where
  "initial_process p = process_table ! p"

definition initial_operations :: "nat \<Rightarrow> op_t list" where
  "initial_operations p = operation_table ! p"

text \<open>
  What the comment in \<open>process.c\<close> asks of the operations: CPU and I/O alternate, and the first
  and the last (before \<open>OP_TERMINATE\<close>) are \<open>OP_CPU\<close>.
\<close>

fun alternates :: "op_type list \<Rightarrow> bool" where
  "alternates [OP_CPU, OP_TERMINATE] \<longleftrightarrow> True"
| "alternates (OP_CPU # OP_IO # ks) \<longleftrightarrow> alternates ks"
| "alternates _ \<longleftrightarrow> False"

definition alternating :: "op_t list \<Rightarrow> bool" where
  "alternating ops \<longleftrightarrow> alternates (map op_kind ops)"

lemma op_kinds [simp]:
  "op_kind (cpu_op t) = OP_CPU" "op_kind (io_op t) = OP_IO" "op_kind terminate_op = OP_TERMINATE"
  by (simp_all add: cpu_op_def io_op_def terminate_op_def)

lemma operations_alternate: "\<forall>ops \<in> set operation_table. alternating ops"
  by (simp add: alternating_def operation_table_def pid0_ops_def pid1_ops_def pid2_ops_def pid3_ops_def
      pid4_ops_def pid5_ops_def pid6_ops_def pid7_ops_def)

lemma tables_length: "length process_table = PROCESS_COUNT" "length operation_table = PROCESS_COUNT"
  by (simp_all add: process_table_def operation_table_def PROCESS_COUNT_def)

lemma process_table_new:
  assumes "p < PROCESS_COUNT"
  shows "os_next (initial_process p) = None \<and> os_pc (initial_process p) = 0 \<and> os_state (initial_process p) = PROCESS_NEW"
proof -
  have "\<forall>t \<in> set process_table. os_next t = None \<and> os_pc t = 0 \<and> os_state t = PROCESS_NEW"
    by (simp add: process_table_def new_process_def)
  then show ?thesis using assms tables_length(1) nth_mem unfolding initial_process_def by metis
qed

text \<open>
  By position: the array starts with a CPU burst, an operation that is not the last has a successor,
  and a CPU burst follows each I/O operation.
\<close>

lemma alternates_hd: "alternates ks \<Longrightarrow> 0 < length ks \<and> ks ! 0 = OP_CPU"
  by (cases ks rule: alternates.cases) auto

lemma alternates_nth:
  "alternates ks \<Longrightarrow> i < length ks \<Longrightarrow> ks ! i \<noteq> OP_TERMINATE \<Longrightarrow>
    Suc i < length ks \<and> (ks ! i = OP_IO \<longrightarrow> ks ! Suc i = OP_CPU) \<and> (ks ! i = OP_CPU \<longrightarrow> ks ! Suc i \<noteq> OP_CPU)"
proof (induction ks arbitrary: i rule: alternates.induct)
  case 1
  then show ?case by (auto simp: nth_Cons split: nat.splits)
next
  case (2 ks)
  then have ks: "alternates ks" by simp
  show ?case
  proof (cases i)
    case (Suc j)
    then show ?thesis
    proof (cases j)
      case 0
      then show ?thesis using Suc alternates_hd[OF ks] by simp
    next
      case (Suc k)
      then show ?thesis using 2 \<open>i = Suc j\<close> by simp
    qed
  qed simp
qed auto

lemma alternating_0: "alternating ops \<Longrightarrow> 0 < length ops \<and> op_kind (ops ! 0) = OP_CPU"
  using alternates_hd[of "map op_kind ops"] by (auto simp: alternating_def)

lemma alternating_Suc:
  "alternating ops \<Longrightarrow> i < length ops \<Longrightarrow> op_kind (ops ! i) \<noteq> OP_TERMINATE \<Longrightarrow>
    Suc i < length ops \<and> (op_kind (ops ! i) = OP_IO \<longrightarrow> op_kind (ops ! Suc i) = OP_CPU)
      \<and> (op_kind (ops ! i) = OP_CPU \<longrightarrow> op_kind (ops ! Suc i) \<noteq> OP_CPU)"
  using alternates_nth[of "map op_kind ops" i] by (auto simp: alternating_def)

lemma alternating_update:
  "alternating ops \<Longrightarrow> i < length ops \<Longrightarrow> alternating (ops[i := (ops ! i)\<lparr>op_time := t\<rparr>])"
proof -
  assume "alternating ops" "i < length ops"
  moreover from this have "map op_kind (ops[i := (ops ! i)\<lparr>op_time := t\<rparr>]) = map op_kind ops"
    by (simp add: map_update list_update_same_conv)
  ultimately show ?thesis by (simp add: alternating_def)
qed

end
