(* ===== verification/Scheduler.thy ===== *)
theory Scheduler
  imports Os_Processes
begin

text \<open>
  The scheduler (\<open>scheduler.c\<close>): the ready queue, the processes that run on each CPU, and the
  callbacks. Each part of a callback between locking and unlocking a mutex is one definition;
  the callbacks compose them, first run without interruption, then as the steps of a CPU thread
  that others can come between.
\<close>

subsection \<open>State\<close>

text \<open>\<open>cpus\<close> is the length of the array \<open>current\<close>.\<close>

record sched =
  tasks :: "nat \<Rightarrow> os_pcb_t"
  ready_head :: "nat option"
  ready_tail :: "nat option"
  current :: "nat \<Rightarrow> nat option"
  cpus :: nat
  time_slice :: int

definition get_task :: "sched \<Rightarrow> nat \<Rightarrow> os_pcb_t res" where
  "get_task s p = (if p < PROCESS_COUNT then Inr (tasks s p) else Inl Out_Of_Bounds)"

definition set_task :: "sched \<Rightarrow> nat \<Rightarrow> os_pcb_t \<Rightarrow> sched res" where
  "set_task s p t = (if p < PROCESS_COUNT then Inr (s\<lparr>tasks := (tasks s)(p := t)\<rparr>) else Inl Out_Of_Bounds)"

definition set_state :: "sched \<Rightarrow> nat \<Rightarrow> process_state_t \<Rightarrow> sched res" where
  "set_state s p st = bindE (get_task s p) (\<lambda>t. set_task s p (t\<lparr>os_state := st\<rparr>))"

definition get_current :: "sched \<Rightarrow> nat \<Rightarrow> nat option res" where
  "get_current s c = (if c < cpus s then Inr (current s c) else Inl Out_Of_Bounds)"

definition set_current :: "sched \<Rightarrow> nat \<Rightarrow> nat option \<Rightarrow> sched res" where
  "set_current s c p = (if c < cpus s then Inr (s\<lparr>current := (current s)(c := p)\<rparr>) else Inl Out_Of_Bounds)"

subsection \<open>The ready queue\<close>

definition enqueue_process :: "sched \<Rightarrow> nat \<Rightarrow> sched res" where
  "enqueue_process s p =
     bindE (get_task s p) (\<lambda>t.
     bindE (set_task s p (t\<lparr>os_next := None\<rparr>)) (\<lambda>s1.
       case ready_tail s1 of
         None \<Rightarrow> Inr (s1\<lparr>ready_head := Some p, ready_tail := Some p\<rparr>)
       | Some q \<Rightarrow>
           bindE (get_task s1 q) (\<lambda>u.
           bindE (set_task s1 q (u\<lparr>os_next := Some p\<rparr>)) (\<lambda>s2.
             Inr (s2\<lparr>ready_tail := Some p\<rparr>)))))"

definition dequeue_process :: "sched \<Rightarrow> (nat option \<times> sched) res" where
  "dequeue_process s =
     (case ready_head s of
        None \<Rightarrow> Inr (None, s)
      | Some p \<Rightarrow>
          bindE (get_task s p) (\<lambda>t.
          let s1 = s\<lparr>ready_head := os_next t\<rparr>;
              s2 = (if ready_head s1 = None then s1\<lparr>ready_tail := None\<rparr> else s1) in
          bindE (set_task s2 p (t\<lparr>os_next := None\<rparr>)) (\<lambda>s3. Inr (Some p, s3))))"

subsection \<open>Critical sections\<close>

text \<open>\<open>schedule\<close>, under \<open>current_mutex\<close>.\<close>

definition install_next :: "nat \<Rightarrow> nat option \<Rightarrow> sched \<Rightarrow> sched res" where
  "install_next c next_process s =
     bindE (set_current s c next_process) (\<lambda>s1.
       case next_process of None \<Rightarrow> Inr s1 | Some p \<Rightarrow> set_state s1 p PROCESS_RUNNING)"

text \<open>\<open>preempt\<close>, under \<open>current_mutex\<close>, and under \<open>ready_mutex\<close>; the latter is also all of \<open>wake_up\<close>.\<close>

definition take_current :: "nat \<Rightarrow> sched \<Rightarrow> (nat option \<times> sched) res" where
  "take_current c s =
     bindE (get_current s c) (\<lambda>p. bindE (set_current s c None) (\<lambda>s1. Inr (p, s1)))"

definition make_ready :: "nat \<Rightarrow> sched \<Rightarrow> sched res" where
  "make_ready p s = bindE (set_state s p PROCESS_READY) (\<lambda>s1. enqueue_process s1 p)"

text \<open>\<open>yield\<close> and \<open>terminate\<close>, under \<open>current_mutex\<close>.\<close>

definition retire_current :: "process_state_t \<Rightarrow> nat \<Rightarrow> sched \<Rightarrow> sched res" where
  "retire_current st c s =
     bindE (get_current s c) (\<lambda>p.
       case p of None \<Rightarrow> Inr s | Some p \<Rightarrow> bindE (set_state s p st) (\<lambda>s1. set_current s1 c None))"

subsection \<open>Callbacks that run without interruption\<close>

text \<open>The first component of the result is the process that \<open>context_switch\<close> is called with.\<close>

definition schedule :: "nat \<Rightarrow> sched \<Rightarrow> (nat option \<times> sched) res" where
  "schedule c s =
     bindE (dequeue_process s) (\<lambda>(next_process, s1).
     bindE (install_next c next_process s1) (\<lambda>s2. Inr (next_process, s2)))"

definition preempt :: "nat \<Rightarrow> sched \<Rightarrow> (nat option \<times> sched) res" where
  "preempt c s =
     bindE (take_current c s) (\<lambda>(preempted_process, s1).
     bindE (case preempted_process of None \<Rightarrow> Inr s1 | Some p \<Rightarrow> make_ready p s1) (\<lambda>s2.
       schedule c s2))"

definition yield :: "nat \<Rightarrow> sched \<Rightarrow> (nat option \<times> sched) res" where
  "yield c s = bindE (retire_current PROCESS_WAITING c s) (schedule c)"

definition terminate :: "nat \<Rightarrow> sched \<Rightarrow> (nat option \<times> sched) res" where
  "terminate c s = bindE (retire_current PROCESS_TERMINATED c s) (schedule c)"

definition wake_up :: "nat \<Rightarrow> sched \<Rightarrow> sched res" where
  "wake_up p s = make_ready p s"

subsection \<open>Callbacks as steps of a thread\<close>

text \<open>
  Where a CPU thread is in a callback. \<open>Idle_Wait\<close> is the loop of \<open>idle\<close>: a step with an empty queue
  is a \<open>pthread_cond_wait\<close> that has to wait again. \<open>Call_Switch p\<close> is the call of \<open>context_switch\<close>, which
  belongs to the simulator.
\<close>

datatype callback_pc =
    Idle_Wait
  | Preempt_Take
  | Preempt_Put nat
  | Yield_Mark
  | Terminate_Mark
  | Pick
  | Install "nat option"
  | Call_Switch "nat option"

definition callback_step :: "nat \<Rightarrow> callback_pc \<Rightarrow> sched \<Rightarrow> (callback_pc \<times> sched) res" where
  "callback_step c pc s = (case pc of
     Idle_Wait \<Rightarrow> Inr (if ready_head s = None then Idle_Wait else Pick, s)
   | Preempt_Take \<Rightarrow> bindE (take_current c s) (\<lambda>(p, s1).
       Inr (case p of None \<Rightarrow> Pick | Some p \<Rightarrow> Preempt_Put p, s1))
   | Preempt_Put p \<Rightarrow> bindE (make_ready p s) (\<lambda>s1. Inr (Pick, s1))
   | Yield_Mark \<Rightarrow> bindE (retire_current PROCESS_WAITING c s) (\<lambda>s1. Inr (Pick, s1))
   | Terminate_Mark \<Rightarrow> bindE (retire_current PROCESS_TERMINATED c s) (\<lambda>s1. Inr (Pick, s1))
   | Pick \<Rightarrow> bindE (dequeue_process s) (\<lambda>(p, s1). Inr (Install p, s1))
   | Install p \<Rightarrow> bindE (install_next c p s) (\<lambda>s1. Inr (Call_Switch p, s1))
   | Call_Switch p \<Rightarrow> Inr (Call_Switch p, s))"

subsection \<open>The command line\<close>

text \<open>
  \<open>strtoul\<close> and \<open>strtol\<close> are the C library's: the model takes the numbers they return. The options
  are the words after the program's name; the result is the number of CPUs (\<open>unsigned int\<close>) and the time slice
  (\<open>int\<close>), or the message of the error.
\<close>

definition is_dash_r :: "string \<Rightarrow> bool" where
  "is_dash_r w \<longleftrightarrow> w = ''-r''"

definition parse_options ::
    "(string \<Rightarrow> u64) \<Rightarrow> (string \<Rightarrow> 64 word) \<Rightarrow> string list \<Rightarrow> (u32 \<times> int) res" where
  "parse_options strtoul strtol args =
     bindE (guardE (length args = 1 \<or> length args = 3) (Exit_Failure ''Usage'')) (\<lambda>_.
     let cpu_count = ucast (strtoul (args ! 0)) :: u32 in
     bindE (if length args = 1 then Inr (-1)
            else bindE (guardE (is_dash_r (args ! 1)) (Exit_Failure ''Invalid scheduling algorithm'')) (\<lambda>_.
                 let quantum = sint (ucast (strtol (args ! 2)) :: u32) in
                 bindE (guardE (0 < quantum) (Exit_Failure ''Time slice must be greater than zero.'')) (\<lambda>_.
                   Inr quantum))) (\<lambda>quantum.
     bindE (guardE (1 \<le> cpu_count \<and> cpu_count \<le> 16) (Exit_Failure ''CPU count must be 1 - 16.'')) (\<lambda>_.
       Inr (cpu_count, quantum))))"

definition init_sched :: "u32 \<Rightarrow> int \<Rightarrow> sched" where
  "init_sched cpu_count quantum = \<lparr>tasks = initial_process, ready_head = None, ready_tail = None,
     current = (\<lambda>_. None), cpus = unat cpu_count, time_slice = quantum\<rparr>"

end
