(* ===== verification/Os_Sim.thy ===== *)
theory Os_Sim
  imports Scheduler
begin

text \<open>
  The simulator of \<open>os-sim.c\<close>: simulated CPUs, the I/O queue, the supervisor thread that simulates
  one interval of time after the other, the CPU threads that call the scheduler, and the
  "inverted" readers-writers lock between them. A thread is a program counter; its step is what it
  does in one critical section. What is printed is in \<open>Os_Report\<close>.
\<close>

subsection \<open>State\<close>

datatype simulator_cpu_state_t = CPU_IDLE | CPU_RUNNING | CPU_PREEMPT | CPU_YIELD | CPU_TERMINATE

record simulator_cpu_data_t =
  cd_current :: "nat option"
  cd_state :: simulator_cpu_state_t
  preemption_timer :: int

record io_request =
  io_pcb :: nat
  execution_time :: u32
  io_next :: "nat option"

text \<open>
  Where a CPU thread is: at the top of its loop, blocked on its condition variable, about to act on
  the event it has read, in a callback (with or without the writer lock), in the middle of
  \<open>context_switch\<close>, or about to give the writer lock back.
\<close>

datatype cpu_pc =
    At_Loop
  | Blocked
  | Dispatch simulator_cpu_state_t
  | Lock_Writer callback_pc
  | In_Callback bool callback_pc
  | Switch_Set bool "nat option"
  | Switch_Lock bool
  | Unlock_Writer

text \<open>
  Where the supervisor is. In \<open>Sup_Wait n\<close> it waits on the condition variable of CPU \<open>n\<close>, in
  \<open>Sup_Woken n\<close> the variable has been signalled. The argument \<open>io\<close> tells the call of \<open>wake_up\<close> for a
  completed I/O request from the one for a new process.
\<close>

datatype sup_pc =
    Sup_Loop
  | Sup_Gantt
  | Sup_Cpus nat
  | Sup_Wait nat
  | Sup_Woken nat
  | Sup_Io
  | Sup_Creat
  | Sup_Tick
  | Sup_Lock bool nat
  | Sup_Wake bool nat
  | Sup_Unlock bool
  | Sup_Exit

record os =
  sch :: sched
  operations :: "nat \<Rightarrow> op_t list"
  io_heap :: "io_request heap"
  io_queue_head :: "nat option"
  io_queue_tail :: "nat option"
  cpu_data :: "nat \<Rightarrow> simulator_cpu_data_t"
  cpu_count :: nat
  simulator_time :: u32
  processes_terminated :: u32
  processes_created :: nat
  ready_counter :: u32
  running_counter :: u32
  waiting_counter :: u32
  context_switches :: u32
  writers :: int
  threads :: "nat \<Rightarrow> cpu_pc"
  supervisor :: sup_pc

definition set_cpu_state :: "os \<Rightarrow> nat \<Rightarrow> simulator_cpu_state_t \<Rightarrow> os" where
  "set_cpu_state s c st = s\<lparr>cpu_data := (cpu_data s)(c := (cpu_data s c)\<lparr>cd_state := st\<rparr>)\<rparr>"

definition goto :: "os \<Rightarrow> nat \<Rightarrow> cpu_pc \<Rightarrow> os" where
  "goto s c pc = s\<lparr>threads := (threads s)(c := pc)\<rparr>"

definition sup_goto :: "os \<Rightarrow> sup_pc \<Rightarrow> os" where
  "sup_goto s pc = s\<lparr>supervisor := pc\<rparr>"

text \<open>
  The macros of the inverted readers-writers lock. A reader waits while there are writers, and holds the
  lock's mutex afterwards; here it reads in one step.
\<close>

definition IRWL_READER_WAITS :: "os \<Rightarrow> bool" where
  "IRWL_READER_WAITS s \<longleftrightarrow> writers s > 0"

definition IRWL_WRITER_LOCK :: "os \<Rightarrow> os" where
  "IRWL_WRITER_LOCK s = s\<lparr>writers := writers s + 1\<rparr>"

definition IRWL_WRITER_UNLOCK :: "os \<Rightarrow> os" where
  "IRWL_WRITER_UNLOCK s = s\<lparr>writers := writers s - 1\<rparr>"

declare IRWL_READER_WAITS_def [simp] IRWL_WRITER_LOCK_def [simp] IRWL_WRITER_UNLOCK_def [simp]

subsection \<open>Operations of a process\<close>

text \<open>\<open>*(pcb->pc)\<close> for the operation array of process \<open>p\<close>.\<close>

definition op_at :: "os \<Rightarrow> nat \<Rightarrow> nat \<Rightarrow> op_t res" where
  "op_at s p i = (if i < length (operations s p) then Inr (operations s p ! i) else Inl Out_Of_Bounds)"

definition update_task :: "os \<Rightarrow> nat \<Rightarrow> (os_pcb_t \<Rightarrow> os_pcb_t) \<Rightarrow> os res" where
  "update_task s p f = bindE (get_task (sch s) p) (\<lambda>t.
     bindE (set_task (sch s) p (f t)) (\<lambda>sc. Inr (s\<lparr>sch := sc\<rparr>)))"

text \<open>\<open>pcb->pc++\<close> and \<open>pcb->time_remaining = pcb->pc->time + 1\<close>; the result is the new operation.\<close>

definition advance :: "os \<Rightarrow> nat \<Rightarrow> (op_t \<times> os) res" where
  "advance s p =
     bindE (get_task (sch s) p) (\<lambda>t.
     bindE (op_at s p (os_pc t + 1)) (\<lambda>op.
     bindE (update_task s p (\<lambda>t. t\<lparr>os_pc := os_pc t + 1, time_remaining := op_time op + 1\<rparr>)) (\<lambda>s1.
       Inr (op, s1))))"

subsection \<open>The I/O queue\<close>

definition submit_io_request :: "u32 \<Rightarrow> os \<Rightarrow> nat \<Rightarrow> os res" where
  "submit_io_request t s p =
     (case heap_alloc (io_heap s) \<lparr>io_pcb = p, execution_time = t, io_next = None\<rparr> of
        None \<Rightarrow> Inl Assert_Failed
      | Some (r, h) \<Rightarrow>
          (if io_queue_tail s \<noteq> None
           then bindE (load h (io_queue_tail s)) (\<lambda>q.
                bindE (store h (io_queue_tail s) (q\<lparr>io_next := Some r\<rparr>)) (\<lambda>h'.
                  Inr (s\<lparr>io_heap := h', io_queue_tail := Some r\<rparr>)))
           else Inr (s\<lparr>io_heap := h, io_queue_head := Some r, io_queue_tail := Some r\<rparr>)))"

text \<open>The removal of the first request in \<open>simulate_io\<close>.\<close>

definition remove_io_request :: "os \<Rightarrow> (nat option \<times> os) res" where
  "remove_io_request s =
     (case io_queue_head s of
        None \<Rightarrow> Inr (None, s)
      | Some r \<Rightarrow>
          bindE (load (io_heap s) (Some r)) (\<lambda>completed.
          let s1 = s\<lparr>io_queue_head := io_next completed\<rparr>;
              s2 = (if io_queue_head s1 = None then s1\<lparr>io_queue_tail := None\<rparr> else s1) in
          bindE (heap_free (io_heap s2) r) (\<lambda>h. Inr (Some (io_pcb completed), s2\<lparr>io_heap := h\<rparr>))))"

text \<open>The result is the process to wake up, if the first request has completed.\<close>

definition simulate_io :: "os \<Rightarrow> (nat option \<times> os) res" where
  "simulate_io s =
     (if io_queue_head s = None then Inr (None, s)
      else
        bindE (load (io_heap s) (io_queue_head s)) (\<lambda>r.
        bindE (store (io_heap s) (io_queue_head s) (r\<lparr>execution_time := execution_time r - 1\<rparr>)) (\<lambda>h.
        let s1 = s\<lparr>io_heap := h\<rparr> in
        if execution_time r \<le> 0
        then bindE (advance s1 (io_pcb r)) (\<lambda>(_, s2). remove_io_request s2)
        else Inr (None, s1))))"

subsection \<open>Processes on CPUs\<close>

text \<open>An event for CPU \<open>c\<close>: the supervisor then waits until the scheduler has run there.\<close>

definition raise_event :: "os \<Rightarrow> nat \<Rightarrow> simulator_cpu_state_t \<Rightarrow> os" where
  "raise_event s c st = sup_goto (set_cpu_state s c st) (Sup_Wait c)"

definition run_burst :: "nat \<Rightarrow> nat \<Rightarrow> op_t \<Rightarrow> os \<Rightarrow> os res" where
  "run_burst c p op s =
     bindE (get_task (sch s) p) (\<lambda>t.
     let s1 = s\<lparr>operations := (operations s)(p := (operations s p)[os_pc t := op\<lparr>op_time := op_time op - 1\<rparr>])\<rparr> in
     bindE (update_task s1 p (\<lambda>t. t\<lparr>time_remaining := op_time op - 1 + 1\<rparr>)) (\<lambda>s2.
     let timer = preemption_timer (cpu_data s2 c) - 1;
         s3 = s2\<lparr>cpu_data := (cpu_data s2)(c := (cpu_data s2 c)\<lparr>preemption_timer := timer\<rparr>)\<rparr> in
     Inr (if timer = 0 then raise_event s3 c CPU_PREEMPT else sup_goto s3 (Sup_Cpus (c + 1)))))"

definition end_burst :: "nat \<Rightarrow> nat \<Rightarrow> os \<Rightarrow> os res" where
  "end_burst c p s =
     bindE (advance s p) (\<lambda>(op, s1).
       case op_kind op of
         OP_IO \<Rightarrow> bindE (submit_io_request (op_time op) s1 p) (\<lambda>s2. Inr (raise_event s2 c CPU_YIELD))
       | OP_TERMINATE \<Rightarrow> Inr (raise_event s1 c CPU_TERMINATE)
       | OP_CPU \<Rightarrow> Inr (sup_goto s1 (Sup_Cpus (c + 1))))"

definition simulate_process :: "nat \<Rightarrow> nat \<Rightarrow> os \<Rightarrow> os res" where
  "simulate_process c p s =
     bindE (get_task (sch s) p) (\<lambda>t.
     bindE (op_at s p (os_pc t)) (\<lambda>op.
       case op_kind op of
         OP_CPU \<Rightarrow> if op_time op > 0 then run_burst c p op s else end_burst c p s
       | OP_IO \<Rightarrow> Inr (sup_goto s (Sup_Cpus (c + 1)))
       | OP_TERMINATE \<Rightarrow> Inr (sup_goto s (Sup_Cpus (c + 1)))))"

text \<open>One iteration of \<open>simulate_cpus\<close>.\<close>

definition simulate_cpu :: "nat \<Rightarrow> os \<Rightarrow> os res" where
  "simulate_cpu n s =
     (if n < cpu_count s
      then case cd_current (cpu_data s n) of
          None \<Rightarrow> Inr (sup_goto s (Sup_Cpus (n + 1)))
        | Some p \<Rightarrow> simulate_process n p s
      else Inr (sup_goto s Sup_Io))"

subsection \<open>The supervisor thread\<close>

text \<open>The \<open>simulator_mutex\<close> is held by the supervisor, or free between the steps of the threads.\<close>

definition mutex_free :: "os \<Rightarrow> bool" where
  "mutex_free s \<longleftrightarrow> (case supervisor s of
     Sup_Gantt \<Rightarrow> False | Sup_Cpus _ \<Rightarrow> False | Sup_Io \<Rightarrow> False | Sup_Creat \<Rightarrow> False | Sup_Tick \<Rightarrow> False
   | _ \<Rightarrow> True)"

definition count_state :: "os \<Rightarrow> process_state_t \<Rightarrow> u32" where
  "count_state s st = of_nat (length (filter (\<lambda>p. os_state (tasks (sch s) p) = st) [0..<PROCESS_COUNT]))"

definition gantt_line :: "os \<Rightarrow> os" where
  "gantt_line s = s\<lparr>ready_counter := ready_counter s + count_state s PROCESS_READY,
     running_counter := running_counter s + count_state s PROCESS_RUNNING,
     waiting_counter := waiting_counter s + count_state s PROCESS_WAITING\<rparr>"

definition lift_sched :: "os \<Rightarrow> sched res \<Rightarrow> os res" where
  "lift_sched s m = bindE m (\<lambda>sc. Inr (s\<lparr>sch := sc\<rparr>))"

text \<open>\<open>simulate_creat\<close> up to the call of \<open>wake_up\<close>, and what follows the calls.\<close>

definition simulate_creat :: "os \<Rightarrow> os" where
  "simulate_creat s = sup_goto s
     (if simulator_time s mod 10 = 0 \<and> processes_created s < PROCESS_COUNT
      then Sup_Lock False (processes_created s) else Sup_Tick)"

definition woken_up :: "bool \<Rightarrow> os \<Rightarrow> os" where
  "woken_up io s = (if io then sup_goto s Sup_Creat
     else sup_goto (s\<lparr>processes_created := processes_created s + 1\<rparr>) Sup_Tick)"

declare simulate_creat_def [simp] woken_up_def [simp]

text \<open>\<open>None\<close>: the thread is blocked.\<close>

definition sup_step :: "os \<Rightarrow> os option res" where
  "sup_step s = (case supervisor s of
     Sup_Loop \<Rightarrow> Inr (Some (sup_goto s
       (if processes_terminated s \<ge> of_nat PROCESS_COUNT then Sup_Exit else Sup_Gantt)))
   | Sup_Gantt \<Rightarrow> Inr (if IRWL_READER_WAITS s then None else Some (sup_goto (gantt_line s) (Sup_Cpus 0)))
   | Sup_Cpus n \<Rightarrow> bindE (simulate_cpu n s) (\<lambda>s1. Inr (Some s1))
   | Sup_Wait n \<Rightarrow> Inr None
   | Sup_Woken n \<Rightarrow> Inr (Some (sup_goto s (Sup_Cpus (n + 1))))
   | Sup_Io \<Rightarrow> bindE (simulate_io s) (\<lambda>(p, s1).
       Inr (Some (sup_goto s1 (case p of None \<Rightarrow> Sup_Creat | Some p \<Rightarrow> Sup_Lock True p))))
   | Sup_Creat \<Rightarrow> Inr (Some (simulate_creat s))
   | Sup_Tick \<Rightarrow> Inr (Some (sup_goto (s\<lparr>simulator_time := simulator_time s + 1\<rparr>) Sup_Loop))
   | Sup_Lock io p \<Rightarrow> Inr (Some (sup_goto (IRWL_WRITER_LOCK s) (Sup_Wake io p)))
   | Sup_Wake io p \<Rightarrow> bindE (lift_sched s (wake_up p (sch s))) (\<lambda>s1. Inr (Some (sup_goto s1 (Sup_Unlock io))))
   | Sup_Unlock io \<Rightarrow> Inr (Some (woken_up io (IRWL_WRITER_UNLOCK s)))
   | Sup_Exit \<Rightarrow> Inr None)"

subsection \<open>The CPU threads\<close>

text \<open>The top of the loop: signal the supervisor, then note what has been scheduled.\<close>

definition loop_top :: "nat \<Rightarrow> os \<Rightarrow> os" where
  "loop_top c s =
     (let s1 = (if supervisor s = Sup_Wait c then sup_goto s (Sup_Woken c) else s) in
      if cd_current (cpu_data s1 c) = None
      then goto (set_cpu_state s1 c CPU_IDLE) c (Dispatch CPU_IDLE)
      else goto (set_cpu_state s1 c CPU_RUNNING) c Blocked)"

definition dispatch :: "nat \<Rightarrow> simulator_cpu_state_t \<Rightarrow> os \<Rightarrow> os option" where
  "dispatch c st s = (case st of
     CPU_IDLE \<Rightarrow> Some (goto s c (In_Callback False Idle_Wait))
   | CPU_PREEMPT \<Rightarrow> Some (goto s c (Lock_Writer Preempt_Take))
   | CPU_YIELD \<Rightarrow> Some (goto s c (Lock_Writer Yield_Mark))
   | CPU_TERMINATE \<Rightarrow>
       if mutex_free s
       then Some (goto (s\<lparr>processes_terminated := processes_terminated s + 1\<rparr>) c (Lock_Writer Terminate_Mark))
       else None
   | CPU_RUNNING \<Rightarrow> Some (goto s c At_Loop))"

text \<open>\<open>context_switch\<close>, up to its \<open>IRWL_WRITER_UNLOCK\<close>.\<close>

definition os_context_switch :: "nat \<Rightarrow> bool \<Rightarrow> nat option \<Rightarrow> os \<Rightarrow> os res" where
  "os_context_switch c w pcb s =
     bindE (guardE (c < cpu_count s) Assert_Failed) (\<lambda>_.
     bindE (guardE (pcb = None \<or> the pcb < PROCESS_COUNT) Assert_Failed) (\<lambda>_.
       Inr (goto (IRWL_WRITER_UNLOCK (s\<lparr>context_switches := context_switches s + 1\<rparr>)) c (Switch_Set w pcb))))"

definition switch_set :: "nat \<Rightarrow> nat option \<Rightarrow> int \<Rightarrow> os \<Rightarrow> os" where
  "switch_set c pcb preemption_time s =
     s\<lparr>cpu_data := (cpu_data s)(c := (cpu_data s c)\<lparr>cd_current := pcb, preemption_timer := preemption_time\<rparr>)\<rparr>"

declare switch_set_def [simp]

text \<open>
  \<open>force_preempt\<close>, which no callback of this scheduler calls: the part before its \<open>pthread_cond_wait\<close>. The first
  component of the result tells whether the caller then waits for CPU \<open>c\<close> to run the scheduler.
\<close>

definition force_preempt :: "nat \<Rightarrow> os \<Rightarrow> (bool \<times> os) res" where
  "force_preempt c s =
     bindE (guardE (c < cpu_count s) Assert_Failed) (\<lambda>_.
     let s1 = IRWL_WRITER_UNLOCK s in
     Inr (if cd_state (cpu_data s1 c) = CPU_RUNNING then (True, set_cpu_state s1 c CPU_PREEMPT) else (False, s1)))"

definition cpu_step :: "nat \<Rightarrow> os \<Rightarrow> os option res" where
  "cpu_step c s = (if supervisor s = Sup_Exit then Inr None else case threads s c of
     At_Loop \<Rightarrow> Inr (if mutex_free s then Some (loop_top c s) else None)
   | Blocked \<Rightarrow> Inr (if mutex_free s \<and> cd_state (cpu_data s c) \<noteq> CPU_RUNNING
       then Some (goto s c (Dispatch (cd_state (cpu_data s c)))) else None)
   | Dispatch st \<Rightarrow> Inr (dispatch c st s)
   | Lock_Writer pc \<Rightarrow> Inr (Some (goto (IRWL_WRITER_LOCK s) c (In_Callback True pc)))
   | In_Callback w pc \<Rightarrow>
       (case pc of
          Call_Switch p \<Rightarrow> bindE (os_context_switch c w p s) (\<lambda>s1. Inr (Some s1))
        | _ \<Rightarrow> bindE (callback_step c pc (sch s)) (\<lambda>(pc', sc). Inr (Some (goto (s\<lparr>sch := sc\<rparr>) c (In_Callback w pc')))))
   | Switch_Set w p \<Rightarrow> Inr (if mutex_free s
       then Some (goto (switch_set c p (time_slice (sch s)) s) c (Switch_Lock w))
       else None)
   | Switch_Lock w \<Rightarrow> Inr (Some (goto (IRWL_WRITER_LOCK s) c (if w then Unlock_Writer else At_Loop)))
   | Unlock_Writer \<Rightarrow> Inr (Some (goto (IRWL_WRITER_UNLOCK s) c At_Loop)))"

subsection \<open>The whole program\<close>

definition start_simulator :: "sched \<Rightarrow> nat \<Rightarrow> nat \<Rightarrow> os res" where
  "start_simulator sc new_cpu_count room =
     bindE (guardE (1 \<le> new_cpu_count \<and> new_cpu_count \<le> 16)
       (Exit_Failure ''CPU Count must be an integer from 1 to 16!'')) (\<lambda>_.
     Inr \<lparr>sch = sc, operations = initial_operations,
       io_heap = \<lparr>cells = (\<lambda>_. None), brk = 0, avail = room\<rparr>, io_queue_head = None, io_queue_tail = None,
       cpu_data = (\<lambda>_. \<lparr>cd_current = None, cd_state = CPU_IDLE, preemption_timer = -1\<rparr>),
       cpu_count = new_cpu_count, simulator_time = 0, processes_terminated = 0, processes_created = 0,
       ready_counter = 0, running_counter = 0, waiting_counter = 0, context_switches = 0, writers = 0,
       threads = (\<lambda>_. At_Loop), supervisor = Sup_Loop\<rparr>)"

text \<open>\<open>main\<close> of \<open>scheduler.c\<close>, up to the start of the threads.\<close>

definition os_main :: "(string \<Rightarrow> u64) \<Rightarrow> (string \<Rightarrow> 64 word) \<Rightarrow> nat \<Rightarrow> string list \<Rightarrow> os res" where
  "os_main strtoul strtol room args =
     bindE (parse_options strtoul strtol args) (\<lambda>(n, q). start_simulator (init_sched n q) (unat n) room)"

datatype thread = Cpu nat | Supervisor

definition thread_step :: "thread \<Rightarrow> os \<Rightarrow> os option res" where
  "thread_step t s = (case t of
     Cpu c \<Rightarrow> if c < cpu_count s then cpu_step c s else Inr None
   | Supervisor \<Rightarrow> sup_step s)"

inductive os_step :: "os \<Rightarrow> os \<Rightarrow> bool" where
  "thread_step t s = Inr (Some s') \<Longrightarrow> os_step s s'"

inductive_cases os_stepE: "os_step s s'"

text \<open>Running the threads in a given order; a thread that is blocked does nothing.\<close>

fun run_threads :: "thread list \<Rightarrow> os \<Rightarrow> os res" where
  "run_threads [] s = Inr s"
| "run_threads (t # ts) s = bindE (thread_step t s) (\<lambda>r. run_threads ts (case r of None \<Rightarrow> s | Some s1 \<Rightarrow> s1))"

lemma run_threads_reach: "run_threads ts s = Inr s' \<Longrightarrow> os_step\<^sup>*\<^sup>* s s'"
proof (induction ts arbitrary: s)
  case Nil
  then show ?case by simp
next
  case (Cons t ts)
  then obtain r where r: "thread_step t s = Inr r" "run_threads ts (case r of None \<Rightarrow> s | Some s1 \<Rightarrow> s1) = Inr s'"
    by auto
  from r(1) have "os_step\<^sup>*\<^sup>* s (case r of None \<Rightarrow> s | Some s1 \<Rightarrow> s1)"
    by (auto intro: os_step.intros split: option.splits)
  with Cons.IH[OF r(2)] show ?case by (rule rtranclp_trans[rotated])
qed

end
