(* ===== verification/Os_Io.thy ===== *)
theory Os_Io
  imports Os_Sim
begin

text \<open>
  The I/O queue of the simulator as a list of processes: a FIFO queue whose elements are allocated
  with \<open>malloc\<close>, and the effect of one interval of simulated I/O.
\<close>

subsection \<open>The requests the pointers represent\<close>

definition request_next :: "io_request heap \<Rightarrow> nat \<Rightarrow> nat option" where
  "request_next h r = (case cells h r of None \<Rightarrow> None | Some q \<Rightarrow> io_next q)"

definition request_pcb :: "io_request heap \<Rightarrow> nat \<Rightarrow> nat" where
  "request_pcb h r = (case cells h r of None \<Rightarrow> 0 | Some q \<Rightarrow> io_pcb q)"

text \<open>There is memory for a request of every process.\<close>

definition io_list :: "os \<Rightarrow> nat list \<Rightarrow> bool" where
  "io_list s rs \<longleftrightarrow> heap_ok (io_heap s) \<and> dom (cells (io_heap s)) = set rs
     \<and> fifo (request_next (io_heap s)) (io_queue_head s) (io_queue_tail s) rs
     \<and> distinct (map (request_pcb (io_heap s)) rs)
     \<and> (\<forall>r \<in> set rs. request_pcb (io_heap s) r < PROCESS_COUNT)
     \<and> PROCESS_COUNT \<le> avail (io_heap s) + length rs"

definition io_items :: "os \<Rightarrow> nat list \<Rightarrow> bool" where
  "io_items s ps \<longleftrightarrow> (\<exists>rs. io_list s rs \<and> ps = map (request_pcb (io_heap s)) rs)"

definition not_in_io :: "os \<Rightarrow> nat set" where
  "not_in_io s = {p. p < PROCESS_COUNT \<and> (\<forall>ps. io_items s ps \<longrightarrow> p \<notin> set ps)}"

lemma io_items_det: "io_items s ps \<Longrightarrow> io_items s qs \<Longrightarrow> ps = qs"
  unfolding io_items_def io_list_def using fifo_det by metis

lemma not_in_io_eq: "io_items s ps \<Longrightarrow> not_in_io s = {..<PROCESS_COUNT} - set ps"
  by (auto simp: not_in_io_def dest: io_items_det)

lemma request_cell: "cells h r = Some q \<Longrightarrow> request_next h r = io_next q \<and> request_pcb h r = io_pcb q"
  by (simp add: request_next_def request_pcb_def)

text \<open>Fields of the state that are not the queue's do not matter.\<close>

lemma io_list_cong:
  "io_heap s' = io_heap s \<Longrightarrow> io_queue_head s' = io_queue_head s \<Longrightarrow> io_queue_tail s' = io_queue_tail s \<Longrightarrow>
    io_list s' rs = io_list s rs"
  by (simp add: io_list_def)

lemma io_items_cong:
  "io_heap s' = io_heap s \<Longrightarrow> io_queue_head s' = io_queue_head s \<Longrightarrow> io_queue_tail s' = io_queue_tail s \<Longrightarrow>
    io_items s' ps = io_items s ps"
  using io_list_cong[of s' s] by (simp add: io_items_def)

text \<open>Everything but the queue.\<close>

definition io_only :: "os \<Rightarrow> os \<Rightarrow> bool" where
  "io_only s s' \<longleftrightarrow> (\<exists>h a b. s' = s\<lparr>io_heap := h, io_queue_head := a, io_queue_tail := b\<rparr>)"

subsection \<open>Submitting a request\<close>

lemma room_for_request:
  assumes "io_list s rs" and "p < PROCESS_COUNT" and "p \<notin> request_pcb (io_heap s) ` set rs"
  shows "0 < avail (io_heap s)"
proof -
  let ?ps = "map (request_pcb (io_heap s)) rs"
  have "distinct (p # ?ps)" "set (p # ?ps) \<subseteq> {..<PROCESS_COUNT}"
    using assms by (auto simp: io_list_def)
  then have "length (p # ?ps) \<le> PROCESS_COUNT"
    using card_mono[of "{..<PROCESS_COUNT}" "set (p # ?ps)"] distinct_card[of "p # ?ps"] by simp
  then show ?thesis using assms(1) by (simp add: io_list_def)
qed

lemma submit_ok:
  assumes items: "io_items s ps" and p: "p < PROCESS_COUNT" "p \<notin> set ps"
  shows "\<exists>s'. submit_io_request t s p = Inr s' \<and> io_items s' (ps @ [p]) \<and> io_only s s'"
proof -
  obtain rs where rs: "io_list s rs" "ps = map (request_pcb (io_heap s)) rs"
    using items by (auto simp: io_items_def)
  let ?h = "io_heap s" and ?r = "brk (io_heap s)"
  have room: "0 < avail ?h" using room_for_request[OF rs(1) p(1)] p(2) rs(2) by simp
  have ok: "heap_ok ?h" and dom: "dom (cells ?h) = set rs"
    and q: "fifo (request_next ?h) (io_queue_head s) (io_queue_tail s) rs"
    using rs(1) by (simp_all add: io_list_def)
  have fresh: "?r \<notin> set rs" using heap_fresh[OF ok] dom by auto
  let ?c = "\<lparr>io_pcb = p, execution_time = t, io_next = None\<rparr>"
  let ?h1 = "?h\<lparr>cells := (cells ?h)(?r \<mapsto> ?c), brk := Suc ?r, avail := avail ?h - 1\<rparr>"
  have alloc: "heap_alloc ?h ?c = Some (?r, ?h1)" using room by (simp add: heap_alloc_def)
  have ok1: "heap_ok ?h1" using ok by (auto simp: heap_ok_def less_Suc_eq)
  have pcb1: "request_pcb ?h1 = (request_pcb ?h)(?r := p)" and next1: "request_next ?h1 = (request_next ?h)(?r := None)"
    by (auto simp: request_pcb_def request_next_def)
  have finish: "io_items s' (ps @ [p])"
    if "io_heap s' = h'" "request_pcb h' = request_pcb ?h1" "dom (cells h') = dom (cells ?h1)" "heap_ok h'"
      "avail h' = avail ?h1" "fifo (request_next h') (io_queue_head s') (io_queue_tail s') (rs @ [?r])" for s' h'
  proof -
    have pcb: "request_pcb h' ?r = p" "\<And>x. x \<in> set rs \<Longrightarrow> request_pcb h' x = request_pcb ?h x"
      unfolding that(2) pcb1 using fresh by auto
    have map': "map (request_pcb (io_heap s')) (rs @ [?r]) = ps @ [p]"
      using that(1) pcb rs(2) by simp
    moreover have "distinct (ps @ [p])" using rs p(2) by (simp add: io_list_def)
    moreover have "\<forall>x \<in> set (rs @ [?r]). request_pcb h' x < PROCESS_COUNT"
      using pcb p(1) rs(1) by (auto simp: io_list_def)
    moreover have "PROCESS_COUNT \<le> avail h' + length (rs @ [?r])"
      using that(5) rs(1) room by (simp add: io_list_def)
    moreover have "dom (cells h') = set (rs @ [?r])" using that(3) dom by auto
    ultimately have "io_list s' (rs @ [?r])"
      using that(4,6) unfolding io_list_def that(1) by simp
    with map' show ?thesis unfolding io_items_def by metis
  qed
  show ?thesis
  proof (cases "io_queue_tail s")
    case None
    then have "rs = []" using fifo_tail_None[OF q] by simp
    then have "fifo (request_next ?h1) (Some ?r) (Some ?r) (rs @ [?r])"
      unfolding next1 by (simp add: fifo_def)
    then have "io_items (s\<lparr>io_heap := ?h1, io_queue_head := Some ?r, io_queue_tail := Some ?r\<rparr>) (ps @ [p])"
      using ok1 by (intro finish) simp_all
    then show ?thesis using None alloc by (auto simp: submit_io_request_def io_only_def)
  next
    case (Some l)
    then have l: "rs \<noteq> []" "l = last rs" using q by (auto simp: fifo_def split: if_splits)
    then have lin: "l \<in> set rs" by simp
    then have ne: "l \<noteq> ?r" using fresh by auto
    obtain v where v: "cells ?h l = Some v" using lin dom by blast
    let ?h2 = "?h1\<lparr>cells := (cells ?h1)(l \<mapsto> v\<lparr>io_next := Some ?r\<rparr>)\<rparr>"
    have "request_next ?h2 = (request_next ?h)(?r := None, l := Some ?r)"
      by (auto simp: request_next_def fun_eq_iff)
    then have "fifo (request_next ?h2) (io_queue_head s) (Some ?r) (rs @ [?r])"
      using fifo_enqueue[of "request_next ?h" _ l rs ?r] q Some fresh by simp
    moreover have "request_pcb ?h2 = request_pcb ?h1" using v ne by (auto simp: request_pcb_def fun_eq_iff)
    moreover have "dom (cells ?h2) = dom (cells ?h1)" using lin dom by auto
    moreover have "heap_ok ?h2" using ok1 v ne by (intro heap_ok_store) auto
    ultimately have "io_items (s\<lparr>io_heap := ?h2, io_queue_tail := Some ?r\<rparr>) (ps @ [p])"
      by (intro finish[of _ ?h2]) simp_all
    moreover have "submit_io_request t s p = Inr (s\<lparr>io_heap := ?h2, io_queue_tail := Some ?r\<rparr>)"
      using Some alloc v ne by (simp add: submit_io_request_def)
    moreover have "io_only s (s\<lparr>io_heap := ?h2, io_queue_tail := Some ?r\<rparr>)"
      unfolding io_only_def by (intro exI[of _ ?h2] exI[of _ "io_queue_head s"] exI[of _ "Some ?r"]) simp
    ultimately show ?thesis by blast
  qed
qed

subsection \<open>Removing the first request\<close>

lemma io_items_head: "io_items s ps \<Longrightarrow> io_queue_head s = None \<longleftrightarrow> ps = []"
  unfolding io_items_def io_list_def using fifo_head_None by (metis map_is_Nil_conv)

lemma remove_empty: "io_items s [] \<Longrightarrow> remove_io_request s = Inr (None, s)"
  using io_items_head[of s "[]"] by (simp add: remove_io_request_def)

lemma remove_ok:
  assumes items: "io_items s (p # ps)"
  shows "\<exists>s'. remove_io_request s = Inr (Some p, s') \<and> io_items s' ps \<and> io_only s s'"
proof -
  obtain r rs where rs: "io_list s (r # rs)" "p = request_pcb (io_heap s) r" "ps = map (request_pcb (io_heap s)) rs"
    using items by (auto simp: io_items_def)
  let ?h = "io_heap s"
  have q: "fifo (request_next ?h) (io_queue_head s) (io_queue_tail s) (r # rs)" and dom: "dom (cells ?h) = insert r (set rs)"
    and ok: "heap_ok ?h" using rs(1) by (simp_all add: io_list_def)
  note d = fifo_dequeue[OF q]
  obtain v where v: "cells ?h r = Some v" using dom by auto
  have n: "io_next v = request_next ?h r" "io_pcb v = p" using request_cell[OF v] rs(2) by simp_all
  let ?h1 = "?h\<lparr>cells := (cells ?h)(r := None), avail := Suc (avail ?h)\<rparr>"
  let ?t = "if request_next ?h r = None then None else io_queue_tail s"
  let ?s = "s\<lparr>io_heap := ?h1, io_queue_head := request_next ?h r, io_queue_tail := ?t\<rparr>"
  have "remove_io_request s = Inr (Some p, ?s)"
  proof (cases "io_next v")
    case None
    then show ?thesis using d(1) v n by (simp add: remove_io_request_def heap_free_def)
  next
    case (Some a)
    have "?s = s\<lparr>io_queue_head := Some a, io_heap := ?h1\<rparr>"
      using Some n by (intro os.equality) simp_all
    with Some show ?thesis using d(1) v n by (simp add: remove_io_request_def heap_free_def)
  qed
  moreover have next1: "request_next ?h1 x = request_next ?h x" "request_pcb ?h1 x = request_pcb ?h x" if "x \<noteq> r" for x
    using that by (simp_all add: request_next_def request_pcb_def)
  have "io_list ?s rs"
  proof -
    have "fifo (request_next ?h1) (request_next ?h r) ?t rs"
      by (rule fifo_cong[OF d(2)]) (metis d(3) next1(1))
    moreover have pcbs: "map (request_pcb ?h1) rs = map (request_pcb ?h) rs"
      using d(3) next1(2) by (metis map_cong)
    moreover have "heap_ok ?h1" using ok by (auto simp: heap_ok_def)
    moreover have "dom (cells ?h1) = set rs" using dom d(3) by auto
    moreover have "\<forall>x \<in> set rs. request_pcb ?h1 x < PROCESS_COUNT"
      using rs(1) d(3) next1(2) unfolding io_list_def by (metis list.set_intros(2))
    moreover have "distinct (map (request_pcb ?h1) rs)"
      unfolding pcbs using rs(1) by (simp add: io_list_def)
    moreover have "PROCESS_COUNT \<le> avail ?h1 + length rs" using rs(1) by (simp add: io_list_def)
    ultimately show ?thesis unfolding io_list_def by simp
  qed
  moreover have "map (request_pcb (io_heap ?s)) rs = ps"
    using d(3) next1(2) unfolding rs(3) by (metis (no_types, lifting) map_cong os.select_convs(3) os.surjective os.update_convs(3,4,5))
  ultimately have "remove_io_request s = Inr (Some p, ?s) \<and> io_items ?s ps \<and> io_only s ?s"
    unfolding io_items_def io_only_def by metis
  then show ?thesis by blast
qed

interpretation ioq: fifo_queue "submit_io_request t" remove_io_request io_items not_in_io
proof (unfold_locales, goal_cases)
  case (1 s xs x)
  then have x: "x < PROCESS_COUNT" "x \<notin> set xs" by (auto simp: not_in_io_def)
  from submit_ok[OF 1(1) x] obtain s' where "submit_io_request t s x = Inr s'" "io_items s' (xs @ [x])"
    by blast
  then show ?case using 1(1) not_in_io_eq by fastforce
next
  case (2 s)
  then show ?case by (rule remove_empty)
next
  case (3 s x xs)
  then show ?case using remove_ok by blast
qed

end
