(* ===== verification/Transitions.thy ===== *)
theory Transitions
  imports C_Prelude
begin

text \<open>
  Step relations, their invariants and termination, and simulations between them. What holds in the first state and is kept by every step holds
  in every state that can be reached.
\<close>

locale step_invariant =
  fixes step :: "'s \<Rightarrow> 's \<Rightarrow> bool" and inv :: "'s \<Rightarrow> bool"
  assumes keep: "inv x \<Longrightarrow> step x y \<Longrightarrow> inv y"
begin

lemma reachable: "step\<^sup>*\<^sup>* x y \<Longrightarrow> inv x \<Longrightarrow> inv y"
  by (induction rule: rtranclp_induct) (auto intro: keep)

end

text \<open>
  Steps that go down in a well-founded order: there is no infinite run, and every state has a run to one without a step.
\<close>

locale terminating = step_invariant step inv for step :: "'s \<Rightarrow> 's \<Rightarrow> bool" and inv :: "'s \<Rightarrow> bool" +
  fixes order :: "('s \<times> 's) set"
  assumes wf: "wf order" and decreases: "inv x \<Longrightarrow> step x y \<Longrightarrow> (y, x) \<in> order"
begin

lemma no_infinite_run: "inv (f 0) \<Longrightarrow> \<exists>i. \<not> step (f i) (f (Suc i))"
proof (rule ccontr)
  assume a: "inv (f 0)" "\<not> (\<exists>i. \<not> step (f i) (f (Suc i)))"
  have "inv (f i)" for i using a by (induction i) (auto intro: keep)
  then have "(f (Suc i), f i) \<in> order" for i using a(2) decreases by blast
  then show False using wf wf_iff_no_infinite_down_chain by blast
qed

lemma run_ends: "inv x \<Longrightarrow> \<exists>y. step\<^sup>*\<^sup>* x y \<and> (\<nexists>z. step y z)"
proof (induction x rule: wf_induct_rule[OF wf])
  case (1 x)
  show ?case
  proof (cases "\<exists>y. step x y")
    case True
    then obtain y where "step x y" by blast
    then show ?thesis using 1 decreases keep by (meson converse_rtranclp_into_rtranclp)
  qed blast
qed

end

text \<open>
  A simulation: with \<open>match\<close>, every concrete step is a sequence of abstract steps, possibly none. Then every
  concrete run has an abstract one.
\<close>

locale simulation =
  fixes abs_step :: "'a \<Rightarrow> 'a \<Rightarrow> bool" and step :: "'s \<Rightarrow> 's \<Rightarrow> bool" and match :: "'a \<Rightarrow> 's \<Rightarrow> bool"
  assumes simulates: "match a s \<Longrightarrow> step s s' \<Longrightarrow> \<exists>a'. abs_step\<^sup>*\<^sup>* a a' \<and> match a' s'"
begin

lemma run: "step\<^sup>*\<^sup>* s s' \<Longrightarrow> match a s \<Longrightarrow> \<exists>a'. abs_step\<^sup>*\<^sup>* a a' \<and> match a' s'"
proof (induction rule: rtranclp_induct)
  case base
  then show ?case by blast
next
  case (step y z)
  then show ?case using simulates by (meson rtranclp_trans)
qed

end

end
