(* ===== verification/Os_Inv.thy ===== *)
theory Os_Inv
  imports Os_Io Transitions
begin

text \<open>
  The invariant of the whole simulator, for every order in which its threads take their steps:
  pointers stay in the process table, program counters stay in their operation arrays, and
  the I/O queue holds exactly the processes that are at an I/O operation. With it no step of any
  thread can fail.
\<close>

subsection \<open>The scheduler keeps its pointers in range\<close>

definition in_range :: "nat option \<Rightarrow> bool" where
  "in_range x \<longleftrightarrow> (case x of None \<Rightarrow> True | Some p \<Rightarrow> p < PROCESS_COUNT)"

lemma in_range_simps [simp]: "in_range None" "in_range (Some p) \<longleftrightarrow> p < PROCESS_COUNT"
  by (simp_all add: in_range_def)

definition sched_range :: "sched \<Rightarrow> bool" where
  "sched_range s \<longleftrightarrow> in_range (ready_head s) \<and> in_range (ready_tail s)
     \<and> (\<forall>p < PROCESS_COUNT. in_range (os_next (tasks s p))) \<and> (\<forall>c. in_range (current s c))"

definition callback_range :: "callback_pc \<Rightarrow> bool" where
  "callback_range pc \<longleftrightarrow> (case pc of Preempt_Put p \<Rightarrow> p < PROCESS_COUNT | Install p \<Rightarrow> in_range p
     | Call_Switch p \<Rightarrow> in_range p | _ \<Rightarrow> True)"

text \<open>What the scheduler leaves alone: sizes, the time slice and the program counters of the processes.\<close>

definition sched_frame :: "sched \<Rightarrow> sched \<Rightarrow> bool" where
  "sched_frame s s' \<longleftrightarrow> cpus s' = cpus s \<and> time_slice s' = time_slice s
     \<and> (\<forall>p. os_pc (tasks s' p) = os_pc (tasks s p))"

definition sched_fine :: "sched \<Rightarrow> sched \<Rightarrow> bool" where
  "sched_fine s s' \<longleftrightarrow> sched_range s' \<and> sched_frame s s'"

lemma sched_fine_trans: "sched_fine a b \<Longrightarrow> sched_fine b c \<Longrightarrow> sched_fine a c"
  by (auto simp: sched_fine_def sched_frame_def)

lemma set_state_range:
  "sched_range s \<Longrightarrow> p < PROCESS_COUNT \<Longrightarrow> \<exists>s'. set_state s p st = Inr s' \<and> sched_fine s s'"
  by (auto simp: set_state_def get_task_def set_task_def sched_fine_def sched_frame_def sched_range_def)

lemma enqueue_range:
  assumes r: "sched_range s" and p: "p < PROCESS_COUNT"
  shows "\<exists>s'. enqueue_process s p = Inr s' \<and> sched_fine s s'"
proof (cases "ready_tail s")
  case None
  then show ?thesis
    using r p by (auto simp: enqueue_process_def get_task_def set_task_def sched_fine_def sched_frame_def sched_range_def)
next
  case (Some t)
  then have "t < PROCESS_COUNT" using r by (simp add: sched_range_def)
  then show ?thesis
    using Some r p
    by (auto simp: enqueue_process_def get_task_def set_task_def sched_fine_def sched_frame_def sched_range_def)
qed

lemma dequeue_range:
  assumes r: "sched_range s"
  shows "\<exists>p s'. dequeue_process s = Inr (p, s') \<and> in_range p \<and> sched_fine s s'"
proof (cases "ready_head s")
  case None
  then show ?thesis using r by (simp add: dequeue_process_def sched_fine_def sched_frame_def)
next
  case (Some h)
  then have h: "h < PROCESS_COUNT" "in_range (os_next (tasks s h))" using r by (simp_all add: sched_range_def)
  then show ?thesis
    using Some r
    by (auto simp: dequeue_process_def Let_def get_task_def set_task_def sched_fine_def sched_frame_def sched_range_def)
qed

lemma make_ready_range:
  assumes "sched_range s" "p < PROCESS_COUNT"
  shows "\<exists>s'. make_ready p s = Inr s' \<and> sched_fine s s'"
proof -
  obtain s1 where s1: "set_state s p PROCESS_READY = Inr s1" "sched_fine s s1"
    using set_state_range[OF assms] by blast
  then obtain s2 where "enqueue_process s1 p = Inr s2" "sched_fine s1 s2"
    using enqueue_range[of s1 p] assms(2) by (auto simp: sched_fine_def)
  with s1 show ?thesis using sched_fine_trans by (auto simp: make_ready_def)
qed

lemma set_current_range:
  "sched_range s \<Longrightarrow> c < cpus s \<Longrightarrow> in_range p \<Longrightarrow> \<exists>s'. set_current s c p = Inr s' \<and> sched_fine s s'"
  by (auto simp: set_current_def sched_fine_def sched_frame_def sched_range_def)

lemma retire_range:
  assumes "sched_range s" "c < cpus s"
  shows "\<exists>s'. retire_current st c s = Inr s' \<and> sched_fine s s'"
proof (cases "current s c")
  case None
  then show ?thesis using assms by (simp add: retire_current_def get_current_def sched_fine_def sched_frame_def)
next
  case (Some p)
  then have "p < PROCESS_COUNT" using assms(1) unfolding sched_range_def by (metis in_range_simps(2))
  then obtain s1 where s1: "set_state s p st = Inr s1" "sched_fine s s1"
    using set_state_range[OF assms(1)] by blast
  then obtain s2 where "set_current s1 c None = Inr s2" "sched_fine s1 s2"
    using set_current_range[of s1 c None] assms(2) by (auto simp: sched_fine_def sched_frame_def)
  with s1 Some assms(2) show ?thesis
    using sched_fine_trans by (auto simp: retire_current_def get_current_def)
qed

lemma callback_step_range:
  assumes r: "sched_range s" and c: "c < cpus s" and pc: "callback_range pc"
  shows "\<exists>pc' s'. callback_step c pc s = Inr (pc', s') \<and> callback_range pc' \<and> sched_fine s s'"
proof (cases pc)
  case Idle_Wait
  then show ?thesis using r by (simp add: callback_step_def callback_range_def sched_fine_def sched_frame_def)
next
  case Preempt_Take
  obtain s1 where s1: "set_current s c None = Inr s1" "sched_fine s s1" using set_current_range[OF r c, of None] by auto
  moreover have "in_range (current s c)" using r by (simp add: sched_range_def)
  ultimately show ?thesis
    using Preempt_Take c
    by (cases "current s c") (auto simp: callback_step_def take_current_def get_current_def callback_range_def)
next
  case (Preempt_Put p)
  then show ?thesis
    using make_ready_range[OF r, of p] pc by (auto simp: callback_step_def callback_range_def)
next
  case Yield_Mark
  then show ?thesis using retire_range[OF r c, of PROCESS_WAITING] by (auto simp: callback_step_def callback_range_def)
next
  case Terminate_Mark
  then show ?thesis using retire_range[OF r c, of PROCESS_TERMINATED] by (auto simp: callback_step_def callback_range_def)
next
  case Pick
  then show ?thesis using dequeue_range[OF r] by (auto simp: callback_step_def callback_range_def)
next
  case (Install p)
  then have p: "in_range p" using pc by (simp add: callback_range_def)
  obtain s1 where s1: "set_current s c p = Inr s1" "sched_fine s s1" using set_current_range[OF r c p] by blast
  show ?thesis
  proof (cases p)
    case None
    then show ?thesis using s1 Install by (simp add: callback_step_def install_next_def callback_range_def)
  next
    case (Some q)
    then obtain s2 where "set_state s1 q PROCESS_RUNNING = Inr s2" "sched_fine s1 s2"
      using set_state_range[of s1 q] s1(2) p by (auto simp: sched_fine_def)
    with s1 Some Install p show ?thesis
      using sched_fine_trans by (auto simp: callback_step_def install_next_def callback_range_def)
  qed
next
  case (Call_Switch p)
  then show ?thesis using r pc by (simp add: callback_step_def sched_fine_def sched_frame_def)
qed

subsection \<open>The invariant\<close>

definition op_now :: "os \<Rightarrow> nat \<Rightarrow> op_type" where
  "op_now s p = op_kind (operations s p ! os_pc (tasks (sch s) p))"

definition ops_ok :: "os \<Rightarrow> bool" where
  "ops_ok s \<longleftrightarrow> (\<forall>p < PROCESS_COUNT. alternating (operations s p)
     \<and> os_pc (tasks (sch s) p) < length (operations s p))"

definition io_ok :: "os \<Rightarrow> bool" where
  "io_ok s \<longleftrightarrow> (\<exists>ps. io_items s ps \<and> set ps = {p. p < PROCESS_COUNT \<and> op_now s p = OP_IO})"

definition thread_ok :: "cpu_pc \<Rightarrow> bool" where
  "thread_ok t \<longleftrightarrow> (case t of Lock_Writer pc \<Rightarrow> callback_range pc | In_Callback w pc \<Rightarrow> callback_range pc
     | Switch_Set w p \<Rightarrow> in_range p | _ \<Rightarrow> True)"

definition sup_ok :: "sup_pc \<Rightarrow> bool" where
  "sup_ok t \<longleftrightarrow> (case t of Sup_Lock io p \<Rightarrow> p < PROCESS_COUNT | Sup_Wake io p \<Rightarrow> p < PROCESS_COUNT | _ \<Rightarrow> True)"

definition os_inv :: "os \<Rightarrow> bool" where
  "os_inv s \<longleftrightarrow> sched_range (sch s) \<and> cpus (sch s) = cpu_count s \<and> ops_ok s \<and> io_ok s
     \<and> (\<forall>c. in_range (cd_current (cpu_data s c))) \<and> (\<forall>c. thread_ok (threads s c)) \<and> sup_ok (supervisor s)"

text \<open>The parts that the operations and the I/O queue make up.\<close>

definition work_ok :: "os \<Rightarrow> bool" where
  "work_ok s \<longleftrightarrow> ops_ok s \<and> io_ok s"

lemma os_inv_split:
  "os_inv s \<longleftrightarrow> sched_range (sch s) \<and> cpus (sch s) = cpu_count s \<and> work_ok s
     \<and> (\<forall>c. in_range (cd_current (cpu_data s c))) \<and> (\<forall>c. thread_ok (threads s c)) \<and> sup_ok (supervisor s)"
  by (auto simp: os_inv_def work_ok_def)

lemma work_ok_cong:
  assumes "operations s' = operations s" "\<And>p. os_pc (tasks (sch s') p) = os_pc (tasks (sch s) p)"
    and "io_heap s' = io_heap s" "io_queue_head s' = io_queue_head s" "io_queue_tail s' = io_queue_tail s"
  shows "work_ok s' = work_ok s"
  using assms io_items_cong[of s' s] by (simp add: work_ok_def ops_ok_def io_ok_def op_now_def)

lemma goto_simps [simp]:
  "sch (goto s c pc) = sch s" "operations (goto s c pc) = operations s" "cpu_data (goto s c pc) = cpu_data s"
  "cpu_count (goto s c pc) = cpu_count s" "supervisor (goto s c pc) = supervisor s"
  "threads (goto s c pc) = (threads s)(c := pc)"
  by (simp_all add: goto_def)

lemma sup_goto_simps [simp]:
  "sch (sup_goto s t) = sch s" "operations (sup_goto s t) = operations s" "cpu_data (sup_goto s t) = cpu_data s"
  "cpu_count (sup_goto s t) = cpu_count s" "supervisor (sup_goto s t) = t" "threads (sup_goto s t) = threads s"
  by (simp_all add: sup_goto_def)

lemma set_cpu_state_simps [simp]:
  "sch (set_cpu_state s c st) = sch s" "operations (set_cpu_state s c st) = operations s"
  "cpu_count (set_cpu_state s c st) = cpu_count s" "supervisor (set_cpu_state s c st) = supervisor s"
  "threads (set_cpu_state s c st) = threads s"
  "cd_current (cpu_data (set_cpu_state s c st) d) = cd_current (cpu_data s d)"
  by (simp_all add: set_cpu_state_def)

lemma work_ok_simps [simp]:
  "work_ok (goto s c pc) = work_ok s" "work_ok (sup_goto s t) = work_ok s"
  "work_ok (set_cpu_state s c st) = work_ok s"
  "work_ok (s\<lparr>writers := w\<rparr>) = work_ok s" "work_ok (s\<lparr>processes_terminated := n\<rparr>) = work_ok s"
  "work_ok (s\<lparr>context_switches := n\<rparr>) = work_ok s"
  "work_ok (s\<lparr>cpu_data := d\<rparr>) = work_ok s"
  "work_ok (s\<lparr>simulator_time := n\<rparr>) = work_ok s"
  "work_ok (s\<lparr>writers := w, processes_created := k\<rparr>) = work_ok s"
  by (rule work_ok_cong; simp add: goto_def sup_goto_def set_cpu_state_def)+

subsection \<open>CPU threads\<close>

text \<open>A CPU thread that moves keeps the invariant if what it has changed is in order.\<close>

lemma os_inv_thread:
  assumes "os_inv s" and "threads s' = (threads s)(c := t)" and "thread_ok t"
    and "sched_range (sch s')" "cpus (sch s') = cpu_count s'" "work_ok s'" "\<forall>d. in_range (cd_current (cpu_data s' d))"
    "sup_ok (supervisor s')"
  shows "os_inv s'"
  using assms by (simp add: os_inv_split)

lemma cpu_callback_ok:
  assumes inv: "os_inv s" and c: "c < cpu_count s" and live: "supervisor s \<noteq> Sup_Exit" and th: "threads s c = In_Callback w pc"
  shows "\<exists>r. cpu_step c s = Inr r \<and> (\<forall>s'. r = Some s' \<longrightarrow> os_inv s')"
proof -
  note I = inv[unfolded os_inv_split]
  have "thread_ok (threads s c)" using I by blast
  then have pc: "callback_range pc" using th by (simp add: thread_ok_def)
  show ?thesis
  proof (cases "\<exists>p. pc = Call_Switch p")
    case True
    then obtain p where p: "pc = Call_Switch p" by blast
    then have "in_range p" using pc by (simp add: callback_range_def)
    moreover from this have "os_inv (goto (s\<lparr>context_switches := context_switches s + 1, writers := writers s - 1\<rparr>) c (Switch_Set w p))"
      using I by (intro os_inv_thread[OF inv, of _ c "Switch_Set w p"]) (simp_all add: thread_ok_def)
    ultimately show ?thesis
      using th p live c by (auto simp: cpu_step_def os_context_switch_def in_range_def split: option.splits)
  next
    case False
    obtain pc' sc where st: "callback_step c pc (sch s) = Inr (pc', sc)" "callback_range pc'" "sched_fine (sch s) sc"
      using callback_step_range[of "sch s" c pc] I c pc by auto
    have "work_ok (s\<lparr>sch := sc\<rparr>) = work_ok s"
      using st(3) by (intro work_ok_cong) (simp_all add: sched_fine_def sched_frame_def)
    then have "os_inv (goto (s\<lparr>sch := sc\<rparr>) c (In_Callback w pc'))"
      using I st(2,3)
      by (intro os_inv_thread[OF inv, of _ c "In_Callback w pc'"]) (simp_all add: thread_ok_def sched_fine_def sched_frame_def)
    then show ?thesis using th live False st(1) by (cases pc) (simp_all add: cpu_step_def)
  qed
qed

lemma loop_top_inv:
  assumes inv: "os_inv s"
  shows "os_inv (loop_top c s)"
proof (cases "cd_current (cpu_data s c)")
  case None
  then show ?thesis
    using inv[unfolded os_inv_split]
    by (intro os_inv_thread[OF inv, of _ c "Dispatch CPU_IDLE"]) (auto simp: loop_top_def Let_def thread_ok_def sup_ok_def)
next
  case (Some p)
  then show ?thesis
    using inv[unfolded os_inv_split]
    by (intro os_inv_thread[OF inv, of _ c Blocked]) (auto simp: loop_top_def Let_def thread_ok_def sup_ok_def)
qed

lemma cpu_step_ok:
  assumes inv: "os_inv s" and c: "c < cpu_count s"
  shows "\<exists>r. cpu_step c s = Inr r \<and> (\<forall>s'. r = Some s' \<longrightarrow> os_inv s')"
proof (cases "supervisor s = Sup_Exit")
  case True
  then show ?thesis by (simp add: cpu_step_def)
next
  case False
  note I = inv[unfolded os_inv_split]
  have thr: "thread_ok (threads s c)" using I by blast
  have go: "os_inv (goto (s\<lparr>writers := k\<rparr>) c t)" "os_inv (goto s c t)" "os_inv (goto (s\<lparr>processes_terminated := n\<rparr>) c t)"
    if "thread_ok t" for k n t
    using I that by (auto intro!: os_inv_thread[OF inv, of _ c t])
  show ?thesis
  proof (cases "threads s c")
    case At_Loop
    then show ?thesis using loop_top_inv[OF inv] False by (simp add: cpu_step_def)
  next
    case (Dispatch st)
    then show ?thesis
      using False go(2,3) by (cases st) (auto simp: cpu_step_def dispatch_def thread_ok_def callback_range_def)
  next
    case (Lock_Writer pc)
    then show ?thesis using False thr go(1) by (simp add: cpu_step_def thread_ok_def)
  next
    case (In_Callback w pc)
    then show ?thesis by (rule cpu_callback_ok[OF inv c False])
  next
    case (Switch_Set w p)
    then have "in_range p" using thr by (simp add: thread_ok_def)
    then have "os_inv (goto (s\<lparr>cpu_data := (cpu_data s)(c := (cpu_data s c)\<lparr>cd_current := p,
        preemption_timer := time_slice (sch s)\<rparr>)\<rparr>) c (Switch_Lock w))"
      using I by (intro os_inv_thread[OF inv, of _ c "Switch_Lock w"]) (simp_all add: thread_ok_def)
    then show ?thesis using Switch_Set False by (simp add: cpu_step_def)
  qed (use False go in \<open>simp_all add: cpu_step_def thread_ok_def\<close>)
qed

subsection \<open>The supervisor\<close>

text \<open>Changing how much is left of an operation, or the remaining time, changes nothing else.\<close>

lemma update_task_ok:
  assumes "p < PROCESS_COUNT" and "sched_range (sch s)"
    and f: "\<And>t. os_next (f t) = os_next t"
  shows "update_task s p f = Inr (s\<lparr>sch := (sch s)\<lparr>tasks := (tasks (sch s))(p := f (tasks (sch s) p))\<rparr>\<rparr>)"
    and "sched_range ((sch s)\<lparr>tasks := (tasks (sch s))(p := f (tasks (sch s) p))\<rparr>)"
  using assms by (auto simp: update_task_def get_task_def set_task_def sched_range_def)

lemma ops_okD:
  "ops_ok s \<Longrightarrow> p < PROCESS_COUNT \<Longrightarrow>
    alternating (operations s p) \<and> os_pc (tasks (sch s) p) < length (operations s p)"
  by (simp add: ops_ok_def)

lemma op_now_at:
  "ops_ok s \<Longrightarrow> p < PROCESS_COUNT \<Longrightarrow>
    \<exists>op. op_at s p (os_pc (tasks (sch s) p)) = Inr op \<and> op = operations s p ! os_pc (tasks (sch s) p)
      \<and> op_now s p = op_kind op"
  using ops_okD[of s p] by (simp add: op_at_def op_now_def)

text \<open>Moving to the next operation of a process that is not at its last one.\<close>

lemma advance_ok:
  assumes "ops_ok s" and "sched_range (sch s)" and p: "p < PROCESS_COUNT" and "op_now s p \<noteq> OP_TERMINATE"
  shows "\<exists>op s'. advance s p = Inr (op, s') \<and> ops_ok s' \<and> sched_range (sch s') \<and> op_now s' p = op_kind op
    \<and> (op_now s p = OP_IO \<longrightarrow> op_kind op = OP_CPU) \<and> (op_now s p = OP_CPU \<longrightarrow> op_kind op \<noteq> OP_CPU)
    \<and> (\<forall>q. q \<noteq> p \<longrightarrow> op_now s' q = op_now s q) \<and> (\<exists>sc. s' = s\<lparr>sch := sc\<rparr> \<and> cpus sc = cpus (sch s))"
proof -
  let ?i = "os_pc (tasks (sch s) p)" and ?ops = "operations s p"
  have ok: "alternating ?ops" "?i < length ?ops" using ops_okD[OF assms(1) p] by simp_all
  have nxt: "Suc ?i < length ?ops" "op_now s p = OP_IO \<longrightarrow> op_kind (?ops ! Suc ?i) = OP_CPU"
    "op_now s p = OP_CPU \<longrightarrow> op_kind (?ops ! Suc ?i) \<noteq> OP_CPU"
    using alternating_Suc[OF ok] assms(4) by (simp_all add: op_now_def)
  let ?op = "?ops ! Suc ?i"
  let ?f = "\<lambda>t. t\<lparr>os_pc := os_pc t + 1, time_remaining := op_time ?op + 1\<rparr>"
  note u = update_task_ok[OF p assms(2), of ?f]
  let ?s = "s\<lparr>sch := (sch s)\<lparr>tasks := (tasks (sch s))(p := ?f (tasks (sch s) p))\<rparr>\<rparr>"
  have "advance s p = Inr (?op, ?s)"
    using u(1) p nxt(1) by (simp add: advance_def get_task_def op_at_def)
  moreover have "ops_ok ?s" using assms(1) nxt(1) by (auto simp: ops_ok_def)
  moreover have "sched_range (sch ?s)" using u(2) by simp
  moreover have "op_now ?s p = op_kind ?op" "\<forall>q. q \<noteq> p \<longrightarrow> op_now ?s q = op_now s q"
    by (simp_all add: op_now_def)
  moreover have "\<exists>sc. ?s = s\<lparr>sch := sc\<rparr> \<and> cpus sc = cpus (sch s)"
    by (intro exI[of _ "(sch s)\<lparr>tasks := (tasks (sch s))(p := ?f (tasks (sch s) p))\<rparr>"]) simp
  ultimately show ?thesis using nxt(2,3) by blast
qed

lemma io_items_sch [simp]: "io_items (s\<lparr>sch := sc\<rparr>) ps = io_items s ps"
  by (rule io_items_cong) simp_all

lemma raise_event_simps [simp]:
  "sch (raise_event s c st) = sch s" "operations (raise_event s c st) = operations s"
  "cpu_count (raise_event s c st) = cpu_count s" "supervisor (raise_event s c st) = Sup_Wait c"
  "threads (raise_event s c st) = threads s" "work_ok (raise_event s c st) = work_ok s"
  "cd_current (cpu_data (raise_event s c st) d) = cd_current (cpu_data s d)"
  by (simp_all add: raise_event_def)

text \<open>What the supervisor's work leaves alone.\<close>

definition sup_fine :: "os \<Rightarrow> os \<Rightarrow> bool" where
  "sup_fine s s' \<longleftrightarrow> sched_range (sch s') \<and> cpus (sch s') = cpus (sch s) \<and> work_ok s'
     \<and> (\<forall>d. cd_current (cpu_data s' d) = cd_current (cpu_data s d)) \<and> threads s' = threads s
     \<and> cpu_count s' = cpu_count s"

lemma sup_fine_goto: "sup_fine s s' \<Longrightarrow> sup_fine s (sup_goto s' t)"
  by (simp add: sup_fine_def)

lemma sup_fine_event: "sup_fine s s' \<Longrightarrow> sup_fine s (raise_event s' c st)"
  by (simp add: sup_fine_def)

lemma sup_fine_inv: "os_inv s \<Longrightarrow> sup_fine s s' \<Longrightarrow> sup_ok (supervisor s') \<Longrightarrow> os_inv s'"
  by (simp add: os_inv_split sup_fine_def)

lemma os_invD:
  assumes "os_inv s"
  shows "sched_range (sch s)" "cpus (sch s) = cpu_count s" "ops_ok s" "io_ok s" "in_range (cd_current (cpu_data s c))"
  using assms by (simp_all add: os_inv_def)

lemma sup_fine_refl: "os_inv s \<Longrightarrow> sup_fine s s"
  by (simp add: os_inv_split sup_fine_def)

lemma run_burst_ok:
  assumes inv: "os_inv s" and p: "p < PROCESS_COUNT" and op: "op = operations s p ! os_pc (tasks (sch s) p)"
  shows "\<exists>s'. run_burst c p op s = Inr s' \<and> os_inv s'"
proof -
  note I = os_invD[OF inv]
  let ?i = "os_pc (tasks (sch s) p)"
  let ?s1 = "s\<lparr>operations := (operations s)(p := (operations s p)[?i := op\<lparr>op_time := op_time op - 1\<rparr>])\<rparr>"
  note ok = ops_okD[OF I(3) p]
  have kinds: "op_now ?s1 q = op_now s q" for q using ok op by (simp add: op_now_def)
  have "ops_ok ?s1" using I(3) ok op alternating_update[of "operations s p" ?i] by (auto simp: ops_ok_def)
  moreover have "io_ok ?s1"
    using I(4) kinds io_items_cong[of ?s1 s] by (simp add: io_ok_def)
  ultimately have w1: "work_ok ?s1" by (simp add: work_ok_def)
  let ?f = "\<lambda>t. t\<lparr>time_remaining := op_time op - 1 + 1\<rparr>"
  have u: "update_task ?s1 p ?f = Inr (?s1\<lparr>sch := (sch s)\<lparr>tasks := (tasks (sch s))(p := ?f (tasks (sch s) p))\<rparr>\<rparr>)"
    "sched_range ((sch s)\<lparr>tasks := (tasks (sch s))(p := ?f (tasks (sch s) p))\<rparr>)"
    using update_task_ok[of p ?s1 ?f] p I(1) by simp_all
  let ?s2 = "?s1\<lparr>sch := (sch s)\<lparr>tasks := (tasks (sch s))(p := ?f (tasks (sch s) p))\<rparr>\<rparr>"
  have "work_ok ?s2 = work_ok ?s1" by (rule work_ok_cong) simp_all
  then have f2: "sup_fine s ?s2" using w1 u(2) by (simp add: sup_fine_def)
  let ?t = "preemption_timer (cpu_data ?s2 c) - 1"
  let ?s3 = "?s2\<lparr>cpu_data := (cpu_data ?s2)(c := (cpu_data ?s2 c)\<lparr>preemption_timer := ?t\<rparr>)\<rparr>"
  have f3: "sup_fine s ?s3" using f2 by (simp add: sup_fine_def)
  let ?s4 = "if ?t = 0 then raise_event ?s3 c CPU_PREEMPT else sup_goto ?s3 (Sup_Cpus (c + 1))"
  have "run_burst c p op s = Inr ?s4"
    unfolding run_burst_def Let_def using p u(1) by (simp add: get_task_def)
  moreover have "sup_fine s ?s4" using sup_fine_event[OF f3] sup_fine_goto[OF f3] by presburger
  moreover have "sup_ok (supervisor ?s4)" by (simp add: sup_ok_def)
  ultimately show ?thesis using sup_fine_inv[OF inv] by blast
qed

lemma end_burst_ok:
  assumes inv: "os_inv s" and p: "p < PROCESS_COUNT" and cpu: "op_now s p = OP_CPU"
  shows "\<exists>s'. end_burst c p s = Inr s' \<and> os_inv s'"
proof -
  note I = os_invD[OF inv]
  obtain op s1 sc where a: "advance s p = Inr (op, s1)" "ops_ok s1" "sched_range (sch s1)" "op_now s1 p = op_kind op"
    "op_kind op \<noteq> OP_CPU" "\<forall>q. q \<noteq> p \<longrightarrow> op_now s1 q = op_now s q" "s1 = s\<lparr>sch := sc\<rparr>" "cpus sc = cpus (sch s)"
    using advance_ok[OF I(3,1) p] cpu by auto
  obtain ps where ps: "io_items s ps" "set ps = {q. q < PROCESS_COUNT \<and> op_now s q = OP_IO}"
    using I(4) by (auto simp: io_ok_def)
  have notin: "p \<notin> set ps" using ps(2) cpu by simp
  have items1: "io_items s1 ps" using ps(1) a(7) by simp
  show ?thesis
  proof (cases "op_kind op")
    case OP_CPU
    then show ?thesis using a(5) by simp
  next
    case OP_IO
    obtain s2 where s2: "submit_io_request (op_time op) s1 p = Inr s2" "io_items s2 (ps @ [p])" "io_only s1 s2"
      using submit_ok[OF items1 p notin] by blast
    then have same: "sch s2 = sch s1" "operations s2 = operations s1" "cpu_data s2 = cpu_data s1"
      "threads s2 = threads s1" "cpu_count s2 = cpu_count s1" by (auto simp: io_only_def)
    then have now: "op_now s2 q = op_now s1 q" for q by (simp add: op_now_def)
    have "ops_ok s2" using a(2) same by (simp add: ops_ok_def)
    moreover have now2: "op_now s2 q = (if q = p then OP_IO else op_now s q)" for q
      using a(4,6) OP_IO now by simp
    have "set (ps @ [p]) = {q. q < PROCESS_COUNT \<and> op_now s2 q = OP_IO}"
      unfolding now2 using ps(2) p by auto
    then have "io_ok s2" using s2(2) unfolding io_ok_def by blast
    ultimately have "sup_fine s s2" using same a(3,7,8) by (simp add: sup_fine_def work_ok_def)
    then have "os_inv (raise_event s2 c CPU_YIELD)"
      by (intro sup_fine_inv[OF inv] sup_fine_event) (simp_all add: sup_ok_def)
    then show ?thesis using a(1) s2(1) OP_IO by (simp add: end_burst_def)
  next
    case OP_TERMINATE
    have now1: "op_now s1 q = (if q = p then OP_TERMINATE else op_now s q)" for q
      using a(4,6) OP_TERMINATE by simp
    have iff: "op_now s1 q = OP_IO \<longleftrightarrow> op_now s q = OP_IO" for q
      unfolding now1 using cpu by simp
    have "set ps = {q. q < PROCESS_COUNT \<and> op_now s1 q = OP_IO}" unfolding iff by (rule ps(2))
    then have "io_ok s1" using items1 unfolding io_ok_def by blast
    then have "sup_fine s s1" using a(2,3,7,8) by (simp add: sup_fine_def work_ok_def)
    then have "os_inv (raise_event s1 c CPU_TERMINATE)"
      by (intro sup_fine_inv[OF inv] sup_fine_event) (simp_all add: sup_ok_def)
    then show ?thesis using a(1) OP_TERMINATE by (simp add: end_burst_def)
  qed
qed

lemma simulate_process_ok:
  assumes inv: "os_inv s" and p: "p < PROCESS_COUNT"
  shows "\<exists>s'. simulate_process c p s = Inr s' \<and> os_inv s'"
proof -
  note I = os_invD[OF inv]
  obtain op where op: "op_at s p (os_pc (tasks (sch s) p)) = Inr op" "op = operations s p ! os_pc (tasks (sch s) p)"
    "op_now s p = op_kind op"
    using op_now_at[OF I(3) p] by blast
  have skip: "os_inv (sup_goto s (Sup_Cpus (c + 1)))"
    by (intro sup_fine_inv[OF inv] sup_fine_goto sup_fine_refl[OF inv]) (simp add: sup_ok_def)
  have get: "get_task (sch s) p = Inr (tasks (sch s) p)" using p by (simp add: get_task_def)
  show ?thesis
  proof (cases "op_kind op")
    case OP_CPU
    then show ?thesis
      unfolding simulate_process_def get bindE_Inr op(1)
      using run_burst_ok[OF inv p op(2), of c] end_burst_ok[OF inv p, of c] op(3) by auto
  next
    case OP_IO
    then show ?thesis unfolding simulate_process_def get bindE_Inr op(1) using skip by simp
  next
    case OP_TERMINATE
    then show ?thesis unfolding simulate_process_def get bindE_Inr op(1) using skip by simp
  qed
qed

lemma io_head_cell:
  assumes inv: "os_inv s" and head: "io_queue_head s = Some r"
  shows "\<exists>v. cells (io_heap s) r = Some v \<and> io_pcb v < PROCESS_COUNT \<and> op_now s (io_pcb v) = OP_IO"
proof -
  obtain ps rs where ps: "set ps = {q. q < PROCESS_COUNT \<and> op_now s q = OP_IO}"
    and rs: "io_list s rs" "ps = map (request_pcb (io_heap s)) rs"
    using os_invD(4)[OF inv] by (auto simp: io_ok_def io_items_def)
  have q: "fifo (request_next (io_heap s)) (Some r) (io_queue_tail s) rs" and dom: "dom (cells (io_heap s)) = set rs"
    using rs(1) head by (simp_all add: io_list_def)
  then obtain rs' where rs': "rs = r # rs'" by (cases rs) (auto simp: fifo_def)
  then obtain v where v: "cells (io_heap s) r = Some v" using dom by auto
  then have "io_pcb v \<in> set ps" using rs(2) rs' request_cell[OF v] by simp
  then show ?thesis using ps v by auto
qed

lemma simulate_io_ok:
  assumes inv: "os_inv s"
  shows "\<exists>p s'. simulate_io s = Inr (p, s') \<and> sup_fine s s' \<and> in_range p"
proof (cases "io_queue_head s")
  case None
  then show ?thesis using sup_fine_refl[OF inv] by (simp add: simulate_io_def)
next
  case (Some r)
  note I = os_invD[OF inv]
  obtain ps where ps: "io_items s ps" "set ps = {q. q < PROCESS_COUNT \<and> op_now s q = OP_IO}"
    using I(4) by (auto simp: io_ok_def)
  then obtain rs where rs: "io_list s rs" "ps = map (request_pcb (io_heap s)) rs" by (auto simp: io_items_def)
  let ?h = "io_heap s"
  have q: "fifo (request_next ?h) (Some r) (io_queue_tail s) rs" and dom: "dom (cells ?h) = set rs"
    using rs(1) Some by (simp_all add: io_list_def)
  then obtain rs' where rs': "rs = r # rs'" by (cases rs) (auto simp: fifo_def)
  then obtain v where v: "cells ?h r = Some v" using dom by auto
  define p where "p = io_pcb v"
  have pps: "ps = p # map (request_pcb ?h) rs'" using rs(2) rs' request_cell[OF v] by (simp add: p_def)
  then have p: "p < PROCESS_COUNT" "op_now s p = OP_IO" using ps(2) by auto
  let ?h1 = "?h\<lparr>cells := (cells ?h)(r \<mapsto> v\<lparr>execution_time := execution_time v - 1\<rparr>)\<rparr>"
  let ?s1 = "s\<lparr>io_heap := ?h1\<rparr>"
  have pcb: "request_next ?h1 = request_next ?h" "request_pcb ?h1 = request_pcb ?h"
    using v by (auto simp: request_next_def request_pcb_def fun_eq_iff)
  moreover have "dom (cells ?h1) = dom (cells ?h)" using v by auto
  moreover have "heap_ok ?h1" using rs(1) v by (intro heap_ok_store) (auto simp: io_list_def)
  ultimately have "io_list ?s1 rs" using rs(1) unfolding io_list_def by simp
  then have items1: "io_items ?s1 ps"
    using rs(2) pcb unfolding io_items_def by (intro exI[of _ rs] conjI) simp_all
  have now1: "op_now ?s1 x = op_now s x" for x by (simp add: op_now_def)
  have ok1: "ops_ok ?s1" using I(3) by (simp add: ops_ok_def)
  have head: "load ?h (Some r) = Inr v" "store ?h (Some r) (v\<lparr>execution_time := execution_time v - 1\<rparr>) = Inr ?h1"
    using v by simp_all
  show ?thesis
  proof (cases "execution_time v \<le> 0")
    case False
    have "set ps = {q. q < PROCESS_COUNT \<and> op_now ?s1 q = OP_IO}" unfolding now1 by (rule ps(2))
    then have "io_ok ?s1" using items1 unfolding io_ok_def by blast
    then have "sup_fine s ?s1" using I(1) ok1 by (simp add: sup_fine_def work_ok_def)
    moreover have "simulate_io s = Inr (None, ?s1)"
      unfolding simulate_io_def Some using head False by simp
    ultimately show ?thesis by simp
  next
    case True
    obtain op s2 sc where a: "advance ?s1 p = Inr (op, s2)" "ops_ok s2" "sched_range (sch s2)" "op_now s2 p = op_kind op"
      "op_kind op = OP_CPU" "\<forall>x. x \<noteq> p \<longrightarrow> op_now s2 x = op_now ?s1 x" "s2 = ?s1\<lparr>sch := sc\<rparr>" "cpus sc = cpus (sch ?s1)"
      using advance_ok[OF ok1 _ p(1)] I(1) p(2) now1 by auto
    have items2: "io_items s2 (p # map (request_pcb ?h) rs')" using items1 a(7) pps by simp
    obtain s3 where s3: "remove_io_request s2 = Inr (Some p, s3)" "io_items s3 (map (request_pcb ?h) rs')" "io_only s2 s3"
      using remove_ok[OF items2] by blast
    then have same: "sch s3 = sch s2" "operations s3 = operations s2" "cpu_data s3 = cpu_data s2"
      "threads s3 = threads s2" "cpu_count s3 = cpu_count s2" by (auto simp: io_only_def)
    then have now3: "op_now s3 x = op_now s2 x" for x by (simp add: op_now_def)
    have "distinct ps" using rs by (simp add: io_list_def)
    then have "set (map (request_pcb ?h) rs') = {x. x < PROCESS_COUNT \<and> op_now s x = OP_IO} - {p}"
      using ps(2) pps by auto
    moreover have after: "op_now s3 x = (if x = p then OP_CPU else op_now s x)" for x
      using a(4,5,6) now1 now3 by simp
    have "{x. x < PROCESS_COUNT \<and> op_now s x = OP_IO} - {p} = {x. x < PROCESS_COUNT \<and> op_now s3 x = OP_IO}"
      unfolding after by auto
    ultimately have "set (map (request_pcb ?h) rs') = {x. x < PROCESS_COUNT \<and> op_now s3 x = OP_IO}"
      by simp
    then have "io_ok s3" using s3(2) unfolding io_ok_def by blast
    moreover have "ops_ok s3" using a(2) same by (simp add: ops_ok_def)
    ultimately have "sup_fine s s3" using same a(3,7,8) by (simp add: sup_fine_def work_ok_def)
    moreover have "simulate_io s = Inr (Some p, s3)"
      unfolding simulate_io_def Some using head True a(1) s3(1) by (simp add: p_def)
    ultimately show ?thesis using p(1) by simp
  qed
qed

lemma gantt_line_fine: "os_inv s \<Longrightarrow> sup_fine s (gantt_line s)"
proof -
  assume inv: "os_inv s"
  have "work_ok (gantt_line s) = work_ok s" by (rule work_ok_cong) (simp_all add: gantt_line_def)
  then show ?thesis using inv by (simp add: os_inv_split sup_fine_def) (simp add: gantt_line_def)
qed

lemma sup_step_ok:
  assumes inv: "os_inv s"
  shows "\<exists>r. sup_step s = Inr r \<and> (\<forall>s'. r = Some s' \<longrightarrow> os_inv s')"
proof -
  note I = os_invD[OF inv]
  have step: "os_inv (sup_goto s' t)" if "sup_fine s s'" "sup_ok t" for s' t
    using that by (intro sup_fine_inv[OF inv] sup_fine_goto) simp_all
  have here: "os_inv (sup_goto s t)" if "sup_ok t" for t using step[OF sup_fine_refl[OF inv] that] .
  have w: "sup_fine s (s\<lparr>writers := k\<rparr>)" "sup_fine s (s\<lparr>simulator_time := n\<rparr>)"
    "sup_fine s (s\<lparr>writers := k, processes_created := m\<rparr>)" for k n m
    using sup_fine_refl[OF inv] by (simp_all add: sup_fine_def)
  have sup: "sup_ok (supervisor s)" using inv by (simp add: os_inv_def)
  show ?thesis
  proof (cases "supervisor s")
    case (Sup_Cpus n)
    show ?thesis
    proof (cases "n < cpu_count s")
      case False
      then show ?thesis using Sup_Cpus here[of Sup_Io] by (simp add: sup_step_def simulate_cpu_def sup_ok_def)
    next
      case True
      show ?thesis
      proof (cases "cd_current (cpu_data s n)")
        case None
        then show ?thesis
          using True Sup_Cpus here[of "Sup_Cpus (n + 1)"] by (simp add: sup_step_def simulate_cpu_def sup_ok_def)
      next
        case (Some p)
        then have "p < PROCESS_COUNT" using I(5)[of n] by simp
        from simulate_process_ok[OF inv this, of n] show ?thesis
          using Some True Sup_Cpus by (auto simp: sup_step_def simulate_cpu_def)
      qed
    qed
  next
    case Sup_Io
    obtain p s1 where "simulate_io s = Inr (p, s1)" "sup_fine s s1" "in_range p"
      using simulate_io_ok[OF inv] by blast
    then show ?thesis
      using Sup_Io step[of s1] by (cases p) (simp_all add: sup_step_def sup_ok_def)
  next
    case Sup_Gantt
    then show ?thesis using step[OF gantt_line_fine[OF inv], of "Sup_Cpus 0"] by (simp add: sup_step_def sup_ok_def)
  next
    case (Sup_Lock io p)
    then have "sup_ok (Sup_Wake io p)" using sup by (simp add: sup_ok_def)
    then show ?thesis using Sup_Lock step[OF w(1)] by (simp add: sup_step_def)
  next
    case (Sup_Wake io p)
    then have p: "p < PROCESS_COUNT" using sup by (simp add: sup_ok_def)
    obtain sc where sc: "wake_up p (sch s) = Inr sc" "sched_fine (sch s) sc"
      using make_ready_range[OF I(1) p] by (auto simp: wake_up_def)
    have "work_ok (s\<lparr>sch := sc\<rparr>) = work_ok s"
      using sc(2) by (intro work_ok_cong) (simp_all add: sched_fine_def sched_frame_def)
    then have "sup_fine s (s\<lparr>sch := sc\<rparr>)"
      using sc(2) sup_fine_refl[OF inv] by (simp add: sup_fine_def sched_fine_def sched_frame_def)
    then show ?thesis using Sup_Wake sc(1) step[of _ "Sup_Unlock io"] by (simp add: sup_step_def lift_sched_def sup_ok_def)
  next
    case (Sup_Unlock io)
    then show ?thesis
      using step[OF w(1), of Sup_Creat] step[OF w(3), of Sup_Tick] by (simp add: sup_step_def sup_ok_def)
  next
    case Sup_Tick
    then show ?thesis using step[OF w(2), of Sup_Loop] by (simp add: sup_step_def sup_ok_def)
  qed (use here in \<open>auto simp: sup_step_def sup_ok_def\<close>)
qed

lemma thread_step_ok: "os_inv s \<Longrightarrow> \<exists>r. thread_step t s = Inr r \<and> (\<forall>s'. r = Some s' \<longrightarrow> os_inv s')"
  using cpu_step_ok sup_step_ok by (cases t) (auto simp: thread_step_def)

lemma os_step_inv:
  assumes "os_inv x" and "os_step x y"
  shows "os_inv y"
proof -
  from assms(2) obtain t where "thread_step t x = Inr (Some y)" by (auto elim: os_stepE)
  with thread_step_ok[OF assms(1), of t] show ?thesis by auto
qed

interpretation work: step_invariant os_step os_inv
  by unfold_locales (rule os_step_inv)

text \<open>The state in which the simulator starts.\<close>

lemma start_inv:
  assumes "start_simulator (init_sched n q) (unat n) room = Inr s" and "PROCESS_COUNT \<le> room"
  shows "os_inv s"
proof -
  have s: "sch s = init_sched n q" "operations s = initial_operations" "cpu_count s = unat n"
    "io_heap s = \<lparr>cells = (\<lambda>_. None), brk = 0, avail = room\<rparr>" "io_queue_head s = None" "io_queue_tail s = None"
    "cpu_data s = (\<lambda>_. \<lparr>cd_current = None, cd_state = CPU_IDLE, preemption_timer = -1\<rparr>)"
    "threads s = (\<lambda>_. At_Loop)" "supervisor s = Sup_Loop"
    using assms(1) by (auto simp: start_simulator_def)
  have tab: "os_next (initial_process p) = None \<and> os_pc (initial_process p) = 0" if "p < PROCESS_COUNT" for p
    using process_table_new[OF that] by simp
  have alt: "alternating (initial_operations p)" if "p < PROCESS_COUNT" for p
    using operations_alternate that tables_length(2) by (simp add: initial_operations_def)
  have now: "op_now s p = OP_CPU" if "p < PROCESS_COUNT" for p
    using alternating_0[OF alt[OF that]] tab[OF that] s by (simp add: op_now_def init_sched_def)
  have "ops_ok s" using alt tab alternating_0 s by (simp add: ops_ok_def init_sched_def)
  moreover have "io_items s []"
    using s assms(2) by (simp add: io_items_def io_list_def fifo_def heap_ok_def)
  moreover have "set [] = {p. p < PROCESS_COUNT \<and> op_now s p = OP_IO}" using now by auto
  ultimately have "ops_ok s" "io_ok s" unfolding io_ok_def by blast+
  moreover have "sched_range (sch s)" using tab s by (simp add: sched_range_def init_sched_def)
  ultimately show ?thesis
    using s by (simp add: os_inv_def thread_ok_def sup_ok_def init_sched_def)
qed

end
