(* ===== verification/Os_Effects.thy ===== *)
theory Os_Effects
  imports Os_Inv
begin

text \<open>
  What one step of a thread can change, in a form that the invariants of the simulator share: the
  work of the supervisor is quiet for the CPU threads except for the event it may raise at its end, and its
  share of the lock.
\<close>

subsection \<open>Quiet changes\<close>

definition quiet :: "os \<Rightarrow> os \<Rightarrow> bool" where
  "quiet s s' \<longleftrightarrow> threads s' = threads s \<and> cpu_count s' = cpu_count s \<and> writers s' = writers s
     \<and> time_slice (sch s') = time_slice (sch s)
     \<and> (\<forall>d. cd_state (cpu_data s' d) = cd_state (cpu_data s d)
          \<and> cd_current (cpu_data s' d) = cd_current (cpu_data s d)
          \<and> preemption_timer (cpu_data s' d) \<le> preemption_timer (cpu_data s d))"

lemma quiet_refl [simp]: "quiet s s"
  by (simp add: quiet_def)

lemma quiet_trans: "quiet s s1 \<Longrightarrow> quiet s1 s2 \<Longrightarrow> quiet s s2"
  by (auto simp: quiet_def intro: order_trans)

lemma quiet_sch: "time_slice sc = time_slice (sch s) \<Longrightarrow> quiet s (s\<lparr>sch := sc\<rparr>)"
  by (simp add: quiet_def)

lemma quiet_io: "io_only s s' \<Longrightarrow> quiet s s'"
  by (auto simp: io_only_def quiet_def)

lemma set_task_slice: "set_task s p t = Inr s' \<Longrightarrow> time_slice s' = time_slice s"
  by (auto simp: set_task_def split: if_splits)

lemma set_state_slice: "set_state s p st = Inr s' \<Longrightarrow> time_slice s' = time_slice s"
  by (auto simp: set_state_def dest: set_task_slice)

lemma enqueue_slice: "enqueue_process s p = Inr s' \<Longrightarrow> time_slice s' = time_slice s"
  by (auto simp: enqueue_process_def dest!: set_task_slice split: option.splits)

lemma make_ready_slice: "make_ready p s = Inr s' \<Longrightarrow> time_slice s' = time_slice s"
  by (auto simp: make_ready_def dest!: set_state_slice enqueue_slice)

lemma update_task_quiet: "update_task s p f = Inr s' \<Longrightarrow> quiet s s'"
  by (auto simp: update_task_def intro: quiet_sch dest: set_task_slice)

lemma advance_quiet: "advance s p = Inr (op, s') \<Longrightarrow> quiet s s'"
  by (auto simp: advance_def dest: update_task_quiet)

lemma submit_quiet: "submit_io_request t s p = Inr s' \<Longrightarrow> quiet s s'"
  by (auto simp: submit_io_request_def quiet_def split: option.splits if_splits)

lemma remove_quiet: "remove_io_request s = Inr (p, s') \<Longrightarrow> quiet s s'"
  by (auto simp: remove_io_request_def quiet_def Let_def split: option.splits)

lemma simulate_io_quiet: "simulate_io s = Inr (p, s') \<Longrightarrow> quiet s s'"
proof -
  assume "simulate_io s = Inr (p, s')"
  moreover have "quiet s (s\<lparr>io_heap := h\<rparr>)" for h by (simp add: quiet_def)
  ultimately show ?thesis
    by (auto simp: simulate_io_def Let_def split: if_splits dest!: advance_quiet remove_quiet intro: quiet_trans)
qed

subsection \<open>The supervisor\<close>

text \<open>A CPU step of the supervisor ends by raising an event or by moving on.\<close>

definition event_for :: "os \<Rightarrow> nat \<Rightarrow> simulator_cpu_state_t \<Rightarrow> bool" where
  "event_for s c st \<longleftrightarrow> st \<in> {CPU_YIELD, CPU_TERMINATE} \<or> st = CPU_PREEMPT \<and> preemption_timer (cpu_data s c) = 1"

definition burst_result :: "nat \<Rightarrow> os \<Rightarrow> os \<Rightarrow> bool" where
  "burst_result c s s' \<longleftrightarrow> (\<exists>s1. quiet s s1 \<and>
     ((\<exists>st. event_for s c st \<and> s' = raise_event s1 c st) \<or> s' = sup_goto s1 (Sup_Cpus (c + 1))))"

lemma run_burst_result:
  assumes "run_burst c p op s = Inr s'"
  shows "burst_result c s s'"
proof -
  obtain t where t: "get_task (sch s) p = Inr t" using assms by (auto simp: run_burst_def)
  let ?s1 = "s\<lparr>operations := (operations s)(p := (operations s p)[os_pc t := op\<lparr>op_time := op_time op - 1\<rparr>])\<rparr>"
  obtain s2 where s2: "update_task ?s1 p (\<lambda>t. t\<lparr>time_remaining := op_time op - 1 + 1\<rparr>) = Inr s2"
    using assms t by (auto simp: run_burst_def Let_def)
  have q1: "quiet s s2" using update_task_quiet[OF s2] by (simp add: quiet_def)
  let ?t = "preemption_timer (cpu_data s2 c) - 1"
  let ?s3 = "s2\<lparr>cpu_data := (cpu_data s2)(c := (cpu_data s2 c)\<lparr>preemption_timer := ?t\<rparr>)\<rparr>"
  have q3: "quiet s ?s3" using q1 by (rule quiet_trans) (simp add: quiet_def)
  have timer: "preemption_timer (cpu_data s2 c) = preemption_timer (cpu_data s c)"
    using s2 by (auto simp: update_task_def)
  have "s' = (if ?t = 0 then raise_event ?s3 c CPU_PREEMPT else sup_goto ?s3 (Sup_Cpus (c + 1)))"
    using assms t s2 by (auto simp: run_burst_def Let_def)
  then show ?thesis using q3 timer by (auto simp: burst_result_def event_for_def split: if_splits)
qed

lemma end_burst_result:
  assumes "end_burst c p s = Inr s'"
  shows "burst_result c s s'"
proof -
  obtain op s1 where a: "advance s p = Inr (op, s1)" using assms by (auto simp: end_burst_def)
  note q = advance_quiet[OF a]
  show ?thesis
  proof (cases "op_kind op")
    case OP_IO
    then obtain s2 where "submit_io_request (op_time op) s1 p = Inr s2" "s' = raise_event s2 c CPU_YIELD"
      using assms a by (auto simp: end_burst_def)
    with q show ?thesis using submit_quiet quiet_trans by (fastforce simp: burst_result_def event_for_def)
  qed (use assms a q in \<open>auto simp: end_burst_def burst_result_def event_for_def\<close>)
qed

lemma simulate_process_result: "simulate_process c p s = Inr s' \<Longrightarrow> burst_result c s s'"
proof -
  assume s': "simulate_process c p s = Inr s'"
  then obtain t op where "get_task (sch s) p = Inr t" "op_at s p (os_pc t) = Inr op"
    unfolding simulate_process_def bindE_eq_Inr by blast
  then have op: "(case op_kind op of
      OP_CPU \<Rightarrow> if op_time op > 0 then run_burst c p op s else end_burst c p s
    | _ \<Rightarrow> Inr (sup_goto s (Sup_Cpus (c + 1)))) = Inr s'"
    using s' by (simp add: simulate_process_def split: op_type.splits)
  have "burst_result c s (sup_goto s (Sup_Cpus (c + 1)))" unfolding burst_result_def by (intro exI[of _ s]) simp
  then show ?thesis
    using op by (auto intro: run_burst_result end_burst_result split: op_type.splits if_splits)
qed

text \<open>The number of times the supervisor holds the lock as a writer.\<close>

definition sup_share :: "sup_pc \<Rightarrow> int" where
  "sup_share t = (case t of Sup_Wake _ _ \<Rightarrow> 1 | Sup_Unlock _ \<Rightarrow> 1 | _ \<Rightarrow> 0)"

definition sup_moves :: "os \<Rightarrow> os \<Rightarrow> bool" where
  "sup_moves s s' \<longleftrightarrow> (\<exists>s1 t. quiet s s1 \<and> (\<forall>c. t \<noteq> Sup_Wait c) \<and>
     s' = sup_goto (s1\<lparr>writers := writers s + sup_share t - sup_share (supervisor s)\<rparr>) t)"

definition sup_raises :: "os \<Rightarrow> os \<Rightarrow> bool" where
  "sup_raises s s' \<longleftrightarrow> (\<exists>s1 c st. quiet s s1 \<and> supervisor s = Sup_Cpus c \<and> c < cpu_count s \<and>
     cd_current (cpu_data s c) \<noteq> None \<and> event_for s c st \<and> s' = raise_event s1 c st)"

lemma sup_movesI:
  assumes "quiet s s1" and "\<And>c. t \<noteq> Sup_Wait c" and "sup_share t = sup_share (supervisor s)"
  shows "sup_moves s (sup_goto s1 t)"
proof -
  have "s1\<lparr>writers := writers s + sup_share t - sup_share (supervisor s)\<rparr> = s1"
    using assms(1,3) by (simp add: quiet_def)
  then show ?thesis using assms(1,2) unfolding sup_moves_def by metis
qed

lemma sup_step_effect:
  assumes "sup_step s = Inr (Some s')"
  shows "sup_moves s s' \<or> sup_raises s s'" and "supervisor s \<noteq> Sup_Wait c"
proof -
  show "supervisor s \<noteq> Sup_Wait c" using assms by (auto simp: sup_step_def)
  have go: "sup_moves s (sup_goto s t)" if "\<And>c. t \<noteq> Sup_Wait c" "sup_share t = sup_share (supervisor s)" for t
    using sup_movesI[OF quiet_refl that] .
  have lock: "sup_moves s (sup_goto (s1\<lparr>writers := w\<rparr>) t)"
    if "quiet s s1" "\<And>c. t \<noteq> Sup_Wait c" "w = writers s + sup_share t - sup_share (supervisor s)" for s1 t w
    using that unfolding sup_moves_def by blast
  show "sup_moves s s' \<or> sup_raises s s'"
  proof (cases "supervisor s")
    case Sup_Gantt
    have "quiet s (gantt_line s)" by (simp add: gantt_line_def quiet_def)
    from sup_movesI[OF this, of "Sup_Cpus 0"] show ?thesis
      using assms Sup_Gantt by (simp add: sup_step_def sup_share_def split: if_splits)
  next
    case (Sup_Cpus n)
    then have st: "simulate_cpu n s = Inr s'" using assms by (simp add: sup_step_def)
    show ?thesis
    proof (cases "n < cpu_count s \<and> cd_current (cpu_data s n) \<noteq> None")
      case True
      then obtain p where "simulate_process n p s = Inr s'" using st by (auto simp: simulate_cpu_def)
      from simulate_process_result[OF this] obtain s1 where s1: "quiet s s1"
        "(\<exists>st. event_for s n st \<and> s' = raise_event s1 n st) \<or> s' = sup_goto s1 (Sup_Cpus (n + 1))"
        by (auto simp: burst_result_def)
      then show ?thesis
        using sup_movesI[OF s1(1), of "Sup_Cpus (n + 1)"] True Sup_Cpus
        by (auto simp: sup_raises_def sup_share_def)
    next
      case False
      then show ?thesis
        using st go[of "Sup_Cpus (n + 1)"] go[of Sup_Io] Sup_Cpus
        by (auto simp: simulate_cpu_def sup_share_def split: if_splits)
    qed
  next
    case Sup_Io
    then obtain p s1 where s1: "simulate_io s = Inr (p, s1)" "s' = sup_goto s1 (case p of None \<Rightarrow> Sup_Creat | Some p \<Rightarrow> Sup_Lock True p)"
      using assms by (auto simp: sup_step_def)
    show ?thesis
      using sup_movesI[OF simulate_io_quiet[OF s1(1)]] s1(2) Sup_Io by (cases p) (simp_all add: sup_share_def)
  next
    case (Sup_Wake io p)
    then obtain sc where sc: "wake_up p (sch s) = Inr sc" "s' = sup_goto (s\<lparr>sch := sc\<rparr>) (Sup_Unlock io)"
      using assms by (auto simp: sup_step_def lift_sched_def)
    have "quiet s (s\<lparr>sch := sc\<rparr>)" using sc(1) make_ready_slice by (intro quiet_sch) (simp add: wake_up_def)
    from sup_movesI[OF this, of "Sup_Unlock io"] show ?thesis using sc(2) Sup_Wake by (simp add: sup_share_def)
  next
    case (Sup_Unlock io)
    have "quiet s (s\<lparr>processes_created := k\<rparr>)" for k by (simp add: quiet_def)
    then have "sup_moves s (sup_goto ((s\<lparr>processes_created := k\<rparr>)\<lparr>writers := writers s - 1\<rparr>) Sup_Tick)" for k
      using lock[of "s\<lparr>processes_created := k\<rparr>" Sup_Tick "writers s - 1"] Sup_Unlock by (simp add: sup_share_def)
    moreover have "(s\<lparr>processes_created := k\<rparr>)\<lparr>writers := w\<rparr> = s\<lparr>writers := w, processes_created := k\<rparr>" for w k by simp
    ultimately have "sup_moves s (sup_goto (s\<lparr>writers := writers s - 1, processes_created := k\<rparr>) Sup_Tick)" for k
      by metis
    then show ?thesis
      using assms lock[OF quiet_refl, of Sup_Creat] Sup_Unlock by (auto simp: sup_step_def sup_share_def)
  next
    case Sup_Tick
    have "quiet s (s\<lparr>simulator_time := k\<rparr>)" for k by (simp add: quiet_def)
    from sup_movesI[OF this, of Sup_Loop] show ?thesis using assms Sup_Tick by (auto simp: sup_step_def sup_share_def)
  next
    case (Sup_Lock io p)
    then show ?thesis using assms lock[OF quiet_refl, of "Sup_Wake io p"] by (auto simp: sup_step_def sup_share_def)
  qed (use assms go in \<open>auto simp: sup_step_def sup_share_def\<close>)
qed

subsection \<open>CPU threads\<close>

text \<open>A CPU thread has an event to handle, or handles it.\<close>

definition in_event :: "os \<Rightarrow> nat \<Rightarrow> bool" where
  "in_event s c \<longleftrightarrow> (case threads s c of
     At_Loop \<Rightarrow> False
   | Blocked \<Rightarrow> cd_state (cpu_data s c) \<noteq> CPU_RUNNING
   | Dispatch st \<Rightarrow> st \<in> {CPU_PREEMPT, CPU_YIELD, CPU_TERMINATE}
   | Lock_Writer pc \<Rightarrow> True
   | In_Callback w pc \<Rightarrow> w
   | Switch_Set w p \<Rightarrow> w
   | Switch_Lock w \<Rightarrow> w
   | Unlock_Writer \<Rightarrow> True)"

text \<open>It has been told to preempt its process, and has not yet taken the process off the CPU.\<close>

definition preempt_pc :: "callback_pc \<Rightarrow> bool" where
  "preempt_pc pc \<longleftrightarrow> (case pc of Preempt_Take \<Rightarrow> True | Preempt_Put p \<Rightarrow> True | _ \<Rightarrow> False)"

definition preempting :: "os \<Rightarrow> nat \<Rightarrow> bool" where
  "preempting s c \<longleftrightarrow> cd_state (cpu_data s c) = CPU_PREEMPT \<or> (case threads s c of
     Dispatch st \<Rightarrow> st = CPU_PREEMPT
   | Lock_Writer pc \<Rightarrow> preempt_pc pc
   | In_Callback w pc \<Rightarrow> preempt_pc pc
   | _ \<Rightarrow> False)"

text \<open>
  What a CPU thread adds to the count of writers. \<open>context_switch\<close> gives the lock back and takes it
  again, also for \<open>idle\<close>, which does not hold it.
\<close>

definition lock_share :: "cpu_pc \<Rightarrow> int" where
  "lock_share t = (case t of In_Callback w pc \<Rightarrow> if w then 1 else 0 | Switch_Set w p \<Rightarrow> if w then 0 else -1
     | Switch_Lock w \<Rightarrow> if w then 0 else -1 | Unlock_Writer \<Rightarrow> 1 | _ \<Rightarrow> 0)"

definition cpu_effect :: "nat \<Rightarrow> os \<Rightarrow> os \<Rightarrow> bool" where
  "cpu_effect c s s' \<longleftrightarrow> cpu_count s' = cpu_count s \<and> time_slice (sch s') = time_slice (sch s)
     \<and> (\<forall>d. d \<noteq> c \<longrightarrow> threads s' d = threads s d \<and> cpu_data s' d = cpu_data s d)
     \<and> writers s' - lock_share (threads s' c) = writers s - lock_share (threads s c)
     \<and> (in_event s' c \<longrightarrow> in_event s c) \<and> (preempting s' c \<longrightarrow> preempting s c)
     \<and> (preemption_timer (cpu_data s' c) = preemption_timer (cpu_data s c)
        \<or> preemption_timer (cpu_data s' c) = time_slice (sch s))
     \<and> (supervisor s' = supervisor s
        \<or> threads s c = At_Loop \<and> supervisor s = Sup_Wait c \<and> supervisor s' = Sup_Woken c \<and> \<not> in_event s' c)"

lemmas cpu_effect_simps = cpu_effect_def in_event_def preempting_def lock_share_def preempt_pc_def

lemma callback_step_slice:
  assumes "callback_step c pc s = Inr (pc', s')"
  shows "time_slice s' = time_slice s \<and> (preempt_pc pc' \<longrightarrow> preempt_pc pc)"
  using assms
  by (cases pc)
    (auto simp: callback_step_def preempt_pc_def take_current_def get_current_def set_current_def retire_current_def
      install_next_def dequeue_process_def Let_def get_task_def set_task_def set_state_def
      dest!: make_ready_slice split: option.splits if_splits)

lemma cpu_step_effect:
  assumes "cpu_step c s = Inr (Some s')"
  shows "cpu_effect c s s'"
proof -
  have live: "supervisor s \<noteq> Sup_Exit" using assms by (auto simp: cpu_step_def)
  show ?thesis
  proof (cases "threads s c")
    case At_Loop
    then have "s' = loop_top c s" using assms live by (simp add: cpu_step_def split: if_splits)
    then show ?thesis
      using At_Loop by (auto simp: cpu_effect_simps loop_top_def Let_def goto_def set_cpu_state_def sup_goto_def)
  next
    case Blocked
    then have "s' = goto s c (Dispatch (cd_state (cpu_data s c)))" "cd_state (cpu_data s c) \<noteq> CPU_RUNNING"
      using assms live by (simp_all add: cpu_step_def split: if_splits)
    then show ?thesis using Blocked by (auto simp: cpu_effect_simps goto_def)
  next
    case (Dispatch st)
    then have "dispatch c st s = Some s'" using assms live by (simp add: cpu_step_def)
    then show ?thesis
      using Dispatch by (cases st) (auto simp: cpu_effect_simps dispatch_def goto_def split: if_splits)
  next
    case (Lock_Writer pc)
    then have "s' = goto (s\<lparr>writers := writers s + 1\<rparr>) c (In_Callback True pc)" using assms live by (simp add: cpu_step_def)
    then show ?thesis using Lock_Writer by (auto simp: cpu_effect_simps goto_def)
  next
    case (In_Callback w pc)
    show ?thesis
    proof (cases "\<exists>p. pc = Call_Switch p")
      case True
      then obtain p where "pc = Call_Switch p" by blast
      then show ?thesis
        using assms live In_Callback by (auto simp: cpu_effect_simps cpu_step_def os_context_switch_def goto_def)
    next
      case False
      then obtain pc' sc where st: "callback_step c pc (sch s) = Inr (pc', sc)"
        "s' = goto (s\<lparr>sch := sc\<rparr>) c (In_Callback w pc')"
        using assms live In_Callback by (cases pc) (auto simp: cpu_step_def)
      from callback_step_slice[OF st(1)] show ?thesis
        using st(2) In_Callback by (auto simp: cpu_effect_def in_event_def preempting_def lock_share_def goto_def)
    qed
  qed (use assms live in \<open>auto simp: cpu_effect_simps cpu_step_def goto_def split: if_splits\<close>)
qed

end
