(* ===== verification/Os_Work.thy ===== *)
theory Os_Work
  imports Os_Effects
begin

text \<open>
  The CPU time the processes still need: it goes down by one exactly when the supervisor simulates an
  interval of a CPU burst, and nothing else changes it.
\<close>

subsection \<open>What is left to execute\<close>

text \<open>A burst of \<open>t\<close> intervals takes \<open>t + 1\<close>: in the last one the process moves to its next operation.\<close>

definition burst_cost :: "op_t \<Rightarrow> nat" where
  "burst_cost op = (if op_kind op = OP_CPU then unat (op_time op) + 1 else 0)"

definition cpu_left :: "os \<Rightarrow> nat \<Rightarrow> nat" where
  "cpu_left s p = (\<Sum>op \<leftarrow> drop (os_pc (tasks (sch s) p)) (operations s p). burst_cost op)"

definition total_left :: "os \<Rightarrow> nat" where
  "total_left s = (\<Sum>p < PROCESS_COUNT. cpu_left s p)"

text \<open>The supervisor is about to simulate an interval of a CPU burst.\<close>

definition executes :: "os \<Rightarrow> bool" where
  "executes s \<longleftrightarrow> (case supervisor s of
     Sup_Cpus c \<Rightarrow> c < cpu_count s \<and>
       (case cd_current (cpu_data s c) of None \<Rightarrow> False | Some p \<Rightarrow> op_now s p = OP_CPU)
   | _ \<Rightarrow> False)"

definition same_ops :: "os \<Rightarrow> os \<Rightarrow> bool" where
  "same_ops s s' \<longleftrightarrow> operations s' = operations s \<and> (\<forall>p. os_pc (tasks (sch s') p) = os_pc (tasks (sch s) p))"

lemma same_ops_left: "same_ops s s' \<Longrightarrow> total_left s' = total_left s"
  by (simp add: same_ops_def total_left_def cpu_left_def)

lemma same_ops_sch: "sched_fine (sch s) sc \<Longrightarrow> same_ops s (s\<lparr>sch := sc\<rparr>)"
  by (simp add: same_ops_def sched_fine_def sched_frame_def)

lemma same_ops_simps [simp]:
  "same_ops s s" "same_ops s (goto s' c pc) = same_ops s s'" "same_ops s (sup_goto s' t) = same_ops s s'"
  "same_ops s (set_cpu_state s' c st) = same_ops s s'" "same_ops s (raise_event s' c st) = same_ops s s'"
  "same_ops s (s'\<lparr>writers := w\<rparr>) = same_ops s s'" "same_ops s (s'\<lparr>cpu_data := d\<rparr>) = same_ops s s'"
  "same_ops s (s'\<lparr>processes_terminated := u\<rparr>) = same_ops s s'" "same_ops s (s'\<lparr>processes_created := k\<rparr>) = same_ops s s'"
  "same_ops s (s'\<lparr>simulator_time := u\<rparr>) = same_ops s s'" "same_ops s (gantt_line s') = same_ops s s'"
  "same_ops s (s'\<lparr>context_switches := u\<rparr>) = same_ops s s'"
  by (simp_all add: same_ops_def gantt_line_def)

text \<open>One process changes.\<close>

lemma total_left_change:
  assumes "p < PROCESS_COUNT" and "\<And>q. q \<noteq> p \<Longrightarrow> cpu_left s' q = cpu_left s q" and "cpu_left s p = cpu_left s' p + k"
  shows "total_left s = total_left s' + k"
proof -
  have "total_left t = cpu_left t p + (\<Sum>q \<in> {..<PROCESS_COUNT} - {p}. cpu_left t q)" for t
    using assms(1) by (simp add: total_left_def sum.remove)
  moreover have "(\<Sum>q \<in> {..<PROCESS_COUNT} - {p}. cpu_left s q) = (\<Sum>q \<in> {..<PROCESS_COUNT} - {p}. cpu_left s' q)"
    using assms(2) by (intro sum.cong) auto
  ultimately show ?thesis using assms(3) by simp
qed

subsection \<open>CPU threads\<close>

lemma cpu_step_same_ops:
  assumes inv: "os_inv s" and c: "c < cpu_count s" and st: "cpu_step c s = Inr (Some s')"
  shows "same_ops s s'"
proof -
  have live: "supervisor s \<noteq> Sup_Exit" using st by (auto simp: cpu_step_def)
  show ?thesis
  proof (cases "threads s c")
    case (In_Callback w pc)
    show ?thesis
    proof (cases "\<exists>p. pc = Call_Switch p")
      case True
      then show ?thesis using st live In_Callback by (auto simp: cpu_step_def os_context_switch_def)
    next
      case False
      have "thread_ok (threads s c)" using inv by (simp add: os_inv_def)
      then have "callback_range pc" using In_Callback by (simp add: thread_ok_def)
      then obtain pc' sc where sc: "callback_step c pc (sch s) = Inr (pc', sc)" "sched_fine (sch s) sc"
        using callback_step_range[of "sch s" c pc] inv c by (auto simp: os_inv_def)
      then have "s' = goto (s\<lparr>sch := sc\<rparr>) c (In_Callback w pc')"
        using st live In_Callback False by (cases pc) (simp_all add: cpu_step_def)
      then show ?thesis using same_ops_sch[OF sc(2)] by simp
    qed
  next
    case (Dispatch e)
    then show ?thesis using st live by (cases e) (auto simp: cpu_step_def dispatch_def split: if_splits)
  qed (use st live in \<open>auto simp: cpu_step_def loop_top_def Let_def split: if_splits\<close>)
qed

subsection \<open>The supervisor\<close>

lemma advance_left:
  assumes ok: "ops_ok s" and p: "p < PROCESS_COUNT" and st: "advance s p = Inr (op, s')"
  shows "cpu_left s p = cpu_left s' p + burst_cost (operations s p ! os_pc (tasks (sch s) p))"
    and "q \<noteq> p \<Longrightarrow> cpu_left s' q = cpu_left s q"
proof -
  let ?i = "os_pc (tasks (sch s) p)"
  have i: "?i < length (operations s p)" using ops_okD[OF ok p] by simp
  have s': "operations s' = operations s" "\<And>q. os_pc (tasks (sch s') q) = (if q = p then Suc ?i else os_pc (tasks (sch s) q))"
    using st p by (auto simp: advance_def update_task_def get_task_def set_task_def)
  show "q \<noteq> p \<Longrightarrow> cpu_left s' q = cpu_left s q" using s' by (simp add: cpu_left_def)
  have "drop ?i (operations s p) = operations s p ! ?i # drop (Suc ?i) (operations s p)"
    using i by (simp add: Cons_nth_drop_Suc)
  then show "cpu_left s p = cpu_left s' p + burst_cost (operations s p ! ?i)"
    using s' by (simp add: cpu_left_def)
qed

lemma run_burst_left:
  assumes ok: "ops_ok s" and p: "p < PROCESS_COUNT" and op: "op = operations s p ! os_pc (tasks (sch s) p)"
    and time: "op_kind op = OP_CPU" "op_time op > 0" and st: "run_burst c p op s = Inr s'"
  shows "total_left s = total_left s' + 1"
proof -
  let ?i = "os_pc (tasks (sch s) p)"
  have i: "?i < length (operations s p)" using ops_okD[OF ok p] by simp
  let ?op = "op\<lparr>op_time := op_time op - 1\<rparr>"
  have s': "operations s' = (operations s)(p := (operations s p)[?i := ?op])"
    "\<And>q. os_pc (tasks (sch s') q) = os_pc (tasks (sch s) q)"
    using st p by (auto simp: run_burst_def Let_def update_task_def get_task_def set_task_def)
  have "unat (op_time op - 1) + 1 = unat (op_time op)"
    using time(2) by (metis Suc_eq_plus1 Suc_pred' less_irrefl unat_1 unat_gt_0 unat_minus_one)
  then have cost: "burst_cost op = burst_cost ?op + 1" using time(1) by (simp add: burst_cost_def)
  have "drop ?i (operations s p) = op # drop (Suc ?i) (operations s p)"
    using i op by (simp add: Cons_nth_drop_Suc)
  moreover have "drop ?i ((operations s p)[?i := ?op]) = ?op # drop (Suc ?i) (operations s p)"
    using i by (simp add: upd_conv_take_nth_drop)
  ultimately have "cpu_left s p = cpu_left s' p + 1" using s' cost by (simp add: cpu_left_def)
  moreover have "cpu_left s' q = cpu_left s q" if "q \<noteq> p" for q using s' that by (simp add: cpu_left_def)
  ultimately show ?thesis using total_left_change[OF p] by blast
qed

lemma end_burst_left:
  assumes ok: "ops_ok s" and p: "p < PROCESS_COUNT" and op: "op = operations s p ! os_pc (tasks (sch s) p)"
    and time: "op_kind op = OP_CPU" "op_time op = 0" and st: "end_burst c p s = Inr s'"
  shows "total_left s = total_left s' + 1"
proof -
  obtain op1 s1 where a: "advance s p = Inr (op1, s1)" using st by (auto simp: end_burst_def)
  have "same_ops s1 s2" if "submit_io_request (op_time op1) s1 p = Inr s2" for s2
    using that by (auto simp: submit_io_request_def same_ops_def split: option.splits if_splits)
  then have "same_ops s1 s'" using st a by (auto simp: end_burst_def split: op_type.splits)
  then have "total_left s' = total_left s1" by (rule same_ops_left)
  moreover have "total_left s = total_left s1 + burst_cost op"
    using total_left_change[OF p] advance_left[OF ok p a] op by blast
  ultimately show ?thesis using time by (simp add: burst_cost_def)
qed

lemma simulate_process_left:
  assumes ok: "ops_ok s" and p: "p < PROCESS_COUNT" and st: "simulate_process c p s = Inr s'"
  shows "total_left s = total_left s' + (if op_now s p = OP_CPU then 1 else 0)"
proof -
  obtain op where op: "op_at s p (os_pc (tasks (sch s) p)) = Inr op" "op = operations s p ! os_pc (tasks (sch s) p)"
    "op_now s p = op_kind op"
    using op_now_at[OF ok p] by blast
  have get: "get_task (sch s) p = Inr (tasks (sch s) p)" using p by (simp add: get_task_def)
  show ?thesis
  proof (cases "op_kind op = OP_CPU")
    case True
    then show ?thesis
      using st op get run_burst_left[OF ok p op(2) True, of c s'] end_burst_left[OF ok p op(2) True, of c s']
      by (simp add: simulate_process_def word_gt_0 split: if_splits)
  next
    case False
    then have "s' = sup_goto s (Sup_Cpus (c + 1))"
      using st op get by (auto simp: simulate_process_def split: op_type.splits)
    then show ?thesis using False op(3) same_ops_left[of s s'] by simp
  qed
qed

text \<open>The first request of the I/O queue belongs to a process at an I/O operation, so it costs no CPU time to move on.\<close>

lemma simulate_io_left:
  assumes inv: "os_inv s" and st: "simulate_io s = Inr (p, s')"
  shows "total_left s' = total_left s"
proof (cases "io_queue_head s")
  case None
  then show ?thesis using st by (simp add: simulate_io_def)
next
  case (Some r)
  obtain v where v: "cells (io_heap s) r = Some v" "io_pcb v < PROCESS_COUNT" "op_now s (io_pcb v) = OP_IO"
    using io_head_cell[OF inv Some] by blast
  let ?s1 = "s\<lparr>io_heap := (io_heap s)\<lparr>cells := (cells (io_heap s))(r \<mapsto> v\<lparr>execution_time := execution_time v - 1\<rparr>)\<rparr>\<rparr>"
  have same: "same_ops s ?s1" by (simp add: same_ops_def)
  have ok: "ops_ok ?s1" using inv by (simp add: os_inv_def ops_ok_def)
  have remove: "same_ops s2 s3" if "remove_io_request s2 = Inr (q, s3)" for s2 q s3
    using that by (auto simp: remove_io_request_def same_ops_def Let_def split: option.splits)
  have res: "(if execution_time v \<le> 0 then bindE (advance ?s1 (io_pcb v)) (\<lambda>(_, s2). remove_io_request s2)
      else Inr (None, ?s1)) = Inr (p, s')"
    using st Some v(1) by (simp add: simulate_io_def Let_def)
  show ?thesis
  proof (cases "execution_time v \<le> 0")
    case False
    then show ?thesis using res same_ops_left[OF same] by simp
  next
    case True
    then obtain op s2 where a: "advance ?s1 (io_pcb v) = Inr (op, s2)" "remove_io_request s2 = Inr (p, s')"
      using res by auto
    have "burst_cost (operations ?s1 (io_pcb v) ! os_pc (tasks (sch ?s1) (io_pcb v))) = 0"
      using v(3) by (simp add: burst_cost_def op_now_def)
    then have "total_left ?s1 = total_left s2"
      using total_left_change[OF v(2), of s2 ?s1 0] advance_left[OF ok v(2) a(1)] by simp
    then show ?thesis using same_ops_left[OF same] same_ops_left[OF remove[OF a(2)]] by simp
  qed
qed

lemma sup_step_left:
  assumes inv: "os_inv s" and st: "sup_step s = Inr (Some s')"
  shows "total_left s = total_left s' + (if executes s then 1 else 0)"
proof -
  have quiet: ?thesis if "same_ops s s'" "\<not> executes s" using same_ops_left[OF that(1)] that(2) by simp
  show ?thesis
  proof (cases "supervisor s")
    case (Sup_Cpus c)
    then have sim: "simulate_cpu c s = Inr s'" using st by (simp add: sup_step_def)
    show ?thesis
    proof (cases "c < cpu_count s \<and> cd_current (cpu_data s c) \<noteq> None")
      case True
      then obtain p where p: "cd_current (cpu_data s c) = Some p" "simulate_process c p s = Inr s'"
        using sim by (auto simp: simulate_cpu_def)
      then have "p < PROCESS_COUNT" using inv unfolding os_inv_def by (metis in_range_simps(2))
      from simulate_process_left[OF _ this p(2)] show ?thesis
        using True Sup_Cpus p(1) inv by (simp add: executes_def os_inv_def)
    next
      case False
      then have "s' = sup_goto s (Sup_Cpus (c + 1)) \<or> s' = sup_goto s Sup_Io"
        using sim by (auto simp: simulate_cpu_def split: if_splits)
      then have "same_ops s s'" by auto
      moreover have "\<not> executes s" using False Sup_Cpus by (auto simp: executes_def split: option.splits)
      ultimately show ?thesis by (rule quiet)
    qed
  next
    case Sup_Io
    then obtain p s1 where s1: "simulate_io s = Inr (p, s1)"
      "s' = sup_goto s1 (case p of None \<Rightarrow> Sup_Creat | Some p \<Rightarrow> Sup_Lock True p)"
      using st by (auto simp: sup_step_def)
    then have "total_left s' = total_left s1" by (intro same_ops_left) simp
    then show ?thesis using simulate_io_left[OF inv s1(1)] Sup_Io by (simp add: executes_def)
  next
    case (Sup_Wake io p)
    then have "p < PROCESS_COUNT" using inv by (simp add: os_inv_def sup_ok_def)
    then obtain sc where sc: "make_ready p (sch s) = Inr sc" "sched_fine (sch s) sc"
      using make_ready_range[of "sch s" p] inv by (auto simp: os_inv_def)
    then have "s' = sup_goto (s\<lparr>sch := sc\<rparr>) (Sup_Unlock io)"
      using st Sup_Wake by (simp add: sup_step_def lift_sched_def wake_up_def)
    then show ?thesis using quiet same_ops_sch[OF sc(2)] Sup_Wake by (simp add: executes_def)
  qed (use st quiet in \<open>auto simp: sup_step_def executes_def split: if_splits\<close>)
qed

subsection \<open>Runs\<close>

fun executed :: "thread list \<Rightarrow> os \<Rightarrow> nat" where
  "executed [] s = 0"
| "executed (t # ts) s = (if t = Supervisor \<and> executes s then 1 else 0)
     + (case thread_step t s of Inr (Some s1) \<Rightarrow> executed ts s1 | _ \<Rightarrow> executed ts s)"

lemma executed_left: "os_inv s \<Longrightarrow> run_threads ts s = Inr s' \<Longrightarrow> executed ts s + total_left s' = total_left s"
proof (induction ts arbitrary: s)
  case Nil
  then show ?case by simp
next
  case (Cons t ts)
  obtain r where r: "thread_step t s = Inr r" "\<forall>s1. r = Some s1 \<longrightarrow> os_inv s1"
    using thread_step_ok[OF Cons.prems(1), of t] by blast
  show ?case
  proof (cases r)
    case None
    have "\<not> (t = Supervisor \<and> executes s)"
    proof
      assume e: "t = Supervisor \<and> executes s"
      then obtain c where "supervisor s = Sup_Cpus c" by (auto simp: executes_def split: sup_pc.splits)
      then show False using r(1) None e by (auto simp: thread_step_def sup_step_def)
    qed
    then show ?thesis using Cons r None by auto
  next
    case (Some s1)
    have "total_left s = total_left s1 + (if t = Supervisor \<and> executes s then 1 else 0)"
    proof (cases t)
      case (Cpu c)
      then have "c < cpu_count s" "cpu_step c s = Inr (Some s1)"
        using r(1) Some by (auto simp: thread_step_def split: if_splits)
      then show ?thesis using same_ops_left[OF cpu_step_same_ops[OF Cons.prems(1)]] Cpu by simp
    next
      case Supervisor
      then show ?thesis using sup_step_left[OF Cons.prems(1)] r(1) Some by (simp add: thread_step_def)
    qed
    then show ?thesis using Cons r Some by auto
  qed
qed

end
