(* ===== verification/Os_Runs.thy ===== *)
theory Os_Runs
  imports Os_Sim
begin

text \<open>
  Runs of the simulator in a given order of its threads, evaluated step by step with the simplifier:
  a run in which the event that ends a CPU burst is lost.
\<close>

text \<open>The program with \<open>n\<close> CPUs and memory for as many I/O requests as there are processes.\<close>

definition program :: "u32 \<Rightarrow> int \<Rightarrow> thread list \<Rightarrow> os res" where
  "program n q ts = bindE (start_simulator (init_sched n q) (unat n) PROCESS_COUNT) (run_threads ts)"

lemma run_threads_append: "run_threads (xs @ ys) s = bindE (run_threads xs s) (run_threads ys)"
  by (induction xs arbitrary: s) (auto simp: bindE_assoc)

text \<open>What evaluates a step on a concrete state; process tables stay folded.\<close>

lemmas run_simps = thread_step_def sup_step_def cpu_step_def
  mutex_free_def loop_top_def dispatch_def os_context_switch_def goto_def sup_goto_def set_cpu_state_def
  callback_step_def take_current_def make_ready_def set_state_def get_task_def set_task_def enqueue_process_def
  dequeue_process_def retire_current_def install_next_def get_current_def set_current_def wake_up_def lift_sched_def
  simulate_cpu_def simulate_process_def simulate_io_def run_burst_def end_burst_def raise_event_def advance_def
  update_task_def op_at_def submit_io_request_def remove_io_request_def heap_alloc_def load_def store_def heap_free_def Let_def
  PROCESS_COUNT_def
lemma replicate_unroll: "replicate (numeral k) x = x # replicate (pred_numeral k) x" by (simp add: numeral_eq_Suc)
lemma initial_process_0: "initial_process 0 = \<lparr>os_pid = 0, os_name = ''Iapache'', time_remaining = 2, os_state = PROCESS_NEW,
     os_pc = 0, os_next = None\<rparr>" by (simp add: initial_process_def process_table_def new_process_def)
lemma initial_process_others: "initial_process 1 = new_process 1 ''Ibash'' 3" "initial_process (Suc 0) = new_process 1 ''Ibash'' 3"
     "initial_process 2 = new_process 2 ''Imozilla'' 1"
     "initial_process 3 = new_process 3 ''Ccpu'' 9"
     "initial_process 4 = new_process 4 ''Cgcc'' 10"
     "initial_process 5 = new_process 5 ''Cspice'' 9"
     "initial_process 6 = new_process 6 ''Cmysql'' 6"
     "initial_process 7 = new_process 7 ''Csim'' 6"
  by (simp_all add: initial_process_def process_table_def new_process_def)
lemma of_nat_filter: "of_nat (length (filter P xs)) = (\<Sum>x\<leftarrow>xs. if P x then 1 else 0)"
  by (induction xs) simp_all
lemma count_state_sum: "count_state s st = (\<Sum>p\<leftarrow>[0,1,2,3,4,5,6,7]. if os_state (tasks (sch s) p) = st then 1 else 0)"
proof -
  have "[0..<8] = [0,1,2,3,4,5,6,7 :: nat]" by (simp add: upt_rec)
  then show ?thesis unfolding count_state_def PROCESS_COUNT_def of_nat_filter by (simp only:)
qed
lemma new_process_state: "os_state (new_process i n t) = PROCESS_NEW" by (simp add: new_process_def)
lemma initial_operations_0: "initial_operations 0 = pid0_ops" by (simp add: initial_operations_def operation_table_def)
lemma pid0_ops_nth: "length pid0_ops = 30" "pid0_ops ! 0 = cpu_op 2" "pid0_ops ! 1 = io_op 2" "pid0_ops ! Suc 0 = io_op 2" "pid0_ops ! 2 = cpu_op 3"
  by (simp_all add: pid0_ops_def)
lemma op_time_simps: "op_time (cpu_op t) = t" "op_time (io_op t) = t" by (simp_all add: cpu_op_def io_op_def)

text \<open>
  CPU 0 takes the first process from the queue and is about to take the lock again in
  \<open>context_switch\<close>; meanwhile the supervisor runs the process to its first I/O operation and
  raises the event; then CPU 0 gets to the top of its loop.
\<close>

definition idle_run :: "thread list" where
  "idle_run = replicate 11 Supervisor @ replicate 7 (Cpu 0)"

definition idle_state :: os where
  "idle_state = \<lparr>
     sch = \<lparr>tasks = initial_process(0 := \<lparr>os_pid = 0, os_name = ''Iapache'', time_remaining = 2,
         os_state = PROCESS_RUNNING, os_pc = 0, os_next = None\<rparr>),
       ready_head = None, ready_tail = None, current = [0 \<mapsto> 0], cpus = 2, time_slice = -1\<rparr>,
     operations = initial_operations,
     io_heap = \<lparr>cells = (\<lambda>_. None), brk = 0, avail = 8\<rparr>, io_queue_head = None, io_queue_tail = None,
     cpu_data = (\<lambda>_. \<lparr>cd_current = None, cd_state = CPU_IDLE, preemption_timer = -1\<rparr>)
       (0 := \<lparr>cd_current = Some 0, cd_state = CPU_IDLE, preemption_timer = -1\<rparr>),
     cpu_count = 2, simulator_time = 1, processes_terminated = 0, processes_created = 1,
     ready_counter = 0, running_counter = 0, waiting_counter = 0, context_switches = 1, writers = -1,
     threads = (\<lambda>_. At_Loop)(0 := Switch_Lock False), supervisor = Sup_Loop\<rparr>"

definition yield_state :: os where
  "yield_state = idle_state\<lparr>
     sch := (sch idle_state)\<lparr>tasks := initial_process(0 := \<lparr>os_pid = 0, os_name = ''Iapache'', time_remaining = 3,
         os_state = PROCESS_RUNNING, os_pc = 1, os_next = None\<rparr>)\<rparr>,
     operations := initial_operations(0 := pid0_ops[0 := cpu_op 2\<lparr>op_time := 0\<rparr>]),
     io_heap := \<lparr>cells = [0 \<mapsto> \<lparr>io_pcb = 0, execution_time = 2, io_next = None\<rparr>], brk = 1, avail = 7\<rparr>,
     io_queue_head := Some 0, io_queue_tail := Some 0,
     cpu_data := (\<lambda>_. \<lparr>cd_current = None, cd_state = CPU_IDLE, preemption_timer = -1\<rparr>)
       (0 := \<lparr>cd_current = Some 0, cd_state = CPU_YIELD, preemption_timer = -3\<rparr>),
     simulator_time := 3, running_counter := 3, supervisor := Sup_Wait 0\<rparr>"

definition lost_state :: os where
  "lost_state = yield_state\<lparr>
     cpu_data := (\<lambda>_. \<lparr>cd_current = None, cd_state = CPU_IDLE, preemption_timer = -1\<rparr>)
       (0 := \<lparr>cd_current = Some 0, cd_state = CPU_RUNNING, preemption_timer = -3\<rparr>),
     writers := 0, threads := (\<lambda>_. At_Loop)(0 := Blocked), supervisor := Sup_Woken 0\<rparr>"

lemmas run_eval = run_simps initial_process_0 gantt_line_def initial_operations_0 count_state_sum initial_process_others new_process_state pid0_ops_nth op_time_simps

lemma run_to_idle: "program 2 (-1) idle_run = Inr idle_state"
  unfolding idle_run_def program_def idle_state_def
  by (simp add: replicate_unroll start_simulator_def init_sched_def PROCESS_COUNT_def del: run_threads.simps(1))
    (simp add: run_eval)

lemma run_to_yield: "run_threads (replicate 19 Supervisor) idle_state = Inr yield_state"
  unfolding yield_state_def idle_state_def by (simp add: replicate_unroll run_eval)

lemma run_to_lost: "run_threads [Cpu 0, Cpu 0] yield_state = Inr lost_state"
  unfolding lost_state_def yield_state_def idle_state_def by (simp add: run_eval)

lemma run_from_lost:
  "\<exists>s. run_threads (replicate 22 Supervisor @ replicate 5 (Cpu 1)) lost_state = Inr s
    \<and> current (sch s) 0 = Some 0 \<and> current (sch s) 1 = Some 0
    \<and> threads s 0 = Blocked \<and> threads s 1 = In_Callback False (Call_Switch (Some 0))"
  unfolding lost_state_def yield_state_def idle_state_def by (simp add: replicate_unroll run_eval)

end
