(* ===== verification/Sched_Queue.thy ===== *)
theory Sched_Queue
  imports Scheduler
begin

text \<open>
  The ready queue as a list of processes, the contract of a FIFO queue for it, and what each
  callback does to queue, CPU and process states when nothing interrupts it.
\<close>

subsection \<open>The processes the pointers represent\<close>

definition task_next :: "sched \<Rightarrow> nat \<Rightarrow> nat option" where
  "task_next s p = os_next (tasks s p)"

definition ready_items :: "sched \<Rightarrow> nat list \<Rightarrow> bool" where
  "ready_items s ps \<longleftrightarrow> fifo (task_next s) (ready_head s) (ready_tail s) ps \<and> set ps \<subseteq> {..<PROCESS_COUNT}"

definition not_ready :: "sched \<Rightarrow> nat set" where
  "not_ready s = {p. p < PROCESS_COUNT \<and> (\<forall>ps. ready_items s ps \<longrightarrow> p \<notin> set ps)}"

lemma ready_items_det: "ready_items s ps \<Longrightarrow> ready_items s qs \<Longrightarrow> ps = qs"
  by (auto simp: ready_items_def dest: fifo_det)

lemma ready_items_distinct: "ready_items s ps \<Longrightarrow> distinct ps"
  by (auto simp: ready_items_def dest: fifo_distinct)

lemma not_ready_eq: "ready_items s ps \<Longrightarrow> not_ready s = {..<PROCESS_COUNT} - set ps"
  by (auto simp: not_ready_def dest: ready_items_det)

lemma ready_head_empty: "ready_items s ps \<Longrightarrow> ready_head s = None \<longleftrightarrow> ps = []"
  unfolding ready_items_def using fifo_head_None by blast

text \<open>The queue depends on the \<open>next\<close> fields and the two ends only.\<close>

lemma ready_items_cong:
  "ready_items s ps \<Longrightarrow> ready_head s' = ready_head s \<Longrightarrow> ready_tail s' = ready_tail s \<Longrightarrow>
    (\<And>p. p \<in> set ps \<Longrightarrow> task_next s' p = task_next s p) \<Longrightarrow> ready_items s' ps"
  by (auto simp: ready_items_def intro: fifo_cong)

lemma same_next: "\<exists>n. t = t\<lparr>os_next := n\<rparr>"
  by (rule exI[of _ "os_next t"]) simp

text \<open>What an operation on the queue leaves alone: everything but \<open>next\<close> fields.\<close>

definition queue_only :: "sched \<Rightarrow> sched \<Rightarrow> bool" where
  "queue_only s s' \<longleftrightarrow> current s' = current s \<and> cpus s' = cpus s \<and> time_slice s' = time_slice s
     \<and> (\<forall>p. \<exists>n. tasks s' p = (tasks s p)\<lparr>os_next := n\<rparr>)"

lemma queue_onlyD:
  "queue_only s s' \<Longrightarrow> current s' = current s \<and> cpus s' = cpus s \<and> time_slice s' = time_slice s
    \<and> os_state (tasks s' p) = os_state (tasks s p)"
  unfolding queue_only_def by (metis os_pcb_t.select_convs(4) os_pcb_t.surjective os_pcb_t.update_convs(6))

lemma enqueue_ok:
  assumes items: "ready_items s ps" and p: "p < PROCESS_COUNT" "p \<notin> set ps"
  shows "\<exists>s'. enqueue_process s p = Inr s' \<and> ready_items s' (ps @ [p]) \<and> queue_only s s'"
proof -
  let ?s1 = "s\<lparr>tasks := (tasks s)(p := (tasks s p)\<lparr>os_next := None\<rparr>)\<rparr>"
  have q: "fifo (task_next s) (ready_head s) (ready_tail s) ps" and sub: "set ps \<subseteq> {..<PROCESS_COUNT}"
    using items by (simp_all add: ready_items_def)
  show ?thesis
  proof (cases "ready_tail s")
    case None
    then have "ps = []" using fifo_tail_None[OF q] by simp
    moreover have "fifo (task_next (?s1\<lparr>ready_head := Some p, ready_tail := Some p\<rparr>)) (Some p) (Some p) [p]"
      by (simp add: fifo_def task_next_def)
    moreover have "queue_only s (?s1\<lparr>ready_head := Some p, ready_tail := Some p\<rparr>)"
      by (auto simp: queue_only_def same_next)
    ultimately show ?thesis
      using None p by (simp add: enqueue_process_def get_task_def set_task_def ready_items_def)
  next
    case (Some t)
    then have t: "ps \<noteq> []" "t = last ps" using q by (auto simp: fifo_def split: if_splits)
    then have tin: "t \<in> set ps" by simp
    then have tp: "t \<noteq> p" "t < PROCESS_COUNT" using p(2) sub by auto
    let ?s2 = "s\<lparr>tasks := (tasks s)(p := (tasks s p)\<lparr>os_next := None\<rparr>, t := (tasks s t)\<lparr>os_next := Some p\<rparr>),
      ready_tail := Some p\<rparr>"
    have "task_next ?s2 = (task_next s)(p := None, t := Some p)"
      by (auto simp: task_next_def fun_eq_iff)
    then have "fifo (task_next ?s2) (ready_head s) (Some p) (ps @ [p])"
      using fifo_enqueue[of "task_next s" _ t ps p] q Some p(2) by simp
    moreover have "queue_only s ?s2"
      by (auto simp: queue_only_def same_next)
    moreover have "enqueue_process s p = Inr ?s2"
      using Some p tp by (simp add: enqueue_process_def get_task_def set_task_def fun_upd_twist)
    ultimately show ?thesis using p sub by (simp add: ready_items_def)
  qed
qed

lemma dequeue_empty: "ready_items s [] \<Longrightarrow> dequeue_process s = Inr (None, s)"
  using ready_head_empty[of s "[]"] by (simp add: dequeue_process_def)

lemma dequeue_ok:
  assumes items: "ready_items s (p # ps)"
  shows "\<exists>s'. dequeue_process s = Inr (Some p, s') \<and> ready_items s' ps \<and> queue_only s s'"
proof -
  have q: "fifo (task_next s) (ready_head s) (ready_tail s) (p # ps)"
    and sub: "p < PROCESS_COUNT" "set ps \<subseteq> {..<PROCESS_COUNT}"
    using items by (auto simp: ready_items_def)
  note d = fifo_dequeue[OF q]
  let ?t = "if task_next s p = None then None else ready_tail s"
  let ?s = "s\<lparr>tasks := (tasks s)(p := (tasks s p)\<lparr>os_next := None\<rparr>), ready_head := task_next s p, ready_tail := ?t\<rparr>"
  have "dequeue_process s = Inr (Some p, ?s)"
  proof (cases "os_next (tasks s p)")
    case None
    then show ?thesis
      using d(1) sub(1) by (simp add: dequeue_process_def get_task_def set_task_def task_next_def)
  next
    case (Some n)
    moreover have "?s = s\<lparr>ready_head := Some n, tasks := (tasks s)(p := (tasks s p)\<lparr>os_next := None\<rparr>)\<rparr>"
      using Some by (intro sched.equality) (simp_all add: task_next_def)
    ultimately show ?thesis
      using d(1) sub(1) by (simp add: dequeue_process_def get_task_def set_task_def task_next_def)
  qed
  moreover have "fifo (task_next ?s) (ready_head ?s) (ready_tail ?s) ps"
  proof -
    have "fifo (task_next s) (task_next s p) ?t ps" using d(2) .
    then show ?thesis using d(3) by (auto simp: task_next_def intro: fifo_cong)
  qed
  moreover have "queue_only s ?s"
    by (auto simp: queue_only_def same_next)
  ultimately show ?thesis using sub(2) by (auto simp: ready_items_def)
qed

interpretation rq: fifo_queue enqueue_process dequeue_process ready_items not_ready
proof (unfold_locales, goal_cases)
  case (1 s xs x)
  then have x: "x < PROCESS_COUNT" "x \<notin> set xs" by (auto simp: not_ready_def)
  from enqueue_ok[OF 1(1) x] obtain s' where "enqueue_process s x = Inr s'" "ready_items s' (xs @ [x])"
    by blast
  then show ?case using 1(1) not_ready_eq by fastforce
next
  case (2 s)
  then show ?case by (rule dequeue_empty)
next
  case (3 s x xs)
  then show ?case using dequeue_ok by blast
qed

subsection \<open>Critical sections\<close>

lemma set_state_ok:
  assumes "p < PROCESS_COUNT"
  shows "\<exists>s'. set_state s p st = Inr s' \<and> (\<forall>ps. ready_items s ps \<longrightarrow> ready_items s' ps)
    \<and> current s' = current s \<and> cpus s' = cpus s \<and> time_slice s' = time_slice s
    \<and> (\<forall>q. os_state (tasks s' q) = (if q = p then st else os_state (tasks s q)))"
  using assms
  by (auto simp: set_state_def get_task_def set_task_def task_next_def intro: ready_items_cong)

lemma make_ready_ok:
  assumes "ready_items s ps" and "p < PROCESS_COUNT" and "p \<notin> set ps"
  shows "\<exists>s'. make_ready p s = Inr s' \<and> ready_items s' (ps @ [p])
    \<and> current s' = current s \<and> cpus s' = cpus s \<and> time_slice s' = time_slice s
    \<and> (\<forall>q. os_state (tasks s' q) = (if q = p then PROCESS_READY else os_state (tasks s q)))"
proof -
  obtain s1 where s1: "set_state s p PROCESS_READY = Inr s1" "ready_items s1 ps"
    "current s1 = current s" "cpus s1 = cpus s" "time_slice s1 = time_slice s"
    "\<forall>q. os_state (tasks s1 q) = (if q = p then PROCESS_READY else os_state (tasks s q))"
    using set_state_ok[OF assms(2)] assms(1) by metis
  obtain s2 where s2: "enqueue_process s1 p = Inr s2" "ready_items s2 (ps @ [p])" "queue_only s1 s2"
    using enqueue_ok[OF s1(2) assms(2,3)] by blast
  show ?thesis
    using s1 s2(1,2) queue_onlyD[OF s2(3)] by (intro exI[of _ s2]) (simp add: make_ready_def)
qed

lemma install_next_ok:
  assumes "c < cpus s" and "\<And>p. n = Some p \<Longrightarrow> p < PROCESS_COUNT"
  shows "\<exists>s'. install_next c n s = Inr s' \<and> (\<forall>ps. ready_items s ps \<longrightarrow> ready_items s' ps)
    \<and> current s' = (current s)(c := n) \<and> cpus s' = cpus s \<and> time_slice s' = time_slice s
    \<and> (\<forall>q. os_state (tasks s' q) = (if n = Some q then PROCESS_RUNNING else os_state (tasks s q)))"
proof -
  let ?s = "s\<lparr>current := (current s)(c := n)\<rparr>"
  have items: "ready_items s ps \<Longrightarrow> ready_items ?s ps" for ps
    by (auto simp: task_next_def intro: ready_items_cong)
  show ?thesis
  proof (cases n)
    case None
    then show ?thesis using assms(1) items by (simp add: install_next_def set_current_def)
  next
    case (Some p)
    then obtain s' where "set_state ?s p PROCESS_RUNNING = Inr s'" "\<forall>ps. ready_items ?s ps \<longrightarrow> ready_items s' ps"
      "current s' = current ?s" "cpus s' = cpus ?s" "time_slice s' = time_slice ?s"
      "\<forall>q. os_state (tasks s' q) = (if q = p then PROCESS_RUNNING else os_state (tasks ?s q))"
      using set_state_ok[of p ?s PROCESS_RUNNING] assms(2) by blast
    then show ?thesis
      using Some assms(1) items by (intro exI[of _ s']) (auto simp: install_next_def set_current_def)
  qed
qed

lemma take_current_ok:
  assumes "c < cpus s"
  shows "\<exists>s'. take_current c s = Inr (current s c, s') \<and> (\<forall>ps. ready_items s ps \<longrightarrow> ready_items s' ps)
    \<and> current s' = (current s)(c := None) \<and> cpus s' = cpus s \<and> time_slice s' = time_slice s
    \<and> tasks s' = tasks s"
  using assms
  by (auto simp: take_current_def get_current_def set_current_def task_next_def intro: ready_items_cong)

lemma retire_current_ok:
  assumes "c < cpus s" and "\<And>p. current s c = Some p \<Longrightarrow> p < PROCESS_COUNT"
  shows "\<exists>s'. retire_current st c s = Inr s' \<and> (\<forall>ps. ready_items s ps \<longrightarrow> ready_items s' ps)
    \<and> current s' = (current s)(c := None) \<and> cpus s' = cpus s \<and> time_slice s' = time_slice s
    \<and> (\<forall>q. os_state (tasks s' q) = (if current s c = Some q then st else os_state (tasks s q)))"
proof (cases "current s c")
  case None
  then show ?thesis using assms(1) by (auto simp: retire_current_def get_current_def fun_eq_iff)
next
  case (Some p)
  then obtain s' where s': "set_state s p st = Inr s'" "\<forall>ps. ready_items s ps \<longrightarrow> ready_items s' ps"
    "current s' = current s" "cpus s' = cpus s" "time_slice s' = time_slice s"
    "\<forall>q. os_state (tasks s' q) = (if q = p then st else os_state (tasks s q))"
    using set_state_ok[of p s st] assms(2) by blast
  have "ready_items s' ps \<Longrightarrow> ready_items (s'\<lparr>current := (current s)(c := None)\<rparr>) ps" for ps
    by (auto simp: task_next_def intro: ready_items_cong)
  then show ?thesis
    using s' Some assms(1)
    by (intro exI[of _ "s'\<lparr>current := (current s)(c := None)\<rparr>"])
      (auto simp: retire_current_def get_current_def set_current_def)
qed

subsection \<open>Whole callbacks\<close>

text \<open>\<open>schedule\<close> gives the CPU the first process of the queue.\<close>

lemma schedule_ok:
  assumes "c < cpus s" and "ready_items s ps"
  shows "\<exists>s'. schedule c s = Inr (if ps = [] then None else Some (hd ps), s') \<and> ready_items s' (tl ps)
    \<and> current s' = (current s)(c := if ps = [] then None else Some (hd ps)) \<and> cpus s' = cpus s
    \<and> time_slice s' = time_slice s
    \<and> (\<forall>q. os_state (tasks s' q) = (if ps \<noteq> [] \<and> q = hd ps then PROCESS_RUNNING else os_state (tasks s q)))"
proof (cases ps)
  case Nil
  then obtain s' where "install_next c None s = Inr s'" "\<forall>ps. ready_items s ps \<longrightarrow> ready_items s' ps"
    "current s' = (current s)(c := None)" "cpus s' = cpus s" "time_slice s' = time_slice s"
    "\<forall>q. os_state (tasks s' q) = os_state (tasks s q)"
    using install_next_ok[OF assms(1), of None] by auto
  then show ?thesis using Nil assms(2) dequeue_empty by (simp add: schedule_def)
next
  case (Cons p qs)
  then obtain s1 where s1: "dequeue_process s = Inr (Some p, s1)" "ready_items s1 qs" "queue_only s s1"
    using dequeue_ok assms(2) by blast
  have p: "p < PROCESS_COUNT" using assms(2) Cons by (simp add: ready_items_def)
  obtain s' where "install_next c (Some p) s1 = Inr s'" "\<forall>ps. ready_items s1 ps \<longrightarrow> ready_items s' ps"
    "current s' = (current s1)(c := Some p)" "cpus s' = cpus s1" "time_slice s' = time_slice s1"
    "\<forall>q. os_state (tasks s' q) = (if Some p = Some q then PROCESS_RUNNING else os_state (tasks s1 q))"
    using install_next_ok[of c s1 "Some p"] p assms(1) queue_onlyD[OF s1(3)] by auto
  then show ?thesis using Cons s1 queue_onlyD[OF s1(3)] by (intro exI[of _ s']) (auto simp: schedule_def)
qed

text \<open>Preemption sends the running process to the end of the queue.\<close>

lemma preempt_ok:
  assumes "c < cpus s" and "ready_items s ps" and "current s c = Some p" "p < PROCESS_COUNT" "p \<notin> set ps"
  shows "\<exists>s'. preempt c s = Inr (Some (hd (ps @ [p])), s') \<and> ready_items s' (tl (ps @ [p]))
    \<and> current s' = (current s)(c := Some (hd (ps @ [p]))) \<and> cpus s' = cpus s
    \<and> (\<forall>q. os_state (tasks s' q) = (if q = hd (ps @ [p]) then PROCESS_RUNNING
        else if q = p then PROCESS_READY else os_state (tasks s q)))"
proof -
  obtain s1 where s1: "take_current c s = Inr (Some p, s1)" "ready_items s1 ps"
    "current s1 = (current s)(c := None)" "cpus s1 = cpus s" "tasks s1 = tasks s"
    using take_current_ok[OF assms(1)] assms(2,3) by auto
  obtain s2 where s2: "make_ready p s1 = Inr s2" "ready_items s2 (ps @ [p])" "current s2 = current s1"
    "cpus s2 = cpus s1"
    "\<forall>q. os_state (tasks s2 q) = (if q = p then PROCESS_READY else os_state (tasks s1 q))"
    using make_ready_ok[OF s1(2) assms(4,5)] by blast
  obtain s3 where "schedule c s2 = Inr (Some (hd (ps @ [p])), s3)" "ready_items s3 (tl (ps @ [p]))"
    "current s3 = (current s2)(c := Some (hd (ps @ [p])))" "cpus s3 = cpus s2"
    "\<forall>q. os_state (tasks s3 q) = (if q = hd (ps @ [p]) then PROCESS_RUNNING else os_state (tasks s2 q))"
    using schedule_ok[OF _ s2(2), of c] assms(1) s1(4) s2(4) by auto
  then show ?thesis using s1 s2 by (intro exI[of _ s3]) (auto simp: preempt_def)
qed

end
