(* ===== verification/Sched_Threads.thy ===== *)
theory Sched_Threads
  imports Sched_Queue Transitions
begin

text \<open>
  The callbacks of the scheduler on several CPUs at once: a step relation whose steps are the
  critical sections, and the invariant that every process is in one place.
\<close>

subsection \<open>Steps\<close>

text \<open>
  \<open>th c\<close> says where CPU \<open>c\<close> is in a callback, if it is in one. Any CPU may enter any callback at any time,
  \<open>idle\<close> only when nothing runs on it; \<open>wake_up\<close> may be called at any time, for a
  process that is new or waits; and the simulator writes the fields of a process that are its own. This is
  what the scheduler may expect of the simulator.
\<close>

type_synonym sched_conf = "sched \<times> (nat \<Rightarrow> callback_pc option)"

inductive sched_step :: "sched_conf \<Rightarrow> sched_conf \<Rightarrow> bool" where
  enter: "c < cpus s \<Longrightarrow> th c = None \<Longrightarrow> pc \<in> {Idle_Wait, Preempt_Take, Yield_Mark, Terminate_Mark} \<Longrightarrow>
    (pc = Idle_Wait \<Longrightarrow> current s c = None) \<Longrightarrow> sched_step (s, th) (s, th(c := Some pc))"
| go_on: "th c = Some pc \<Longrightarrow> callback_step c pc s = Inr (pc', s') \<Longrightarrow>
    sched_step (s, th) (s', th(c := Some pc'))"
| leave: "th c = Some (Call_Switch p) \<Longrightarrow> sched_step (s, th) (s, th(c := None))"
| wake: "p < PROCESS_COUNT \<Longrightarrow> os_state (tasks s p) \<in> {PROCESS_NEW, PROCESS_WAITING} \<Longrightarrow>
    wake_up p s = Inr s' \<Longrightarrow> sched_step (s, th) (s', th)"
| simulate: "p < PROCESS_COUNT \<Longrightarrow>
    sched_step (s, th) (s\<lparr>tasks := (tasks s)(p := (tasks s p)\<lparr>os_pc := i, time_remaining := r\<rparr>)\<rparr>, th)"

subsection \<open>Where a process is\<close>

datatype place = Queue | On nat | Hand nat

text \<open>The process a CPU thread holds in a local variable, between two critical sections.\<close>

definition in_hand :: "callback_pc option \<Rightarrow> nat option" where
  "in_hand t = (case t of Some (Preempt_Put p) \<Rightarrow> Some p | Some (Install p) \<Rightarrow> p | _ \<Rightarrow> None)"

definition hand_state :: "callback_pc option \<Rightarrow> process_state_t" where
  "hand_state t = (case t of Some (Preempt_Put p) \<Rightarrow> PROCESS_RUNNING | _ \<Rightarrow> PROCESS_READY)"

definition busy :: "callback_pc option \<Rightarrow> bool" where
  "busy t \<longleftrightarrow> (case t of Some Idle_Wait \<Rightarrow> True | Some Pick \<Rightarrow> True | Some (Install p) \<Rightarrow> True
     | Some (Preempt_Put p) \<Rightarrow> True | _ \<Rightarrow> False)"

fun place_state :: "(nat \<Rightarrow> callback_pc option) \<Rightarrow> place \<Rightarrow> process_state_t" where
  "place_state th Queue = PROCESS_READY"
| "place_state th (On c) = PROCESS_RUNNING"
| "place_state th (Hand c) = hand_state (th c)"

definition placed :: "sched \<Rightarrow> (nat \<Rightarrow> callback_pc option) \<Rightarrow> nat list \<Rightarrow> (nat \<Rightarrow> place option) \<Rightarrow> bool" where
  "placed s th ps loc \<longleftrightarrow> ready_items s ps
     \<and> (\<forall>q. q \<in> set ps \<longleftrightarrow> loc q = Some Queue)
     \<and> (\<forall>q c. c < cpus s \<and> current s c = Some q \<longleftrightarrow> loc q = Some (On c))
     \<and> (\<forall>q c. c < cpus s \<and> in_hand (th c) = Some q \<longleftrightarrow> loc q = Some (Hand c))
     \<and> (\<forall>q pl. loc q = Some pl \<longrightarrow> q < PROCESS_COUNT \<and> os_state (tasks s q) = place_state th pl)
     \<and> (\<forall>q. q < PROCESS_COUNT \<longrightarrow> loc q = None \<longrightarrow>
          os_state (tasks s q) \<notin> {PROCESS_READY, PROCESS_RUNNING})
     \<and> (\<forall>c. busy (th c) \<longrightarrow> current s c = None)
     \<and> (\<forall>c. th c \<noteq> None \<longrightarrow> c < cpus s)"

definition sched_inv :: "sched_conf \<Rightarrow> bool" where
  "sched_inv x \<longleftrightarrow> (\<exists>ps loc. placed (fst x) (snd x) ps loc)"

lemma sched_invI: "placed s th ps loc \<Longrightarrow> sched_inv (s, th)"
  unfolding sched_inv_def fst_conv snd_conv by blast

lemma placedD:
  assumes "placed s th ps loc"
  shows "ready_items s ps" "\<And>q. q \<in> set ps \<longleftrightarrow> loc q = Some Queue"
    "\<And>q c. c < cpus s \<and> current s c = Some q \<longleftrightarrow> loc q = Some (On c)"
    "\<And>q c. c < cpus s \<and> in_hand (th c) = Some q \<longleftrightarrow> loc q = Some (Hand c)"
    "\<And>q pl. loc q = Some pl \<Longrightarrow> q < PROCESS_COUNT \<and> os_state (tasks s q) = place_state th pl"
    "\<And>q. q < PROCESS_COUNT \<Longrightarrow> loc q = None \<Longrightarrow> os_state (tasks s q) \<notin> {PROCESS_READY, PROCESS_RUNNING}"
    "\<And>c. busy (th c) \<Longrightarrow> current s c = None" "\<And>c. th c \<noteq> None \<Longrightarrow> c < cpus s"
  using assms unfolding placed_def by blast+

text \<open>A thread that moves without touching a process.\<close>

lemma placed_move:
  assumes "placed s th ps loc" and "c < cpus s"
    and "in_hand (th c) = None" "in_hand (Some pc) = None" and "busy (Some pc) \<Longrightarrow> current s c = None"
  shows "placed s (th(c := Some pc)) ps loc"
proof -
  note D = placedD[OF assms(1)]
  have nh: "loc q \<noteq> Some (Hand c)" for q using D(4)[of c q] assms(3) by simp
  have "place_state (th(c := Some pc)) pl = place_state th pl" if "loc q = Some pl" for q pl
    using nh[of q] that by (cases pl) auto
  then show ?thesis
    unfolding placed_def using D assms(2-5) nh by auto
qed

text \<open>A process moves from a place (or from none) to another (or to none).\<close>

lemma placed_transfer:
  assumes old: "placed s th ps loc" and p: "p < PROCESS_COUNT"
    and items: "ready_items s' ps'" and cpus: "cpus s' = cpus s"
    and q: "\<And>q. q \<noteq> p \<Longrightarrow> q \<in> set ps' \<longleftrightarrow> q \<in> set ps"
      "\<And>q d. q \<noteq> p \<Longrightarrow> current s' d = Some q \<longleftrightarrow> current s d = Some q"
      "\<And>q d. q \<noteq> p \<Longrightarrow> in_hand (th' d) = Some q \<longleftrightarrow> in_hand (th d) = Some q"
      "\<And>q. q \<noteq> p \<Longrightarrow> os_state (tasks s' q) = os_state (tasks s q)"
      "\<And>q d. q \<noteq> p \<Longrightarrow> in_hand (th d) = Some q \<Longrightarrow> hand_state (th' d) = hand_state (th d)"
    and pl: "p \<in> set ps' \<longleftrightarrow> pl = Some Queue"
      "\<And>d. d < cpus s \<and> current s' d = Some p \<longleftrightarrow> pl = Some (On d)"
      "\<And>d. d < cpus s \<and> in_hand (th' d) = Some p \<longleftrightarrow> pl = Some (Hand d)"
      "\<And>x. pl = Some x \<Longrightarrow> os_state (tasks s' p) = place_state th' x"
      "pl = None \<Longrightarrow> os_state (tasks s' p) \<notin> {PROCESS_READY, PROCESS_RUNNING}"
    and idle: "\<And>d. busy (th' d) \<Longrightarrow> current s' d = None" "\<And>d. th' d \<noteq> None \<Longrightarrow> d < cpus s"
  shows "placed s' th' ps' (loc(p := pl))"
proof -
  note D = placedD[OF old]
  show ?thesis
    unfolding placed_def cpus
  proof (intro conjI allI impI, goal_cases)
    case 1
    then show ?case by (rule items)
  next
    case (2 r)
    then show ?case using D(2)[of r] q(1)[of r] pl(1) by (cases "r = p") auto
  next
    case (3 r d)
    then show ?case using D(3)[of d r] q(2)[of r d] pl(2)[of d] by (cases "r = p") auto
  next
    case (4 r d)
    then show ?case using D(4)[of d r] q(3)[of r d] pl(3)[of d] by (cases "r = p") auto
  next
    case (5 r x)
    then show ?case using D(5)[of r x] p by (cases "r = p") auto
  next
    case (6 r x)
    show ?case
    proof (cases "r = p")
      case True
      then show ?thesis using 6 pl(4) by simp
    next
      case False
      then have x: "loc r = Some x" using 6 by simp
      then have "place_state th' x = place_state th x" using q(5)[OF False] D(4)[of _ r] by (cases x) auto
      then show ?thesis using D(5)[OF x] q(4)[OF False] by simp
    qed
  next
    case (7 r)
    then show ?case using D(6)[of r] q(4)[of r] pl(5) by (cases "r = p") auto
  next
    case (8 d)
    then show ?case by (rule idle(1))
  next
    case (9 d)
    then show ?case by (rule idle(2))
  qed
qed

text \<open>No process moves; the queue and the process states stay.\<close>

lemma placed_same:
  assumes "placed s th ps loc" and "ready_items s' ps" "cpus s' = cpus s" "current s' = current s"
    and "\<And>q. os_state (tasks s' q) = os_state (tasks s q)"
  shows "placed s' th ps loc"
  using assms by (simp add: placed_def)

lemma placed_leave:
  assumes "placed s th ps loc" and "th c = Some (Call_Switch p)"
  shows "placed s (th(c := None)) ps loc"
proof -
  note D = placedD[OF assms(1)]
  have h: "in_hand (th c) = None" using assms(2) by (simp add: in_hand_def)
  then have nh: "loc q \<noteq> Some (Hand c)" for q using D(4)[of c q] by simp
  have "place_state (th(c := None)) pl = place_state th pl" if "loc q = Some pl" for q pl
    using nh[of q] that by (cases pl) auto
  moreover have "\<not> busy None" "in_hand None = None" by (simp_all add: busy_def in_hand_def)
  ultimately show ?thesis unfolding placed_def using D h nh by auto
qed

subsection \<open>Every critical section keeps the invariant\<close>

lemma callback_idle:
  assumes "placed s th ps loc" and "th c = Some Idle_Wait"
  shows "\<exists>pc' s'. callback_step c Idle_Wait s = Inr (pc', s') \<and> sched_inv (s', th(c := Some pc'))"
proof -
  note D = placedD[OF assms(1)]
  let ?pc = "if ready_head s = None then Idle_Wait else Pick"
  have "current s c = None" "c < cpus s" using D(7)[of c] D(8)[of c] assms(2) by (auto simp: busy_def)
  then have "placed s (th(c := Some ?pc)) ps loc"
    using assms(2) by (intro placed_move[OF assms(1)]) (auto simp: in_hand_def)
  then have "sched_inv (s, th(c := Some ?pc))" by (rule sched_invI)
  then show ?thesis by (auto simp: callback_step_def)
qed

lemma callback_take:
  assumes "placed s th ps loc" and "th c = Some Preempt_Take"
  shows "\<exists>pc' s'. callback_step c Preempt_Take s = Inr (pc', s') \<and> sched_inv (s', th(c := Some pc'))"
proof -
  note D = placedD[OF assms(1)]
  have c: "c < cpus s" using D(8)[of c] assms(2) by simp
  obtain s1 where s1: "take_current c s = Inr (current s c, s1)" "ready_items s1 ps"
    "current s1 = (current s)(c := None)" "cpus s1 = cpus s" "tasks s1 = tasks s"
    using take_current_ok[OF c] D(1) by blast
  have h: "in_hand (th c) = None" using assms(2) by (simp add: in_hand_def)
  show ?thesis
  proof (cases "current s c")
    case None
    then have "current s1 = current s" using s1(3) by (simp add: fun_upd_idem)
    then have "placed s1 th ps loc" using s1 by (intro placed_same[OF assms(1)]) simp_all
    then have "placed s1 (th(c := Some Pick)) ps loc"
      using c s1 None h by (intro placed_move) (auto simp: in_hand_def)
    then show ?thesis using s1(1) None by (auto simp: callback_step_def sched_inv_def)
  next
    case (Some p)
    then have lp: "loc p = Some (On c)" using D(3)[of c p] c by simp
    then have P: "p < PROCESS_COUNT" "os_state (tasks s p) = PROCESS_RUNNING" using D(5)[OF lp] by simp_all
    have "placed s1 (th(c := Some (Preempt_Put p))) ps (loc(p := Some (Hand c)))"
    proof (rule placed_transfer[OF assms(1) P(1) s1(2,4)], goal_cases)
      case (2 q d)
      then show ?case using s1(3) Some by auto
    next
      case (3 q d)
      then show ?case using h by (auto simp: in_hand_def)
    next
      case (5 q d)
      then show ?case using h by auto
    next
      case 6
      then show ?case using D(2)[of p] lp by simp
    next
      case (7 d)
      then show ?case using D(3)[of d p] lp s1(3) by auto
    next
      case (8 d)
      then show ?case using D(4)[of d p] lp c by (auto simp: in_hand_def)
    next
      case (9 x)
      then show ?case using P(2) s1(5) by (auto simp: hand_state_def)
    next
      case (11 d)
      then show ?case using D(7)[of d] s1(3) by (auto split: if_splits)
    next
      case (12 d)
      then show ?case using D(8)[of d] c by (auto split: if_splits)
    qed (use s1 in auto)
    then show ?thesis using s1(1) Some by (auto simp: callback_step_def sched_inv_def)
  qed
qed

lemma callback_put:
  assumes "placed s th ps loc" and "th c = Some (Preempt_Put p)"
  shows "\<exists>pc' s'. callback_step c (Preempt_Put p) s = Inr (pc', s') \<and> sched_inv (s', th(c := Some pc'))"
proof -
  note D = placedD[OF assms(1)]
  have c: "c < cpus s" "current s c = None" using D(8)[of c] D(7)[of c] assms(2) by (auto simp: busy_def)
  have h: "in_hand (th c) = Some p" using assms(2) by (simp add: in_hand_def)
  then have lp: "loc p = Some (Hand c)" using D(4)[of c p] c by simp
  have P: "p < PROCESS_COUNT" "p \<notin> set ps" using D(5)[OF lp] D(2)[of p] lp by simp_all
  obtain s1 where s1: "make_ready p s = Inr s1" "ready_items s1 (ps @ [p])" "current s1 = current s"
    "cpus s1 = cpus s" "\<forall>q. os_state (tasks s1 q) = (if q = p then PROCESS_READY else os_state (tasks s q))"
    using make_ready_ok[OF D(1) P] by blast
  have "placed s1 (th(c := Some Pick)) (ps @ [p]) (loc(p := Some Queue))"
  proof (rule placed_transfer[OF assms(1) P(1) s1(2,4)], goal_cases)
    case (3 q d)
    then show ?case using h by (auto simp: in_hand_def)
  next
    case (5 q d)
    then show ?case using h by auto
  next
    case (7 d)
    then show ?case using D(3)[of d p] lp s1(3) by auto
  next
    case (8 d)
    then show ?case using D(4)[of d p] lp by (auto simp: in_hand_def)
  next
    case (11 d)
    then show ?case using D(7)[of d] s1(3) c by (auto split: if_splits)
  next
    case (12 d)
    then show ?case using D(8)[of d] c by (auto split: if_splits)
  qed (use s1 in auto)
  then show ?thesis using s1(1) by (auto simp: callback_step_def sched_inv_def)
qed

lemma callback_retire:
  assumes "placed s th ps loc" and "(th c, st) \<in> {(Some Yield_Mark, PROCESS_WAITING), (Some Terminate_Mark, PROCESS_TERMINATED)}"
  shows "\<exists>s'. retire_current st c s = Inr s' \<and> sched_inv (s', th(c := Some Pick))"
proof -
  note D = placedD[OF assms(1)]
  have c: "c < cpus s" using D(8)[of c] assms(2) by auto
  have h: "in_hand (th c) = None" using assms(2) by (auto simp: in_hand_def)
  have cur: "p < PROCESS_COUNT" if "current s c = Some p" for p
    using D(3)[of c p] D(5)[of p "On c"] that c by simp
  obtain s1 where s1: "retire_current st c s = Inr s1" "ready_items s1 ps"
    "current s1 = (current s)(c := None)" "cpus s1 = cpus s"
    "\<forall>q. os_state (tasks s1 q) = (if current s c = Some q then st else os_state (tasks s q))"
    using retire_current_ok[OF c cur] D(1) by blast
  have "sched_inv (s1, th(c := Some Pick))"
  proof (cases "current s c")
    case None
    then have "current s1 = current s" using s1(3) by (simp add: fun_upd_idem)
    then have "placed s1 th ps loc" using s1 None by (intro placed_same[OF assms(1)]) simp_all
    then have "placed s1 (th(c := Some Pick)) ps loc"
      using c s1 h by (intro placed_move) (auto simp: in_hand_def)
    then show ?thesis by (auto simp: sched_inv_def)
  next
    case (Some p)
    then have lp: "loc p = Some (On c)" using D(3)[of c p] c by simp
    have "placed s1 (th(c := Some Pick)) ps (loc(p := None))"
    proof (rule placed_transfer[OF assms(1) cur[OF Some] s1(2,4)], goal_cases)
      case (2 q d)
      then show ?case using s1(3) Some by auto
    next
      case (3 q d)
      then show ?case using h by (auto simp: in_hand_def)
    next
      case (5 q d)
      then show ?case using h by auto
    next
      case 6
      then show ?case using D(2)[of p] lp by simp
    next
      case (7 d)
      then show ?case using D(3)[of d p] lp s1(3) by auto
    next
      case (8 d)
      then show ?case using D(4)[of d p] lp by (auto simp: in_hand_def)
    next
      case 10
      then show ?case using s1(5) Some assms(2) by auto
    next
      case (11 d)
      then show ?case using D(7)[of d] s1(3) by (auto split: if_splits)
    next
      case (12 d)
      then show ?case using D(8)[of d] c by (auto split: if_splits)
    qed (use s1 Some in auto)
    then show ?thesis by (auto simp: sched_inv_def)
  qed
  with s1(1) show ?thesis by blast
qed

lemma callback_pick:
  assumes "placed s th ps loc" and "th c = Some Pick"
  shows "\<exists>pc' s'. callback_step c Pick s = Inr (pc', s') \<and> sched_inv (s', th(c := Some pc'))"
proof -
  note D = placedD[OF assms(1)]
  have c: "c < cpus s" "current s c = None" using D(8)[of c] D(7)[of c] assms(2) by (auto simp: busy_def)
  have h: "in_hand (th c) = None" using assms(2) by (simp add: in_hand_def)
  show ?thesis
  proof (cases ps)
    case Nil
    have "placed s (th(c := Some (Install None))) ps loc"
      using c h by (intro placed_move[OF assms(1)]) (auto simp: in_hand_def)
    then show ?thesis using dequeue_empty D(1) Nil by (auto simp: callback_step_def sched_inv_def)
  next
    case (Cons p qs)
    obtain s1 where s1: "dequeue_process s = Inr (Some p, s1)" "ready_items s1 qs" "queue_only s s1"
      using dequeue_ok D(1) Cons by blast
    have lp: "loc p = Some Queue" using D(2)[of p] Cons by simp
    have P: "p < PROCESS_COUNT" "os_state (tasks s p) = PROCESS_READY" using D(5)[OF lp] by simp_all
    have dist: "p \<notin> set qs" using ready_items_distinct[OF D(1)] Cons by simp
    have same: "current s1 = current s" "cpus s1 = cpus s" "os_state (tasks s1 q) = os_state (tasks s q)" for q
      using queue_onlyD[OF s1(3)] by simp_all
    have "placed s1 (th(c := Some (Install (Some p)))) qs (loc(p := Some (Hand c)))"
    proof (rule placed_transfer[OF assms(1) P(1) s1(2) same(2)], goal_cases)
      case (3 q d)
      then show ?case using h by (auto simp: in_hand_def)
    next
      case (5 q d)
      then show ?case using h by auto
    next
      case (7 d)
      then show ?case using D(3)[of d p] lp same by auto
    next
      case (8 d)
      then show ?case using D(4)[of d p] lp c by (auto simp: in_hand_def)
    next
      case (9 x)
      then show ?case using P(2) same by (auto simp: hand_state_def)
    next
      case (11 d)
      then show ?case using D(7)[of d] same c by (auto split: if_splits)
    next
      case (12 d)
      then show ?case using D(8)[of d] c by (auto split: if_splits)
    qed (use Cons dist same in auto)
    then show ?thesis using s1(1) by (auto simp: callback_step_def sched_inv_def)
  qed
qed

lemma callback_install:
  assumes "placed s th ps loc" and "th c = Some (Install n)"
  shows "\<exists>pc' s'. callback_step c (Install n) s = Inr (pc', s') \<and> sched_inv (s', th(c := Some pc'))"
proof -
  note D = placedD[OF assms(1)]
  have c: "c < cpus s" "current s c = None" using D(8)[of c] D(7)[of c] assms(2) by (auto simp: busy_def)
  have hand: "in_hand (th c) = n" using assms(2) by (simp add: in_hand_def)
  then have lp: "loc p = Some (Hand c)" if "n = Some p" for p using D(4)[of c p] c that by simp
  have P: "p < PROCESS_COUNT" if "n = Some p" for p using D(5)[OF lp[OF that]] by simp
  obtain s1 where s1: "install_next c n s = Inr s1" "ready_items s1 ps" "current s1 = (current s)(c := n)"
    "cpus s1 = cpus s"
    "\<forall>q. os_state (tasks s1 q) = (if n = Some q then PROCESS_RUNNING else os_state (tasks s q))"
    using install_next_ok[OF c(1) P] D(1) by blast
  have "sched_inv (s1, th(c := Some (Call_Switch n)))"
  proof (cases n)
    case None
    then have "current s1 = current s" using s1(3) c(2) by (simp add: fun_upd_idem)
    then have "placed s1 th ps loc" using s1 None by (intro placed_same[OF assms(1)]) simp_all
    then have "placed s1 (th(c := Some (Call_Switch n))) ps loc"
      using c s1 None hand by (intro placed_move) (auto simp: in_hand_def busy_def)
    then show ?thesis by (auto simp: sched_inv_def)
  next
    case (Some p)
    have "placed s1 (th(c := Some (Call_Switch n))) ps (loc(p := Some (On c)))"
    proof (rule placed_transfer[OF assms(1) P[OF Some] s1(2,4)], goal_cases)
      case (2 q d)
      then show ?case using s1(3) Some c by auto
    next
      case (3 q d)
      then show ?case using hand Some by (auto simp: in_hand_def)
    next
      case (5 q d)
      then show ?case using hand Some by auto
    next
      case 6
      then show ?case using D(2)[of p] lp[OF Some] by simp
    next
      case (7 d)
      then show ?case using D(3)[of d p] lp[OF Some] s1(3) Some c by auto
    next
      case (8 d)
      then show ?case using D(4)[of d p] lp[OF Some] by (auto simp: in_hand_def)
    next
      case (11 d)
      then show ?case using D(7)[of d] s1(3) by (auto simp: busy_def split: if_splits)
    next
      case (12 d)
      then show ?case using D(8)[of d] c by (auto split: if_splits)
    qed (use s1 Some in auto)
    then show ?thesis by (auto simp: sched_inv_def)
  qed
  then show ?thesis using s1(1) by (auto simp: callback_step_def)
qed

text \<open>No critical section can fail, and each keeps the invariant.\<close>

lemma callback_step_ok:
  assumes "placed s th ps loc" and "th c = Some pc"
  shows "\<exists>pc' s'. callback_step c pc s = Inr (pc', s') \<and> sched_inv (s', th(c := Some pc'))"
proof (cases pc)
  case Idle_Wait
  then show ?thesis using callback_idle assms by blast
next
  case Preempt_Take
  then show ?thesis using callback_take assms by blast
next
  case (Preempt_Put p)
  then show ?thesis using callback_put assms by blast
next
  case Yield_Mark
  then show ?thesis using callback_retire[OF assms(1), of c PROCESS_WAITING] assms(2) by (auto simp: callback_step_def)
next
  case Terminate_Mark
  then show ?thesis using callback_retire[OF assms(1), of c PROCESS_TERMINATED] assms(2) by (auto simp: callback_step_def)
next
  case Pick
  then show ?thesis using callback_pick assms by blast
next
  case (Install n)
  then show ?thesis using callback_install assms by blast
next
  case (Call_Switch n)
  have "th(c := Some pc) = th" using assms(2) by (simp add: fun_upd_idem)
  then show ?thesis using Call_Switch assms(1) by (auto simp: callback_step_def sched_inv_def)
qed

lemma wake_ok:
  assumes "placed s th ps loc" and "p < PROCESS_COUNT" and "os_state (tasks s p) \<in> {PROCESS_NEW, PROCESS_WAITING}"
  shows "\<exists>s'. wake_up p s = Inr s' \<and> sched_inv (s', th)"
proof -
  note D = placedD[OF assms(1)]
  have lp: "loc p = None"
  proof (cases "loc p")
    case (Some x)
    then have "place_state th x \<in> {PROCESS_NEW, PROCESS_WAITING}" using D(5)[OF Some] assms(3) by simp
    then show ?thesis by (cases x) (auto simp: hand_state_def split: option.splits callback_pc.splits)
  qed
  have "p \<notin> set ps" using D(2)[of p] lp by simp
  from make_ready_ok[OF D(1) assms(2) this] obtain s1 where s1: "make_ready p s = Inr s1"
    "ready_items s1 (ps @ [p])" "current s1 = current s" "cpus s1 = cpus s"
    "\<forall>q. os_state (tasks s1 q) = (if q = p then PROCESS_READY else os_state (tasks s q))"
    by blast
  have "placed s1 th (ps @ [p]) (loc(p := Some Queue))"
  proof (rule placed_transfer[OF assms(1,2) s1(2,4)], goal_cases)
    case (7 d)
    then show ?case using D(3)[of d p] lp s1(3) by auto
  next
    case (8 d)
    then show ?case using D(4)[of d p] lp by auto
  next
    case (11 d)
    then show ?case using D(7)[of d] s1(3) by simp
  next
    case (12 d)
    then show ?case by (rule D(8))
  qed (use s1 in auto)
  then show ?thesis using s1(1) by (auto simp: wake_up_def sched_inv_def)
qed

lemma sched_step_inv: "sched_step x y \<Longrightarrow> sched_inv x \<Longrightarrow> sched_inv y"
proof (induction rule: sched_step.induct)
  case (enter c s th pc)
  then obtain ps loc where P: "placed s th ps loc" by (auto simp: sched_inv_def)
  have "placed s (th(c := Some pc)) ps loc"
    using enter by (intro placed_move[OF P]) (auto simp: in_hand_def busy_def)
  then show ?case by (auto simp: sched_inv_def)
next
  case (go_on th c pc s pc' s')
  then obtain ps loc where "placed s th ps loc" by (auto simp: sched_inv_def)
  from callback_step_ok[OF this go_on(1)] go_on(2) show ?case by auto
next
  case (leave th c p s)
  then obtain ps loc where "placed s th ps loc" by (auto simp: sched_inv_def)
  from placed_leave[OF this leave(1)] show ?case by (auto simp: sched_inv_def)
next
  case (wake p s s' th)
  then obtain ps loc where "placed s th ps loc" by (auto simp: sched_inv_def)
  from wake_ok[OF this wake(1,2)] wake(3) show ?case by auto
next
  case (simulate p s th r i)
  then obtain ps loc where P: "placed s th ps loc" by (auto simp: sched_inv_def)
  have "placed (s\<lparr>tasks := (tasks s)(p := (tasks s p)\<lparr>os_pc := i, time_remaining := r\<rparr>)\<rparr>) th ps loc"
    by (rule placed_same[OF P]) (use placedD(1)[OF P] in \<open>auto simp: task_next_def intro: ready_items_cong\<close>)
  then show ?case by (rule sched_invI)
qed

interpretation placing: step_invariant sched_step sched_inv
  by unfold_locales (rule sched_step_inv)

end
