(* ===== verification/Sched_Correct.thy ===== *)
theory Sched_Correct
  imports Sched_Threads
begin

text \<open>
  The properties of the scheduler: no process is lost or in two places whatever the order of the
  critical sections, the ready queue is first in first out, the callbacks do what their comments say,
  every ready process gets its turn, and the options give a CPU count and a time slice in range.
\<close>

subsection \<open>The first state\<close>

lemma init_ready_items: "ready_items (init_sched n q) []"
  by (simp add: ready_items_def init_sched_def fifo_empty)

lemma init_state: "p < PROCESS_COUNT \<Longrightarrow> os_state (tasks (init_sched n q) p) = PROCESS_NEW"
  using process_table_new[of p] by (simp add: init_sched_def)

lemma init_sched_simps [simp]:
  "cpus (init_sched n q) = unat n" "current (init_sched n q) c = None" "time_slice (init_sched n q) = q"
  by (simp_all add: init_sched_def)

lemma init_sched_inv: "sched_inv (init_sched n q, \<lambda>_. None)"
proof -
  have "placed (init_sched n q) (\<lambda>_. None) [] (\<lambda>_. None)"
    unfolding placed_def using init_ready_items[of n q] init_state
    by (simp add: in_hand_def busy_def)
  then show ?thesis by (rule sched_invI)
qed

lemma reachable_placed:
  assumes "sched_step\<^sup>*\<^sup>* (init_sched n q, \<lambda>_. None) (s, th)"
  obtains ps loc where "placed s th ps loc"
  using placing.reachable[OF assms init_sched_inv] by (auto simp: sched_inv_def)

text \<open>Runs of the step relation, given by what happens when.\<close>

datatype sched_event = Enter nat callback_pc | Go_On nat | Leave nat | Wake nat

fun sched_run :: "sched_event list \<Rightarrow> sched_conf \<Rightarrow> sched_conf option" where
  "sched_run [] x = Some x"
| "sched_run (Enter c pc # es) (s, th) =
     (if c < cpus s \<and> th c = None \<and> (pc = Preempt_Take \<or> pc = Yield_Mark \<or> pc = Terminate_Mark
          \<or> pc = Idle_Wait \<and> current s c = None)
      then sched_run es (s, th(c := Some pc)) else None)"
| "sched_run (Go_On c # es) (s, th) = (case th c of
     None \<Rightarrow> None
   | Some pc \<Rightarrow> (case callback_step c pc s of
       Inl e \<Rightarrow> None
     | Inr (pc', s') \<Rightarrow> sched_run es (s', th(c := Some pc'))))"
| "sched_run (Leave c # es) (s, th) = (case th c of
     Some (Call_Switch p) \<Rightarrow> sched_run es (s, th(c := None)) | _ \<Rightarrow> None)"
| "sched_run (Wake p # es) (s, th) =
     (if p < PROCESS_COUNT \<and> (os_state (tasks s p) = PROCESS_NEW \<or> os_state (tasks s p) = PROCESS_WAITING)
      then case wake_up p s of Inl e \<Rightarrow> None | Inr s' \<Rightarrow> sched_run es (s', th) else None)"

lemma sched_run_reach: "sched_run es x = Some y \<Longrightarrow> sched_step\<^sup>*\<^sup>* x y"
proof (induction es x rule: sched_run.induct)
  case (2 c pc es s th)
  then have "sched_step (s, th) (s, th(c := Some pc))"
    by (intro sched_step.enter) (auto split: if_splits)
  with 2 show ?case by (auto split: if_splits intro: converse_rtranclp_into_rtranclp)
next
  case (3 c es s th)
  then obtain pc pc' s' where pc: "th c = Some pc" "callback_step c pc s = Inr (pc', s')"
    by (auto split: option.splits sum.splits prod.splits)
  then have "sched_step (s, th) (s', th(c := Some pc'))" by (rule sched_step.go_on)
  with 3 pc show ?case by (auto intro: converse_rtranclp_into_rtranclp)
next
  case (4 c es s th)
  then obtain p where p: "th c = Some (Call_Switch p)"
    by (auto split: option.splits callback_pc.splits)
  then have "sched_step (s, th) (s, th(c := None))" by (rule sched_step.leave)
  with 4 p show ?case by (auto intro: converse_rtranclp_into_rtranclp)
next
  case (5 p es s th)
  then obtain s' where s': "p < PROCESS_COUNT" "os_state (tasks s p) \<in> {PROCESS_NEW, PROCESS_WAITING}"
    "wake_up p s = Inr s'"
    by (auto split: if_splits sum.splits)
  then have "sched_step (s, th) (s', th)" by (rule sched_step.wake)
  with 5 s' show ?case by (auto intro: converse_rtranclp_into_rtranclp)
qed simp

text \<open>Processes 0 and 1 are created, CPU 0 leaves \<open>idle\<close> with process 0, and is about to preempt it.\<close>

definition demo_events :: "sched_event list" where
  "demo_events = [Wake 0, Wake 1, Enter 0 Idle_Wait, Go_On 0, Go_On 0, Go_On 0, Leave 0, Enter 0 Preempt_Take, Go_On 0]"

definition demo_conf :: "sched_conf option" where
  "demo_conf = sched_run demo_events (init_sched 2 3, \<lambda>_. None)"

lemma demo_conf:
  "case demo_conf of None \<Rightarrow> False | Some (s, th) \<Rightarrow> current s 0 = None \<and> th 0 = Some (Preempt_Put 0)
    \<and> ready_head s = Some 1 \<and> cpus s = 2 \<and> os_state (tasks s 0) = PROCESS_RUNNING \<and> os_state (tasks s 1) = PROCESS_READY"
  by code_simp

subsection \<open>Processes on several CPUs\<close>



text \<open>No critical section of a callback dereferences a bad pointer or leaves an array, in any order of the CPUs' steps.\<close>

lemma callbacks_never_fault:
  assumes "sched_step\<^sup>*\<^sup>* (init_sched n q, \<lambda>_. None) (s, th)" and "th c = Some pc"
  shows "\<exists>pc' s'. callback_step c pc s = Inr (pc', s')"
proof -
  obtain ps loc where "placed s th ps loc" using reachable_placed[OF assms(1)] .
  from callback_step_ok[OF this assms(2)] show ?thesis by blast
qed

lemma callbacks_never_fault_example:
  "case demo_conf of None \<Rightarrow> False | Some (s, th) \<Rightarrow> \<exists>pc' s'. callback_step 0 (Preempt_Put 0) s = Inr (pc', s')"
proof -
  obtain s th where s: "demo_conf = Some (s, th)" "th 0 = Some (Preempt_Put 0)"
    using demo_conf by (auto split: option.splits)
  then have "sched_step\<^sup>*\<^sup>* (init_sched 2 3, \<lambda>_. None) (s, th)"
    by (simp add: demo_conf_def sched_run_reach)
  from callbacks_never_fault[OF this s(2)] show ?thesis unfolding s(1) option.case prod.case .
qed

subsection \<open>Callbacks without interruption\<close>








subsection \<open>The ready queue and the CPUs\<close>

text \<open>Several calls of \<open>wake_up\<close>, and a scheduler with one CPU that runs process 3, before 1 and 4.\<close>

lemma wake_list:
  "ready_items s ps \<Longrightarrow> distinct (ps @ qs) \<Longrightarrow> set qs \<subseteq> {..<PROCESS_COUNT} \<Longrightarrow>
    \<exists>s'. foldE (\<lambda>s p. wake_up p s) s qs = Inr s' \<and> ready_items s' (ps @ qs) \<and> current s' = current s \<and> cpus s' = cpus s"
proof (induction qs arbitrary: s ps)
  case Nil
  then show ?case by simp
next
  case (Cons q qs)
  then obtain s1 where s1: "make_ready q s = Inr s1" "ready_items s1 (ps @ [q])" "current s1 = current s" "cpus s1 = cpus s"
    using make_ready_ok[of s ps q] by auto
  with Cons.IH[OF s1(2)] Cons.prems(2,3) show ?case by (auto simp: wake_up_def)
qed

lemma demo_sched:
  "\<exists>s. bindE (foldE (\<lambda>s p. wake_up p s) (init_sched 1 2) [3, 1, 4]) (schedule 0) = Inr (Some 3, s)
    \<and> ready_items s [1, 4] \<and> current s 0 = Some 3 \<and> cpus s = 1"
proof -
  obtain s where s: "foldE (\<lambda>s p. wake_up p s) (init_sched 1 2) [3, 1, 4] = Inr s" "ready_items s [3, 1, 4]" "cpus s = 1"
    using wake_list[OF init_ready_items, of "[3, 1, 4]" 1 2] by (auto simp: PROCESS_COUNT_def)
  with schedule_ok[of 0 s "[3, 1, 4]"] show ?thesis by auto
qed

text \<open>The ready queue is first in, first out: processes that are put in it come out after those already
  there, in the order they were put in, and it is empty after as many removals as it had elements.\<close>

lemma ready_queue_fifo:
  assumes "ready_items s ps" and "distinct qs" and "set qs \<subseteq> not_ready s"
  shows "\<exists>s'. bindE (foldE enqueue_process s qs) (get_n dequeue_process (length ps + length qs))
      = Inr (map Some (ps @ qs), s') \<and> ready_items s' []"
  using assms by (rule rq.first_in_first_out)

lemma ready_queue_fifo_example:
  "\<exists>s s'. ready_items s [1, 4] \<and> bindE (foldE enqueue_process s [7, 0]) (get_n dequeue_process 4)
      = Inr ([Some 1, Some 4, Some 7, Some 0], s')"
proof -
  obtain s where s: "ready_items s [1, 4]" using demo_sched by blast
  have "set [7, 0] \<subseteq> not_ready s" by (simp add: not_ready_eq[OF s] PROCESS_COUNT_def)
  from ready_queue_fifo[OF s _ this] obtain s' where
    "bindE (foldE enqueue_process s [7, 0]) (get_n dequeue_process (length [1 :: nat, 4] + length [7 :: nat, 0]))
      = Inr (map Some ([1, 4] @ [7, 0]), s')"
    by auto
  moreover have "length [1 :: nat, 4] + length [7 :: nat, 0] = 4" by simp
  moreover have "map Some ([1, 4] @ [7, 0]) = [Some 1, Some 4, Some 7, Some (0::nat)]" by simp
  ultimately show ?thesis using s by metis
qed

text \<open>\<open>yield\<close> and \<open>terminate\<close> take the running process off the CPU, mark it as waiting (terminated), and give
  the CPU to the first process of the ready queue, or to none; they change nothing else.\<close>

lemma yield_and_terminate:
  assumes "c < cpus s" and "ready_items s ps" and "current s c = Some p" and "p < PROCESS_COUNT" and "p \<notin> set ps"
    and "(callback, st) \<in> {(yield, PROCESS_WAITING), (terminate, PROCESS_TERMINATED)}"
  shows "\<exists>s'. callback c s = Inr (current s' c, s') \<and> ready_items s' (tl ps)
    \<and> current s' = (current s)(c := if ps = [] then None else Some (hd ps))
    \<and> os_state (tasks s' p) = st
    \<and> (\<forall>q. q \<noteq> p \<longrightarrow> os_state (tasks s' q) = (if ps \<noteq> [] \<and> q = hd ps then PROCESS_RUNNING else os_state (tasks s q)))"
proof -
  obtain s1 where s1: "retire_current st c s = Inr s1" "ready_items s1 ps" "current s1 = (current s)(c := None)"
    "cpus s1 = cpus s" "\<forall>q. os_state (tasks s1 q) = (if current s c = Some q then st else os_state (tasks s q))"
    using retire_current_ok[OF assms(1), of st] assms(2-4) by auto
  obtain s2 where s2: "schedule c s1 = Inr (if ps = [] then None else Some (hd ps), s2)" "ready_items s2 (tl ps)"
    "current s2 = (current s1)(c := if ps = [] then None else Some (hd ps))"
    "\<forall>q. os_state (tasks s2 q) = (if ps \<noteq> [] \<and> q = hd ps then PROCESS_RUNNING else os_state (tasks s1 q))"
    using schedule_ok[OF _ s1(2), of c] assms(1) s1(4) by auto
  have "callback c s = schedule c s1" using assms(6) s1(1) by (auto simp: yield_def terminate_def)
  moreover have "ps \<noteq> [] \<Longrightarrow> p \<noteq> hd ps" using assms(5) hd_in_set[of ps] by auto
  ultimately show ?thesis using s1 s2 assms(3) by (intro exI[of _ s2]) auto
qed

lemma yield_and_terminate_example:
  "\<exists>s s'. current s 0 = Some 3 \<and> yield 0 s = Inr (Some 1, s') \<and> ready_items s' [4] \<and> os_state (tasks s' 3) = PROCESS_WAITING"
proof -
  obtain s where s: "ready_items s [1, 4]" "current s 0 = Some 3" "cpus s = 1" using demo_sched by blast
  then show ?thesis
    using yield_and_terminate[of 0 s "[1, 4]" 3 yield PROCESS_WAITING] by (auto simp: PROCESS_COUNT_def)
qed

subsection \<open>Round robin\<close>

text \<open>The time slice of CPU \<open>c\<close> expires \<open>k\<close> times in a row.\<close>

fun preempts :: "nat \<Rightarrow> nat \<Rightarrow> sched \<Rightarrow> sched res" where
  "preempts 0 c s = Inr s"
| "preempts (Suc k) c s = bindE (preempt c s) (\<lambda>(p, s'). preempts k c s')"

lemma preempts_rotate:
  "c < cpus s \<Longrightarrow> ready_items s (tl ps) \<Longrightarrow> current s c = Some (hd ps) \<Longrightarrow> distinct ps \<Longrightarrow> ps \<noteq> [] \<Longrightarrow>
    set ps \<subseteq> {..<PROCESS_COUNT} \<Longrightarrow>
    \<exists>s'. preempts k c s = Inr s' \<and> ready_items s' (tl (rotate k ps)) \<and> current s' c = Some (hd (rotate k ps))"
proof (induction k arbitrary: s ps)
  case 0
  then show ?case by simp
next
  case (Suc k)
  obtain p qs where ps: "ps = p # qs" using Suc.prems(5) by (cases ps) auto
  obtain s1 where s1: "preempt c s = Inr (Some (hd (qs @ [p])), s1)" "ready_items s1 (tl (qs @ [p]))"
    "current s1 = (current s)(c := Some (hd (qs @ [p])))" "cpus s1 = cpus s"
    using preempt_ok[of c s qs p] Suc.prems ps by auto
  have rot: "rotate1 ps = qs @ [p]" by (simp add: ps)
  have "\<exists>s'. preempts k c s1 = Inr s' \<and> ready_items s' (tl (rotate k (rotate1 ps)))
      \<and> current s' c = Some (hd (rotate k (rotate1 ps)))"
    by (rule Suc.IH) (use Suc.prems s1 ps rot in auto)
  then show ?case using s1(1) by (simp add: rotate1_rotate_swap)
qed

text \<open>C23: With round robin on one CPU no ready process waits forever: each preemption moves the running process to the
  end of the queue, so after \<open>i\<close> of them the CPU runs the process that was \<open>i\<close>-th in line, and after as many as
  there are processes the first one runs again with the queue as it was.\<close>

theorem round_robin_turns:
  assumes "c < cpus s" and "ready_items s ps" and "current s c = Some p" and "p < PROCESS_COUNT" and "p \<notin> set ps"
  shows "(\<forall>i < length (p # ps). \<exists>s'. preempts i c s = Inr s' \<and> current s' c = Some ((p # ps) ! i))
    \<and> (\<exists>s'. preempts (length (p # ps)) c s = Inr s' \<and> current s' c = Some p \<and> ready_items s' ps)"
proof -
  have ps: "distinct (p # ps)" "set (p # ps) \<subseteq> {..<PROCESS_COUNT}"
    using assms ready_items_distinct[OF assms(2)] by (auto simp: ready_items_def)
  note rot = preempts_rotate[of c s "p # ps", OF assms(1) _ _ ps(1) _ ps(2), simplified, OF assms(2,3)]
  have "hd (rotate i (p # ps)) = (p # ps) ! i" if "i < length (p # ps)" for i
    using that by (subst hd_rotate_conv_nth) (simp_all only: mod_less, simp)
  then have "\<forall>i < length (p # ps). \<exists>s'. preempts i c s = Inr s' \<and> current s' c = Some ((p # ps) ! i)"
    using rot by metis
  moreover have "rotate (length (p # ps)) (p # ps) = p # ps" by (rule rotate_id) simp
  ultimately show ?thesis using rot[of "length (p # ps)"] by (auto simp del: rotate_Suc)
qed

theorem round_robin_turns_witness:
  "\<exists>s s'. current s 0 = Some 3 \<and> ready_items s [1, 4] \<and> preempts 2 0 s = Inr s' \<and> current s' 0 = Some 4"
proof -
  obtain s where s: "ready_items s [1, 4]" "current s 0 = Some 3" "cpus s = 1" using demo_sched by blast
  then have "\<forall>i < 3. \<exists>s'. preempts i 0 s = Inr s' \<and> current s' 0 = Some ([3, 1, 4] ! i)"
    using round_robin_turns[of 0 s "[1, 4]" 3] by (simp add: PROCESS_COUNT_def)
  from this[rule_format, of 2] s show ?thesis by auto
qed

subsection \<open>Options\<close>

lemma length_1_3: "length args = 1 \<longleftrightarrow> (\<exists>a. args = [a])" "length args = 3 \<longleftrightarrow> (\<exists>a b c. args = [a, b, c])"
  by (auto simp: length_Suc_conv eval_nat_numeral)

lemma sint_word32: "sint (w :: u32) < 2 ^ 31"
  using sint_lt[of w] by simp

text \<open>The options are accepted exactly when they are a CPU count (FIFO), or a CPU count, \<open>-r\<close> and a time slice whose low
  32 bits are a positive \<open>int\<close> (round robin); the low 32 bits of the count are from 1 to 16, so \<open>current\<close> has an entry for
  every CPU, and the time slice is \<open>-1\<close> or from 1 to \<open>2 ^ 31 - 1\<close>.\<close>

lemma options_in_range:
  "parse_options strtoul strtol args = Inr (n, q) \<longleftrightarrow>
     1 \<le> unat n \<and> unat n \<le> 16 \<and>
     ((\<exists>a. args = [a] \<and> n = ucast (strtoul a) \<and> q = -1)
    \<or> (\<exists>a b. args = [a, ''-r'', b] \<and> n = ucast (strtoul a) \<and> q = sint (ucast (strtol b) :: u32) \<and> 0 < q \<and> q < 2 ^ 31))"
proof -
  have n: "(1 \<le> n) \<and> (n \<le> 16) \<longleftrightarrow> 1 \<le> unat n \<and> unat n \<le> 16" by (simp add: word_le_nat_alt)
  consider a where "args = [a]" | a b c where "args = [a, b, c]" | "length args \<noteq> 1" "length args \<noteq> 3"
    using length_1_3[of args] by blast
  then show ?thesis
  proof cases
    case 1
    then show ?thesis unfolding n[symmetric] conj_assoc[symmetric] by (auto simp: parse_options_def Let_def)
  next
    case 2
    then show ?thesis
      unfolding n[symmetric] conj_assoc[symmetric] using sint_word32[of "ucast (strtol c)"]
      by (auto simp: parse_options_def Let_def is_dash_r_def)
  next
    case 3
    then show ?thesis by (auto simp: parse_options_def)
  qed
qed

text \<open>The option \<open>-l\<close>, which the usage message offers as "Longest Remaining Time First", is always refused, as a
  usage error on its own and as an invalid algorithm with a third argument.\<close>

lemma advertised_option_refused:
  "parse_options strtoul strtol [a, ''-l''] = Inl (Exit_Failure ''Usage'')
    \<and> parse_options strtoul strtol [a, ''-l'', b] = Inl (Exit_Failure ''Invalid scheduling algorithm'')"
  by (simp add: parse_options_def is_dash_r_def)

end
