(* ===== verification/Os_Correct.thy ===== *)
theory Os_Correct
  imports Os_Work Os_Runs Sched_Correct
begin

text \<open>
  The properties of the whole scheduler simulator, for every order in which its threads take their
  steps: no thread fails, one CPU at a time handles an event and the supervisor waits for it, the statistics
  never wait, FIFO scheduling never preempts; and the runs in which an event is lost.
\<close>

subsection \<open>Invariants\<close>

definition events_ok :: "os \<Rightarrow> bool" where
  "events_ok s \<longleftrightarrow> (\<forall>c. in_event s c \<longrightarrow> supervisor s = Sup_Wait c)"

definition lock_ok :: "os \<Rightarrow> bool" where
  "lock_ok s \<longleftrightarrow> writers s = (\<Sum>c < cpu_count s. lock_share (threads s c)) + sup_share (supervisor s)"

definition fifo_ok :: "os \<Rightarrow> bool" where
  "fifo_ok s \<longleftrightarrow> time_slice (sch s) < 0 \<and> (\<forall>c. preemption_timer (cpu_data s c) < 0 \<and> \<not> preempting s c)"

lemma os_step_cases:
  assumes "os_step s s'"
  obtains (cpu) c where "c < cpu_count s" "cpu_effect c s s'"
  | (moves) "\<forall>c. supervisor s \<noteq> Sup_Wait c" "sup_moves s s'"
  | (raises) "\<forall>c. supervisor s \<noteq> Sup_Wait c" "sup_raises s s'"
proof -
  from assms obtain t where t: "thread_step t s = Inr (Some s')" by (auto elim: os_stepE)
  show thesis
  proof (cases t)
    case (Cpu c)
    then show thesis using t cpu cpu_step_effect by (auto simp: thread_step_def split: if_splits)
  next
    case Supervisor
    then show thesis using t moves raises sup_step_effect[of s s'] by (auto simp: thread_step_def)
  qed
qed

text \<open>Threads and CPU states the supervisor leaves alone keep their events.\<close>

lemma in_event_cong:
  "threads s' c = threads s c \<Longrightarrow> cd_state (cpu_data s' c) = cd_state (cpu_data s c) \<Longrightarrow> in_event s' c = in_event s c"
  by (simp add: in_event_def split: cpu_pc.split)

lemma preempting_cong:
  "threads s' c = threads s c \<Longrightarrow> cd_state (cpu_data s' c) = cd_state (cpu_data s c) \<Longrightarrow> preempting s' c = preempting s c"
  by (simp add: preempting_def)

lemma sup_moves_frame:
  assumes "sup_moves s s'"
  shows "threads s' = threads s" "cpu_count s' = cpu_count s" "in_event s' c = in_event s c"
    "cd_state (cpu_data s' c) = cd_state (cpu_data s c)" "cd_current (cpu_data s' c) = cd_current (cpu_data s c)"
    "\<And>d. supervisor s' \<noteq> Sup_Wait d"
    "preempting s' c = preempting s c" "time_slice (sch s') = time_slice (sch s)"
    "preemption_timer (cpu_data s' c) \<le> preemption_timer (cpu_data s c)"
    "writers s' = writers s + sup_share (supervisor s') - sup_share (supervisor s)"
proof -
  from assms obtain s1 t where s1: "quiet s s1"
    "s' = sup_goto (s1\<lparr>writers := writers s + sup_share t - sup_share (supervisor s)\<rparr>) t"
    and t: "\<And>d. t \<noteq> Sup_Wait d"
    by (auto simp: sup_moves_def)
  show "supervisor s' \<noteq> Sup_Wait d" for d using s1(2) t by simp
  show "cd_state (cpu_data s' c) = cd_state (cpu_data s c)" "cd_current (cpu_data s' c) = cd_current (cpu_data s c)"
    using s1 by (simp_all add: quiet_def)
  show "in_event s' c = in_event s c" by (rule in_event_cong) (use s1 in \<open>simp_all add: quiet_def\<close>)
  show "preempting s' c = preempting s c" by (rule preempting_cong) (use s1 in \<open>simp_all add: quiet_def\<close>)
  show "threads s' = threads s" "cpu_count s' = cpu_count s" "time_slice (sch s') = time_slice (sch s)"
    "preemption_timer (cpu_data s' c) \<le> preemption_timer (cpu_data s c)"
    using s1 by (simp_all add: quiet_def)
  show "writers s' = writers s + sup_share (supervisor s') - sup_share (supervisor s)"
    using s1(2) by (simp add: sup_goto_def)
qed

lemma sup_raises_frame:
  assumes "sup_raises s s'"
  obtains c st where "supervisor s = Sup_Cpus c" "supervisor s' = Sup_Wait c" "event_for s c st"
    "c < cpu_count s" "cd_current (cpu_data s c) \<noteq> None" "\<And>d. cd_current (cpu_data s' d) = cd_current (cpu_data s d)"
    "\<And>d. d \<noteq> c \<Longrightarrow> cd_state (cpu_data s' d) = cd_state (cpu_data s d)"
    "cd_state (cpu_data s' c) = st" "threads s' = threads s" "cpu_count s' = cpu_count s" "writers s' = writers s"
    "\<And>d. d \<noteq> c \<Longrightarrow> in_event s' d = in_event s d" "\<And>d. d \<noteq> c \<Longrightarrow> preempting s' d = preempting s d"
    "time_slice (sch s') = time_slice (sch s)" "\<And>d. preemption_timer (cpu_data s' d) \<le> preemption_timer (cpu_data s d)"
proof -
  from assms obtain s1 c st where s1: "quiet s s1" "supervisor s = Sup_Cpus c" "event_for s c st" "s' = raise_event s1 c st"
    and c: "c < cpu_count s" "cd_current (cpu_data s c) \<noteq> None"
    by (auto simp: sup_raises_def)
  have d: "cd_state (cpu_data s' d) = (if d = c then st else cd_state (cpu_data s d))"
    "preemption_timer (cpu_data s' d) \<le> preemption_timer (cpu_data s d)"
    "cd_current (cpu_data s' d) = cd_current (cpu_data s d)" for d
    using s1(1,4) by (simp_all add: raise_event_def set_cpu_state_def quiet_def)
  have th: "threads s' = threads s" using s1(1,4) by (simp add: quiet_def)
  have "writers s' = writers s" using s1(1,4) by (simp add: quiet_def raise_event_def set_cpu_state_def sup_goto_def)
  moreover have "in_event s' e = in_event s e" if "e \<noteq> c" for e
    using that d th by (intro in_event_cong) simp_all
  moreover have "preempting s' e = preempting s e" if "e \<noteq> c" for e
    using that d th by (intro preempting_cong) simp_all
  moreover have "supervisor s' = Sup_Wait c" "cpu_count s' = cpu_count s" "time_slice (sch s') = time_slice (sch s)"
    using s1(1,4) by (simp_all add: quiet_def)
  ultimately show thesis by (intro that[of c st] s1(2,3) c d(2,3) th) (simp_all add: d(1))
qed

lemma events_ok_step:
  assumes ok: "events_ok x" and st: "os_step x y"
  shows "events_ok y"
  using st
proof (cases rule: os_step_cases)
  case (cpu c)
  have other: "in_event y d = in_event x d" if "d \<noteq> c" for d
    using cpu(2) that by (intro in_event_cong) (simp_all add: cpu_effect_def)
  have "supervisor y = Sup_Wait d" if "in_event y d" for d
  proof (cases "d = c")
    case True
    then show ?thesis using cpu(2) ok that by (auto simp: cpu_effect_def events_ok_def)
  next
    case False
    then have "supervisor x = Sup_Wait d" using other that ok by (simp add: events_ok_def)
    then show ?thesis using cpu(2) False by (auto simp: cpu_effect_def)
  qed
  then show ?thesis by (simp add: events_ok_def)
next
  case moves
  then show ?thesis using ok by (simp add: events_ok_def sup_moves_frame(3)[OF moves(2)])
next
  case raises
  from raises(2) show ?thesis
  proof (rule sup_raises_frame)
    fix c st
    assume a: "supervisor y = Sup_Wait c" "\<And>d. d \<noteq> c \<Longrightarrow> in_event y d = in_event x d"
    have "\<not> in_event x d" for d using ok raises(1) by (auto simp: events_ok_def)
    then show ?thesis using a unfolding events_ok_def by metis
  qed
qed

lemma lock_ok_step:
  assumes ok: "lock_ok x" and st: "os_step x y"
  shows "lock_ok y"
  using st
proof (cases rule: os_step_cases)
  case (cpu c)
  have "(\<Sum>d < cpu_count x. lock_share (threads y d)) + lock_share (threads x c)
      = (\<Sum>d < cpu_count x. lock_share (threads x d)) + lock_share (threads y c)"
    using cpu by (intro sum_one_moved) (auto simp: cpu_effect_def)
  moreover have "sup_share (supervisor y) = sup_share (supervisor x)" using cpu(2) by (auto simp: cpu_effect_def sup_share_def)
  ultimately show ?thesis using ok cpu(2) by (simp add: lock_ok_def cpu_effect_def)
next
  case moves
  then show ?thesis using ok sup_moves_frame[OF moves(2)] by (simp add: lock_ok_def)
next
  case raises
  from raises(2) show ?thesis
    by (rule sup_raises_frame) (use ok in \<open>simp add: lock_ok_def sup_share_def\<close>)
qed

lemma fifo_ok_step:
  assumes ok: "fifo_ok x" and st: "os_step x y"
  shows "fifo_ok y"
  using st
proof (cases rule: os_step_cases)
  case (cpu c)
  have "preempting y d = preempting x d" if "d \<noteq> c" for d
    using cpu(2) that by (intro preempting_cong) (simp_all add: cpu_effect_def)
  then show ?thesis using ok cpu(2) unfolding fifo_ok_def cpu_effect_def by metis
next
  case moves
  note f = sup_moves_frame[OF moves(2)]
  show ?thesis using ok f(7-9) by (auto simp: fifo_ok_def intro: le_less_trans)
next
  case raises
  from raises(2) show ?thesis
  proof (rule sup_raises_frame)
    fix c st
    assume a: "event_for x c st" "cd_state (cpu_data y c) = st" "threads y = threads x"
      "\<And>d. d \<noteq> c \<Longrightarrow> preempting y d = preempting x d" "time_slice (sch y) = time_slice (sch x)"
      "\<And>d. preemption_timer (cpu_data y d) \<le> preemption_timer (cpu_data x d)"
    have "preemption_timer (cpu_data x c) \<noteq> 1" using ok by (metis fifo_ok_def less_not_sym zero_less_one)
    then have "st \<noteq> CPU_PREEMPT" using a(1) by (auto simp: event_for_def)
    then have "\<not> preempting y c" using a(2,3) ok by (simp add: fifo_ok_def preempting_def)
    then have "\<not> preempting y d" for d using a(4)[of d] ok by (cases "d = c") (simp_all add: fifo_ok_def)
    then show ?thesis using a(5,6) ok by (auto simp: fifo_ok_def intro: le_less_trans)
  qed
qed

interpretation events: step_invariant os_step events_ok
  by unfold_locales (rule events_ok_step)

interpretation lock: step_invariant os_step lock_ok
  by unfold_locales (rule lock_ok_step)

interpretation non_preemptive: step_invariant os_step fifo_ok
  by unfold_locales (rule fifo_ok_step)

subsection \<open>The first state\<close>

text \<open>\<open>room\<close> is the number of I/O requests \<open>malloc\<close> can hold at once.\<close>

definition started :: "u32 \<Rightarrow> int \<Rightarrow> nat \<Rightarrow> os \<Rightarrow> bool" where
  "started n q room s \<longleftrightarrow> start_simulator (init_sched n q) (unat n) room = Inr s"

lemma startedD:
  assumes "started n q room s"
  shows "threads s = (\<lambda>_. At_Loop)" "supervisor s = Sup_Loop" "writers s = 0" "cpu_count s = unat n"
    "cpu_data s c = \<lparr>cd_current = None, cd_state = CPU_IDLE, preemption_timer = -1\<rparr>" "time_slice (sch s) = q"
  using assms by (auto simp: started_def start_simulator_def)

lemma started_inv:
  assumes "started n q room s"
  shows "PROCESS_COUNT \<le> room \<Longrightarrow> os_inv s" and "events_ok s" and "lock_ok s" and "q < 0 \<Longrightarrow> fifo_ok s"
proof -
  note s = startedD[OF assms]
  show "PROCESS_COUNT \<le> room \<Longrightarrow> os_inv s" using start_inv assms by (auto simp: started_def)
  show "events_ok s" using s(1) by (simp add: events_ok_def in_event_def)
  show "lock_ok s" using s(1-4) by (simp add: lock_ok_def lock_share_def sup_share_def)
  show "q < 0 \<Longrightarrow> fifo_ok s" using s(1,5,6) by (simp add: fifo_ok_def preempting_def)
qed

lemma program_reach:
  "program n q ts = Inr s \<Longrightarrow> \<exists>s0. started n q PROCESS_COUNT s0 \<and> os_step\<^sup>*\<^sup>* s0 s"
  using run_threads_reach by (auto simp: program_def started_def)

lemma idle_reach: "\<exists>s0. started 2 (-1) PROCESS_COUNT s0 \<and> os_step\<^sup>*\<^sup>* s0 idle_state"
  by (rule program_reach[OF run_to_idle])

lemma yield_reach: "\<exists>s0. started 2 (-1) PROCESS_COUNT s0 \<and> os_step\<^sup>*\<^sup>* s0 yield_state"
  using idle_reach run_threads_reach[OF run_to_yield] by (meson rtranclp_trans)

lemma lost_reach: "\<exists>s0. started 2 (-1) PROCESS_COUNT s0 \<and> os_step\<^sup>*\<^sup>* s0 lost_state"
  using yield_reach run_threads_reach[OF run_to_lost] by (meson rtranclp_trans)

subsection \<open>What holds in every reachable state\<close>

text \<open>C6: Whatever the order of the threads, none of them ever dereferences a bad pointer, leaves an array, fails an assertion of
  \<open>context_switch\<close> or runs out of memory for I/O requests, given memory for one request per process.\<close>

theorem simulator_never_faults:
  assumes "started n q room s0" and "PROCESS_COUNT \<le> room" and "os_step\<^sup>*\<^sup>* s0 s"
  shows "\<exists>r. thread_step t s = Inr r"
proof -
  have "os_inv s" using work.reachable[OF assms(3)] started_inv(1)[OF assms(1,2)] by blast
  from thread_step_ok[OF this] show ?thesis by blast
qed

theorem simulator_never_faults_witness: "\<exists>r. thread_step (Cpu 0) yield_state = Inr r"
  using yield_reach simulator_never_faults[of 2 "-1" PROCESS_COUNT _ yield_state "Cpu 0"] by blast





lemma lock_count:
  assumes "started n q room s0" and "os_step\<^sup>*\<^sup>* s0 s"
  shows "writers s = (\<Sum>c < cpu_count s. lock_share (threads s c)) + sup_share (supervisor s)"
  using lock.reachable[OF assms(2) started_inv(3)[OF assms(1)]] by (simp add: lock_ok_def)

lemma gantt_not_blocked:
  assumes "started n q room s0" and "os_step\<^sup>*\<^sup>* s0 s" and "supervisor s = Sup_Gantt"
  shows "writers s \<le> 0"
proof -
  have "events_ok s" using events.reachable[OF assms(2) started_inv(2)[OF assms(1)]] .
  then have no_event: "\<not> in_event s c" for c using assms(3) by (auto simp: events_ok_def)
  have "lock_share (threads s c) \<le> 0" for c
    using no_event[of c] by (cases "threads s c") (simp_all add: in_event_def lock_share_def)
  then have "(\<Sum>c < cpu_count s. lock_share (threads s c)) \<le> 0" by (simp add: sum_nonpos)
  then show ?thesis using lock_count[OF assms(1,2)] assms(3) by (simp add: sup_share_def)
qed

text \<open>C28: The count of writers is exactly what the threads have taken: one for each thread in an event callback or in
  \<open>wake_up\<close>, and minus one for each CPU between the two halves of a \<open>context_switch\<close> called from \<open>idle\<close>, which gives back
  a lock it does not hold. When the supervisor is about to print, the count is at most 0, so it never waits for writers.\<close>

theorem writers_are_counted:
  assumes "started n q room s0" and "os_step\<^sup>*\<^sup>* s0 s"
  shows "writers s = (\<Sum>c < cpu_count s. lock_share (threads s c)) + sup_share (supervisor s)
    \<and> (supervisor s = Sup_Gantt \<longrightarrow> writers s \<le> 0 \<and> sup_step s \<noteq> Inr None)"
  using lock_count[OF assms] gantt_not_blocked[OF assms] by (auto simp: sup_step_def)

theorem writers_are_counted_witness:
  "writers idle_state = (\<Sum>c < 2. lock_share (threads idle_state c)) \<and> writers idle_state = -1"
proof -
  have s: "writers idle_state = -1" "cpu_count idle_state = 2" "supervisor idle_state = Sup_Loop"
    by (simp_all add: idle_state_def)
  then show ?thesis
    using idle_reach writers_are_counted[of 2 "-1" PROCESS_COUNT _ idle_state] by (auto simp: sup_share_def)
qed

text \<open>C30: With FIFO scheduling no CPU is ever told to preempt its process, and none runs \<open>preempt\<close>.\<close>

theorem fifo_never_preempts:
  assumes "started n q room s0" and "q < 0" and "os_step\<^sup>*\<^sup>* s0 s"
  shows "\<not> preempting s c"
  using non_preemptive.reachable[OF assms(3) started_inv(4)[OF assms(1,2)]] by (simp add: fifo_ok_def)

theorem fifo_never_preempts_witness: "\<not> preempting yield_state 0"
  using yield_reach fifo_never_preempts[of 2 "-1" PROCESS_COUNT _ yield_state 0] by auto

text \<open>C18: In every reachable state the I/O queue holds exactly the processes whose current operation is an I/O operation, each
  once; every process is at one of its operations, which alternate between CPU and I/O and end with \<open>OP_TERMINATE\<close>.\<close>

theorem io_queue_is_exact:
  assumes "started n q room s0" and "PROCESS_COUNT \<le> room" and "os_step\<^sup>*\<^sup>* s0 s"
  shows "(\<exists>ps. io_items s ps \<and> distinct ps
      \<and> (\<forall>p. p \<in> set ps \<longleftrightarrow> p < PROCESS_COUNT \<and> op_kind (operations s p ! os_pc (tasks (sch s) p)) = OP_IO))
    \<and> (\<forall>p < PROCESS_COUNT. alternating (operations s p) \<and> os_pc (tasks (sch s) p) < length (operations s p))"
proof -
  have inv: "os_inv s" using work.reachable[OF assms(3)] started_inv(1)[OF assms(1,2)] by blast
  then obtain ps where ps: "io_items s ps" "set ps = {p. p < PROCESS_COUNT \<and> op_now s p = OP_IO}"
    by (auto simp: os_inv_def io_ok_def)
  have "distinct ps" using ps(1) by (auto simp: io_items_def io_list_def)
  with ps inv show ?thesis by (auto simp: os_inv_def ops_ok_def op_now_def)
qed

theorem io_queue_is_exact_witness: "\<exists>ps. io_items yield_state ps \<and> 0 \<in> set ps"
proof -
  have "op_kind (operations yield_state 0 ! os_pc (tasks (sch yield_state) 0)) = OP_IO"
    by (simp add: yield_state_def idle_state_def pid0_ops_nth)
  then show ?thesis
    using yield_reach io_queue_is_exact[of 2 "-1" PROCESS_COUNT _ yield_state] by (fastforce simp: PROCESS_COUNT_def)
qed

text \<open>The I/O queue is first in, first out: processes that submit requests come out after those already there, in order,
  whatever the execution times, and \<open>malloc\<close> and \<open>free\<close> of the requests never go wrong.\<close>

lemma io_queue_fifo:
  assumes "io_items s ps" and "distinct qs" and "set qs \<subseteq> not_in_io s"
  shows "\<exists>s'. bindE (foldE (submit_io_request t) s qs) (get_n remove_io_request (length ps + length qs))
      = Inr (map Some (ps @ qs), s') \<and> io_items s' []"
  using assms by (rule ioq.first_in_first_out)

lemma io_queue_fifo_example:
  "\<exists>s s' n. io_items s [] \<and> bindE (foldE (submit_io_request 3) s [5, 2]) (get_n remove_io_request n)
      = Inr (map Some [5, 2], s')"
proof -
  have items: "io_items idle_state []"
    by (simp add: idle_state_def io_items_def io_list_def fifo_def heap_ok_def PROCESS_COUNT_def)
  have "set [5, 2] \<subseteq> not_in_io idle_state" by (simp add: not_in_io_eq[OF items] PROCESS_COUNT_def)
  from io_queue_fifo[OF items _ this, of 3] items show ?thesis by (metis append_Nil distinct_length_2_or_more distinct_singleton numeral_eq_iff semiring_norm(88))
qed

subsection \<open>CPU time\<close>

lemma started_left: "started n q room s \<Longrightarrow> total_left s = 666"
proof -
  assume "started n q room s"
  then have s: "operations s = initial_operations" "tasks (sch s) = initial_process"
    by (auto simp: started_def start_simulator_def init_sched_def)
  have "cpu_left s p = (\<Sum>op \<leftarrow> operation_table ! p. burst_cost op)" if "p < PROCESS_COUNT" for p
    using s process_table_new[OF that] by (simp add: cpu_left_def initial_operations_def)
  then have "total_left s = (\<Sum>p < PROCESS_COUNT. \<Sum>op \<leftarrow> operation_table ! p. burst_cost op)"
    by (simp add: total_left_def)
  also have "\<dots> = 666"
    by (simp add: PROCESS_COUNT_def lessThan_nat_numeral lessThan_Suc operation_table_def pid0_ops_def pid1_ops_def
        pid2_ops_def pid3_ops_def pid4_ops_def pid5_ops_def pid6_ops_def pid7_ops_def cpu_op_def io_op_def
        terminate_op_def burst_cost_def)
  finally show ?thesis .
qed

text \<open>C19: No order of the threads makes the program execute more CPU intervals than its processes ask for: in every run
  the intervals executed so far and those still to do add up to the 666 of the process table, whichever CPUs
  they ran on and however often processes were preempted.\<close>

theorem cpu_time_is_accounted:
  assumes "started n q room s0" and "PROCESS_COUNT \<le> room" and "run_threads ts s0 = Inr s"
  shows "executed ts s0 + total_left s = 666"
  using executed_left[OF started_inv(1)[OF assms(1,2)] assms(3)] started_left[OF assms(1)] by simp

theorem cpu_time_is_accounted_witness: "\<exists>s0. executed idle_run s0 + total_left idle_state = 666"
proof -
  obtain s0 where "started 2 (-1) PROCESS_COUNT s0" "run_threads idle_run s0 = Inr idle_state"
    using run_to_idle by (auto simp: program_def started_def)
  from cpu_time_is_accounted[OF this(1) _ this(2)] show ?thesis by blast
qed

subsection \<open>Lost events\<close>

text \<open>An event that the supervisor raises for a CPU whose thread has not yet blocked is lost: the thread
  finishes \<open>context_switch\<close>, overwrites the state with \<open>CPU_RUNNING\<close> at the top of its loop, wakes the supervisor up as
  if the scheduler had run, and blocks; the scheduler has not been called and still has the process on the CPU.\<close>

lemma late_event_is_lost:
  assumes "supervisor s = Sup_Wait c" and "threads s c = Switch_Lock False" and "c < cpu_count s"
    and "cd_current (cpu_data s c) = Some p"
  shows "\<exists>s'. run_threads [Cpu c, Cpu c] s = Inr s' \<and> cd_state (cpu_data s' c) = CPU_RUNNING
    \<and> threads s' c = Blocked \<and> supervisor s' = Sup_Woken c \<and> sch s' = sch s \<and> cd_current (cpu_data s' c) = Some p"
  using assms
  by (simp add: thread_step_def cpu_step_def goto_def mutex_free_def loop_top_def Let_def sup_goto_def set_cpu_state_def)

lemma late_event_is_lost_example:
  "\<exists>s'. run_threads [Cpu 0, Cpu 0] yield_state = Inr s' \<and> cd_state (cpu_data yield_state 0) = CPU_YIELD
    \<and> cd_state (cpu_data s' 0) = CPU_RUNNING"
proof -
  have "supervisor yield_state = Sup_Wait 0" "threads yield_state 0 = Switch_Lock False" "0 < cpu_count yield_state"
    "cd_current (cpu_data yield_state 0) = Some 0" "cd_state (cpu_data yield_state 0) = CPU_YIELD"
    by (simp_all add: yield_state_def idle_state_def)
  with late_event_is_lost[of yield_state 0 0] show ?thesis by blast
qed

text \<open>C20: As a consequence two CPUs can run the same process: a run of the program with two CPUs and FIFO scheduling
  reaches a state where the scheduler has process 0 on both.\<close>

theorem process_on_two_cpus:
  "\<exists>s0 s. started 2 (-1) PROCESS_COUNT s0 \<and> os_step\<^sup>*\<^sup>* s0 s \<and> current (sch s) 0 = Some 0 \<and> current (sch s) 1 = Some 0"
proof -
  obtain s where s: "run_threads (replicate 22 Supervisor @ replicate 5 (Cpu 1)) lost_state = Inr s"
    "current (sch s) 0 = Some 0" "current (sch s) 1 = Some 0"
    using run_from_lost by blast
  with lost_reach run_threads_reach[OF s(1)] show ?thesis by (meson rtranclp_trans)
qed

end
