(* ===== verification/Os_Progress.thy ===== *)
theory Os_Progress
  imports Os_Correct
begin

text \<open>
  The supervisor waits after each event. That it does not wait for ever: the CPU it waits for is
  never in \<open>idle\<close> or blocked without an event, so it gets back to the top of its loop on its own.
\<close>

subsection \<open>The CPU the supervisor waits for\<close>

definition cpu_ok :: "os \<Rightarrow> nat \<Rightarrow> bool" where
  "cpu_ok s c \<longleftrightarrow> (case threads s c of
     Blocked \<Rightarrow> cd_state (cpu_data s c) \<noteq> CPU_IDLE
   | Dispatch st \<Rightarrow> st \<noteq> CPU_RUNNING \<and> (st = CPU_IDLE \<longrightarrow> cd_current (cpu_data s c) = None)
   | Lock_Writer pc \<Rightarrow> pc \<noteq> Idle_Wait
   | In_Callback w pc \<Rightarrow> if w then pc \<noteq> Idle_Wait else cd_current (cpu_data s c) = None
   | _ \<Rightarrow> True)"

definition responsive :: "os \<Rightarrow> nat \<Rightarrow> bool" where
  "responsive s c \<longleftrightarrow> (case threads s c of
     Blocked \<Rightarrow> cd_state (cpu_data s c) \<noteq> CPU_RUNNING
   | Dispatch st \<Rightarrow> st \<noteq> CPU_IDLE
   | In_Callback w pc \<Rightarrow> w
   | _ \<Rightarrow> True)"

definition wait_ok :: "os \<Rightarrow> bool" where
  "wait_ok s \<longleftrightarrow> (\<forall>c. cpu_ok s c) \<and> (\<forall>c. supervisor s = Sup_Wait c \<longrightarrow> c < cpu_count s \<and> responsive s c)"

lemma wait_ok_cong:
  assumes "threads s' c = threads s c" "cd_state (cpu_data s' c) = cd_state (cpu_data s c)"
    "cd_current (cpu_data s' c) = cd_current (cpu_data s c)"
  shows "cpu_ok s' c = cpu_ok s c" "responsive s' c = responsive s c"
  using assms by (simp_all add: cpu_ok_def responsive_def split: cpu_pc.split)

lemma callback_not_idle: "callback_step c pc s = Inr (pc', s') \<Longrightarrow> pc \<noteq> Idle_Wait \<Longrightarrow> pc' \<noteq> Idle_Wait"
  by (cases pc) (auto simp: callback_step_def split: option.splits)

text \<open>A step of the thread itself.\<close>

lemma cpu_step_wait:
  assumes st: "cpu_step c s = Inr (Some s')" and ok: "cpu_ok s c"
  shows "cpu_ok s' c" and "responsive s c \<Longrightarrow> supervisor s' = Sup_Wait c \<Longrightarrow> responsive s' c"
proof -
  have live: "supervisor s \<noteq> Sup_Exit" using st by (auto simp: cpu_step_def)
  have "cpu_ok s' c \<and> (responsive s c \<longrightarrow> supervisor s' = Sup_Wait c \<longrightarrow> responsive s' c)"
  proof (cases "threads s c")
    case At_Loop
    then show ?thesis
      using st live
      by (auto simp: cpu_step_def loop_top_def Let_def cpu_ok_def responsive_def goto_def sup_goto_def set_cpu_state_def split: if_splits)
  next
    case (Dispatch e)
    then show ?thesis
      using st live ok by (cases e) (auto simp: cpu_step_def dispatch_def cpu_ok_def responsive_def goto_def split: if_splits)
  next
    case (In_Callback w pc)
    show ?thesis
    proof (cases "\<exists>p. pc = Call_Switch p")
      case True
      then show ?thesis
        using st live In_Callback by (auto simp: cpu_step_def os_context_switch_def cpu_ok_def responsive_def goto_def)
    next
      case False
      then obtain pc' sc where sc: "callback_step c pc (sch s) = Inr (pc', sc)" "s' = goto (s\<lparr>sch := sc\<rparr>) c (In_Callback w pc')"
        using st live In_Callback by (cases pc) (auto simp: cpu_step_def)
      then show ?thesis
        using ok In_Callback callback_not_idle[OF sc(1)] by (auto simp: cpu_ok_def responsive_def goto_def)
    qed
  qed (use st live ok in \<open>auto simp: cpu_step_def cpu_ok_def responsive_def goto_def split: if_splits\<close>)
  then show "cpu_ok s' c" "responsive s c \<Longrightarrow> supervisor s' = Sup_Wait c \<Longrightarrow> responsive s' c" by blast+
qed

lemma wait_ok_step:
  assumes ok: "wait_ok x" and st: "os_step x y"
  shows "wait_ok y"
proof -
  from st obtain t where t: "thread_step t x = Inr (Some y)" by (auto elim: os_stepE)
  show ?thesis
  proof (cases t)
    case (Cpu c)
    then have c: "c < cpu_count x" "cpu_step c x = Inr (Some y)"
      using t by (auto simp: thread_step_def split: if_splits)
    note e = cpu_step_effect[OF c(2), unfolded cpu_effect_def]
    note own = cpu_step_wait[OF c(2)]
    have other: "cpu_ok y d = cpu_ok x d" "responsive y d = responsive x d" if "d \<noteq> c" for d
    proof -
      have "threads y d = threads x d" "cpu_data y d = cpu_data x d" using e that by simp_all
      then show "cpu_ok y d = cpu_ok x d" "responsive y d = responsive x d" by (intro wait_ok_cong; simp)+
    qed
    have "cpu_ok y d" for d using own(1) other(1)[of d] ok by (cases "d = c") (auto simp: wait_ok_def)
    moreover have "d < cpu_count y \<and> responsive y d" if d: "supervisor y = Sup_Wait d" for d
    proof -
      have "supervisor x = Sup_Wait d" using e d by auto
      then have "d < cpu_count x" "responsive x d" using ok by (simp_all add: wait_ok_def)
      then show ?thesis using own(2) other(2)[of d] ok d e by (cases "d = c") (auto simp: wait_ok_def)
    qed
    ultimately show ?thesis by (simp add: wait_ok_def)
  next
    case Supervisor
    then have "sup_step x = Inr (Some y)" using t by (simp add: thread_step_def)
    from sup_step_effect(1)[OF this] show ?thesis
    proof
      assume "sup_moves x y"
      note f = sup_moves_frame[OF this]
      have "cpu_ok y d = cpu_ok x d" for d using f by (intro wait_ok_cong) simp_all
      then show ?thesis using ok f(6) by (simp add: wait_ok_def)
    next
      assume "sup_raises x y"
      then show ?thesis
      proof (rule sup_raises_frame)
        fix c st
        assume a: "supervisor y = Sup_Wait c" "event_for x c st" "c < cpu_count x" "cd_current (cpu_data x c) \<noteq> None"
          "\<And>d. cd_current (cpu_data y d) = cd_current (cpu_data x d)"
          "\<And>d. d \<noteq> c \<Longrightarrow> cd_state (cpu_data y d) = cd_state (cpu_data x d)"
          "cd_state (cpu_data y c) = st" "threads y = threads x" "cpu_count y = cpu_count x"
        have st: "st \<noteq> CPU_IDLE" "st \<noteq> CPU_RUNNING" using a(2) by (auto simp: event_for_def)
        have "cpu_ok y d" for d
        proof (cases "d = c")
          case True
          have "cpu_ok x c" using ok by (simp add: wait_ok_def)
          then show ?thesis using True a(5,7,8) st by (simp add: cpu_ok_def split: cpu_pc.splits)
        next
          case False
          then have "cpu_ok y d = cpu_ok x d" using a(5,6,8) by (intro wait_ok_cong) simp_all
          then show ?thesis using ok by (simp add: wait_ok_def)
        qed
        moreover have "responsive y c"
        proof -
          have "cpu_ok x c" using ok by (simp add: wait_ok_def)
          then show ?thesis using a(4,7,8) st by (auto simp: cpu_ok_def responsive_def split: cpu_pc.splits if_splits)
        qed
        ultimately show ?thesis using a(1,3,9) by (simp add: wait_ok_def)
      qed
    qed
  qed
qed

interpretation waiting: step_invariant os_step wait_ok
  by unfold_locales (rule wait_ok_step)

lemma started_wait: "started n q room s \<Longrightarrow> wait_ok s"
  using startedD[of n q room s] by (simp add: wait_ok_def cpu_ok_def)

subsection \<open>It responds\<close>

text \<open>An upper bound of the steps of the CPU thread that the supervisor waits for, up to the top of its loop.\<close>

definition steps_to_top :: "cpu_pc \<Rightarrow> nat" where
  "steps_to_top t = (case t of
     At_Loop \<Rightarrow> 1
   | Unlock_Writer \<Rightarrow> 2
   | Switch_Lock w \<Rightarrow> 3
   | Switch_Set w p \<Rightarrow> 4
   | In_Callback w pc \<Rightarrow> (case pc of
       Call_Switch p \<Rightarrow> 5 | Install p \<Rightarrow> 6 | Pick \<Rightarrow> 7 | Preempt_Put p \<Rightarrow> 8 | Yield_Mark \<Rightarrow> 8 | Terminate_Mark \<Rightarrow> 8 | _ \<Rightarrow> 9)
   | Lock_Writer pc \<Rightarrow> 10
   | Dispatch st \<Rightarrow> 11
   | Blocked \<Rightarrow> 12)"

lemma steps_to_top_le: "0 < steps_to_top t" "steps_to_top t \<le> 12"
  by (simp_all add: steps_to_top_def split: cpu_pc.split callback_pc.split)

lemma callback_steps:
  "callback_step c pc s = Inr (pc', s') \<Longrightarrow> pc \<noteq> Idle_Wait \<Longrightarrow> \<forall>p. pc \<noteq> Call_Switch p \<Longrightarrow>
    steps_to_top (In_Callback w pc') < steps_to_top (In_Callback w pc)"
  by (cases pc) (auto simp: callback_step_def steps_to_top_def split: option.splits)

text \<open>The thread has a step, and with each it is nearer to the top of its loop, where it wakes the supervisor up.\<close>

lemma responsive_step:
  assumes inv: "os_inv s" and ok: "wait_ok s" and wait: "supervisor s = Sup_Wait c"
  shows "\<exists>s'. thread_step (Cpu c) s = Inr (Some s') \<and> os_step s s' \<and>
    (supervisor s' = Sup_Woken c \<or> supervisor s' = Sup_Wait c \<and> steps_to_top (threads s' c) < steps_to_top (threads s c))"
proof -
  have c: "c < cpu_count s" "responsive s c" "cpu_ok s c" using ok wait by (simp_all add: wait_ok_def)
  have free: "mutex_free s" using wait by (simp add: mutex_free_def)
  have "\<exists>s'. cpu_step c s = Inr (Some s') \<and>
      (supervisor s' = Sup_Woken c \<or> supervisor s' = Sup_Wait c \<and> steps_to_top (threads s' c) < steps_to_top (threads s c))"
  proof (cases "threads s c")
    case At_Loop
    then show ?thesis
      using wait free by (simp add: cpu_step_def loop_top_def Let_def goto_def sup_goto_def set_cpu_state_def)
  next
    case Blocked
    then show ?thesis using wait free c(2) by (simp add: cpu_step_def responsive_def steps_to_top_def)
  next
    case (Dispatch st)
    then show ?thesis
      using wait free c(2,3)
      by (cases st) (simp_all add: cpu_step_def dispatch_def responsive_def cpu_ok_def steps_to_top_def)
  next
    case (In_Callback w pc)
    then have pc: "w" "pc \<noteq> Idle_Wait" using c(2,3) by (auto simp: responsive_def cpu_ok_def)
    show ?thesis
    proof (cases "\<exists>p. pc = Call_Switch p")
      case True
      then obtain p where p: "pc = Call_Switch p" by blast
      have "\<exists>r. cpu_step c s = Inr r" using cpu_step_ok[OF inv c(1)] by blast
      then obtain s' where "os_context_switch c w p s = Inr s'" using In_Callback p wait by (auto simp: cpu_step_def)
      then show ?thesis using In_Callback p wait
        by (auto simp: cpu_step_def os_context_switch_def steps_to_top_def)
    next
      case False
      have "thread_ok (threads s c)" using inv by (simp add: os_inv_def)
      then have "callback_range pc" using In_Callback by (simp add: thread_ok_def)
      then obtain pc' sc where sc: "callback_step c pc (sch s) = Inr (pc', sc)"
        using callback_step_range[of "sch s" c pc] inv c(1) by (auto simp: os_inv_def)
      then have "cpu_step c s = Inr (Some (goto (s\<lparr>sch := sc\<rparr>) c (In_Callback w pc')))"
        using In_Callback False wait by (cases pc) (simp_all add: cpu_step_def)
      then show ?thesis
        using callback_steps[OF sc pc(2)] False In_Callback wait by (simp add: goto_def)
    qed
  qed (use wait free in \<open>auto simp: cpu_step_def steps_to_top_def split: callback_pc.split\<close>)
  moreover have "thread_step (Cpu c) s = cpu_step c s" using c(1) by (simp add: thread_step_def)
  ultimately show ?thesis using os_step.intros[of "Cpu c" s] by metis
qed

lemma responds:
  "os_inv s \<Longrightarrow> wait_ok s \<Longrightarrow> supervisor s = Sup_Wait c \<Longrightarrow>
    \<exists>k s'. k \<le> steps_to_top (threads s c) \<and> run_threads (replicate k (Cpu c)) s = Inr s' \<and> supervisor s' = Sup_Woken c"
proof (induction "steps_to_top (threads s c)" arbitrary: s rule: less_induct)
  case less
  obtain s1 where s1: "thread_step (Cpu c) s = Inr (Some s1)" "os_step s s1"
    "supervisor s1 = Sup_Woken c \<or> supervisor s1 = Sup_Wait c \<and> steps_to_top (threads s1 c) < steps_to_top (threads s c)"
    using responsive_step[OF less.prems] by blast
  show ?case
  proof (cases "supervisor s1 = Sup_Woken c")
    case True
    then show ?thesis
      using s1(1) steps_to_top_le(1)[of "threads s c"] by (intro exI[of _ 1] exI[of _ s1]) simp
  next
    case False
    then have s1': "supervisor s1 = Sup_Wait c" "steps_to_top (threads s1 c) < steps_to_top (threads s c)" using s1(3) by auto
    from less.hyps[OF s1'(2) os_step_inv[OF less.prems(1) s1(2)] wait_ok_step[OF less.prems(2) s1(2)] s1'(1)]
    obtain k s' where "k \<le> steps_to_top (threads s1 c)" "run_threads (replicate k (Cpu c)) s1 = Inr s'" "supervisor s' = Sup_Woken c"
      by blast
    then show ?thesis using s1(1) s1'(2) by (intro exI[of _ "Suc k"] exI[of _ s']) simp
  qed
qed

text \<open>C17: The simulator never deadlocks: until all processes have terminated the supervisor can take its next step, or it waits
  for a CPU, and then at most twelve steps of that CPU's thread alone wake it up, even if an event has been lost before.\<close>

theorem supervisor_is_released:
  assumes "started n q room s0" and "PROCESS_COUNT \<le> room" and "os_step\<^sup>*\<^sup>* s0 s" and "supervisor s \<noteq> Sup_Exit"
  shows "(\<exists>s'. thread_step Supervisor s = Inr (Some s'))
    \<or> (\<exists>c < cpu_count s. \<exists>k \<le> 12. \<exists>s'. supervisor s = Sup_Wait c \<and> run_threads (replicate k (Cpu c)) s = Inr s' \<and> supervisor s' = Sup_Woken c)"
proof -
  have inv: "os_inv s" using work.reachable[OF assms(3)] started_inv(1)[OF assms(1,2)] by blast
  have ok: "wait_ok s" using waiting.reachable[OF assms(3) started_wait[OF assms(1)]] .
  have print: "writers s \<le> 0" if "supervisor s = Sup_Gantt"
    using gantt_not_blocked[OF assms(1,3) that] .
  show ?thesis
  proof (cases "\<exists>c. supervisor s = Sup_Wait c")
    case True
    then obtain c where c: "supervisor s = Sup_Wait c" by blast
    from responds[OF inv ok c] obtain k s' where "k \<le> steps_to_top (threads s c)"
      "run_threads (replicate k (Cpu c)) s = Inr s'" "supervisor s' = Sup_Woken c"
      by blast
    moreover have "c < cpu_count s" using ok c by (simp add: wait_ok_def)
    ultimately show ?thesis using c steps_to_top_le(2)[of "threads s c"] by (meson order_trans)
  next
    case False
    obtain r where r: "sup_step s = Inr r" using sup_step_ok[OF inv] by blast
    have "r \<noteq> None" using r False assms(4) print by (cases "supervisor s") (auto simp: sup_step_def)
    then show ?thesis using r by (auto simp: thread_step_def)
  qed
qed

theorem supervisor_is_released_witness:
  "\<exists>k \<le> 12. \<exists>s'. run_threads (replicate k (Cpu 0)) yield_state = Inr s' \<and> supervisor s' = Sup_Woken 0"
proof -
  have s: "supervisor yield_state = Sup_Wait 0" by (simp add: yield_state_def)
  then have "\<nexists>s'. thread_step Supervisor yield_state = Inr (Some s')" by (simp add: thread_step_def sup_step_def)
  then show ?thesis
    using yield_reach supervisor_is_released[of 2 "-1" PROCESS_COUNT _ yield_state] s by fastforce
qed

end
