(* ===== verification/Os_Contract.thy ===== *)
theory Os_Contract
  imports Os_Progress
begin

text \<open>
  The simulator as a client of the scheduler, part 1: the CPU threads. As long as the supervisor does not overtake a CPU
  thread that is still on its way back from \<open>context_switch\<close>, its steps are steps of the scheduler's contract
  (\<open>Sched_Threads\<close>), so what the scheduler promises holds for the whole program.
\<close>

subsection \<open>What a critical section changes\<close>

definition mark_event :: "callback_pc \<Rightarrow> simulator_cpu_state_t option" where
  "mark_event pc = (case pc of Preempt_Take \<Rightarrow> Some CPU_PREEMPT | Yield_Mark \<Rightarrow> Some CPU_YIELD
     | Terminate_Mark \<Rightarrow> Some CPU_TERMINATE | _ \<Rightarrow> None)"

text \<open>The new state of process \<open>q\<close>.\<close>

definition callback_state :: "nat \<Rightarrow> callback_pc \<Rightarrow> sched \<Rightarrow> nat \<Rightarrow> process_state_t" where
  "callback_state c pc s q = (case pc of
     Preempt_Put p \<Rightarrow> if q = p then PROCESS_READY else os_state (tasks s q)
   | Install p \<Rightarrow> if p = Some q then PROCESS_RUNNING else os_state (tasks s q)
   | Yield_Mark \<Rightarrow> if current s c = Some q then PROCESS_WAITING else os_state (tasks s q)
   | Terminate_Mark \<Rightarrow> if current s c = Some q then PROCESS_TERMINATED else os_state (tasks s q)
   | _ \<Rightarrow> os_state (tasks s q))"

lemma set_task_current: "set_task s p t = Inr s' \<Longrightarrow> current s' = current s"
  by (auto simp: set_task_def split: if_splits)

lemma set_state_effect:
  "set_state s p st = Inr s' \<Longrightarrow> current s' = current s \<and> os_state (tasks s' q) = (if q = p then st else os_state (tasks s q))"
  by (auto simp: set_state_def get_task_def set_task_def split: if_splits)

lemma enqueue_effect:
  "enqueue_process s p = Inr s' \<Longrightarrow> current s' = current s \<and> os_state (tasks s' q) = os_state (tasks s q)"
  by (auto simp: enqueue_process_def get_task_def set_task_def split: option.splits if_splits)

lemma dequeue_effect:
  "dequeue_process s = Inr (p, s') \<Longrightarrow> current s' = current s \<and> os_state (tasks s' q) = os_state (tasks s q)"
  by (auto simp: dequeue_process_def get_task_def set_task_def Let_def split: option.splits if_splits)

lemma make_ready_effect:
  "make_ready p s = Inr s' \<Longrightarrow>
    current s' = current s \<and> os_state (tasks s' q) = (if q = p then PROCESS_READY else os_state (tasks s q))"
  using set_state_effect enqueue_effect by (fastforce simp: make_ready_def)

lemma retire_effect:
  assumes "retire_current st c s = Inr s'"
  shows "current s' = (current s)(c := None)
    \<and> os_state (tasks s' q) = (if current s c = Some q then st else os_state (tasks s q))"
proof (cases "current s c")
  case None
  then show ?thesis using assms by (auto simp: retire_current_def get_current_def fun_eq_iff split: if_splits)
next
  case (Some p)
  then obtain s1 where s1: "set_state s p st = Inr s1" "set_current s1 c None = Inr s'"
    using assms by (auto simp: retire_current_def get_current_def split: if_splits)
  then show ?thesis using set_state_effect[OF s1(1), of q] Some by (auto simp: set_current_def split: if_splits)
qed

lemma install_effect:
  assumes "install_next c r s = Inr s'"
  shows "current s' = (current s)(c := r)
    \<and> os_state (tasks s' q) = (if r = Some q then PROCESS_RUNNING else os_state (tasks s q))"
proof (cases r)
  case None
  then show ?thesis using assms by (auto simp: install_next_def set_current_def split: if_splits)
next
  case (Some p)
  then have "set_state (s\<lparr>current := (current s)(c := r)\<rparr>) p PROCESS_RUNNING = Inr s'"
    using assms by (auto simp: install_next_def set_current_def split: if_splits)
  from set_state_effect[OF this, of q] Some show ?thesis by auto
qed

lemma callback_effect:
  assumes st: "callback_step c pc s = Inr (pc', s')"
  shows "d \<noteq> c \<Longrightarrow> current s' d = current s d" and "os_state (tasks s' q) = callback_state c pc s q"
    and "mark_event pc' = None"
    and "pc' = Call_Switch p \<Longrightarrow> pc = Call_Switch p \<or> current s' c = p"
proof -
  have "(d \<noteq> c \<longrightarrow> current s' d = current s d) \<and> os_state (tasks s' q) = callback_state c pc s q
      \<and> mark_event pc' = None \<and> (pc' = Call_Switch p \<longrightarrow> pc = Call_Switch p \<or> current s' c = p)" for d q p
  proof (cases pc)
    case Preempt_Take
    then show ?thesis
      using st by (auto simp: callback_step_def take_current_def get_current_def set_current_def callback_state_def
          mark_event_def split: option.splits if_splits)
  next
    case (Preempt_Put r)
    then show ?thesis
      using st make_ready_effect[of r s s'] by (auto simp: callback_step_def callback_state_def mark_event_def)
  next
    case Yield_Mark
    then show ?thesis
      using st retire_effect[of PROCESS_WAITING c s s'] by (auto simp: callback_step_def callback_state_def mark_event_def)
  next
    case Terminate_Mark
    then show ?thesis
      using st retire_effect[of PROCESS_TERMINATED c s s'] by (auto simp: callback_step_def callback_state_def mark_event_def)
  next
    case Pick
    then show ?thesis
      using st dequeue_effect[of s _ s'] by (auto simp: callback_step_def callback_state_def mark_event_def)
  next
    case (Install r)
    then show ?thesis
      using st install_effect[of c r s s'] by (auto simp: callback_step_def callback_state_def mark_event_def)
  qed (use st in \<open>auto simp: callback_step_def callback_state_def mark_event_def split: if_splits\<close>)
  then show "d \<noteq> c \<Longrightarrow> current s' d = current s d" "os_state (tasks s' q) = callback_state c pc s q" "mark_event pc' = None"
    "pc' = Call_Switch p \<Longrightarrow> pc = Call_Switch p \<or> current s' c = p"
    by blast+
qed

subsection \<open>The simulator as a client\<close>

definition callback_of :: "cpu_pc \<Rightarrow> callback_pc option" where
  "callback_of t = (case t of In_Callback w pc \<Rightarrow> Some pc | _ \<Rightarrow> None)"

definition contract_view :: "os \<Rightarrow> sched_conf" where
  "contract_view s = (sch s, \<lambda>c. callback_of (threads s c))"

text \<open>
  The supervisor simulates a process only once the thread of its CPU is back at its condition variable. The code does
  not wait for that: it relies on the threads to be faster than the supervisor's \<open>mt_safe_usleep\<close>.
\<close>

definition prompt :: "os \<Rightarrow> bool" where
  "prompt s \<longleftrightarrow> (case supervisor s of
     Sup_Cpus n \<Rightarrow> n < cpu_count s \<and> cd_current (cpu_data s n) \<noteq> None \<longrightarrow> threads s n = Blocked
   | _ \<Rightarrow> True)"

inductive prompt_step :: "os \<Rightarrow> os \<Rightarrow> bool" where
  "thread_step t s = Inr (Some s') \<Longrightarrow> (t = Supervisor \<Longrightarrow> prompt s) \<Longrightarrow> prompt_step s s'"

inductive_cases prompt_stepE: "prompt_step s s'"

lemma prompt_os_step: "prompt_step s s' \<Longrightarrow> os_step s s'"
  by (auto elim!: prompt_stepE intro: os_step.intros)

text \<open>
  The event of CPU \<open>c\<close> until its callback has taken the process off the CPU, and the operation the process is at
  then.
\<close>

definition event_of :: "os \<Rightarrow> nat \<Rightarrow> simulator_cpu_state_t option" where
  "event_of s c = (case threads s c of
     Blocked \<Rightarrow> if cd_state (cpu_data s c) = CPU_RUNNING then None else Some (cd_state (cpu_data s c))
   | Dispatch st \<Rightarrow> if st = CPU_IDLE then None else Some st
   | Lock_Writer pc \<Rightarrow> mark_event pc
   | In_Callback w pc \<Rightarrow> mark_event pc
   | _ \<Rightarrow> None)"

definition event_op :: "simulator_cpu_state_t \<Rightarrow> op_type" where
  "event_op e = (case e of CPU_YIELD \<Rightarrow> OP_IO | CPU_TERMINATE \<Rightarrow> OP_TERMINATE | _ \<Rightarrow> OP_CPU)"

definition event_link :: "os \<Rightarrow> nat \<Rightarrow> bool" where
  "event_link s c \<longleftrightarrow> (case event_of s c of None \<Rightarrow> True
     | Some e \<Rightarrow> (case current (sch s) c of None \<Rightarrow> False | Some p \<Rightarrow> op_now s p = event_op e))"

text \<open>The simulator and the scheduler agree on the process of a CPU, except while a callback changes it.\<close>

definition cpu_link :: "os \<Rightarrow> nat \<Rightarrow> bool" where
  "cpu_link s c \<longleftrightarrow> (case threads s c of
     In_Callback w pc \<Rightarrow> (mark_event pc \<noteq> None \<longrightarrow> w \<and> current (sch s) c = cd_current (cpu_data s c))
       \<and> (preempt_pc pc \<longrightarrow> w)
       \<and> (case pc of Call_Switch p \<Rightarrow> current (sch s) c = p | _ \<Rightarrow> True)
   | Switch_Set w p \<Rightarrow> current (sch s) c = p
   | Lock_Writer pc \<Rightarrow> mark_event pc \<noteq> None \<and> current (sch s) c = cd_current (cpu_data s c)
   | Blocked \<Rightarrow> cd_current (cpu_data s c) \<noteq> None \<and> current (sch s) c = cd_current (cpu_data s c)
   | _ \<Rightarrow> current (sch s) c = cd_current (cpu_data s c))
   \<and> (threads s c \<noteq> At_Loop \<longrightarrow> c < cpu_count s)"

definition pending :: "os \<Rightarrow> nat \<Rightarrow> simulator_cpu_state_t \<Rightarrow> bool" where
  "pending s p e \<longleftrightarrow> (\<exists>c. event_of s c = Some e \<and> current (sch s) c = Some p)"

text \<open>The state of a process fits the operation it is at, once its event has been handled.\<close>

definition proc_link :: "os \<Rightarrow> nat \<Rightarrow> bool" where
  "proc_link s p \<longleftrightarrow> (let st = os_state (tasks (sch s) p) in case op_now s p of
     OP_CPU \<Rightarrow> st \<noteq> PROCESS_TERMINATED \<and> (st = PROCESS_WAITING \<longrightarrow> supervisor s \<in> {Sup_Lock True p, Sup_Wake True p})
   | OP_IO \<Rightarrow> st = PROCESS_WAITING \<or> pending s p CPU_YIELD
   | OP_TERMINATE \<Rightarrow> st = PROCESS_TERMINATED \<or> pending s p CPU_TERMINATE)"

text \<open>The process that is woken up waits or is new, and the processes that are new are those that have not been created.\<close>

definition wake_link :: "os \<Rightarrow> bool \<Rightarrow> nat \<Rightarrow> bool" where
  "wake_link s io p \<longleftrightarrow> (if io then os_state (tasks (sch s) p) = PROCESS_WAITING \<and> op_now s p = OP_CPU
     else p = processes_created s)"

definition sup_link :: "os \<Rightarrow> bool" where
  "sup_link s \<longleftrightarrow> (case supervisor s of Sup_Lock io p \<Rightarrow> wake_link s io p | Sup_Wake io p \<Rightarrow> wake_link s io p | _ \<Rightarrow> True)
     \<and> (\<forall>q < PROCESS_COUNT. os_state (tasks (sch s) q) = PROCESS_NEW \<longleftrightarrow>
          processes_created s \<le> q \<and> \<not> (supervisor s = Sup_Unlock False \<and> q = processes_created s))"

definition links :: "os \<Rightarrow> bool" where
  "links s \<longleftrightarrow> (\<forall>c. cpu_link s c \<and> event_link s c) \<and> (\<forall>p < PROCESS_COUNT. proc_link s p) \<and> sup_link s"

definition contract_inv :: "os \<Rightarrow> bool" where
  "contract_inv s \<longleftrightarrow> os_inv s \<and> wait_ok s \<and> events_ok s \<and> sched_inv (contract_view s) \<and> links s"

lemma cpu_link_cong:
  assumes "threads s' c = threads s c" "current (sch s') c = current (sch s) c" "cpu_count s' = cpu_count s"
    "cd_current (cpu_data s' c) = cd_current (cpu_data s c)"
  shows "cpu_link s' c = cpu_link s c"
  using assms by (simp add: cpu_link_def split: cpu_pc.split callback_pc.split)

lemma event_of_cong:
  "threads s' c = threads s c \<Longrightarrow> cd_state (cpu_data s' c) = cd_state (cpu_data s c) \<Longrightarrow> event_of s' c = event_of s c"
  by (simp add: event_of_def split: cpu_pc.split)

lemma event_link_cong:
  assumes "event_of s' c = event_of s c" "current (sch s') c = current (sch s) c"
    "\<And>p. current (sch s) c = Some p \<Longrightarrow> op_now s' p = op_now s p"
  shows "event_link s' c = event_link s c"
  using assms by (simp add: event_link_def split: option.split)

lemma event_of_in_event: "cpu_link s c \<Longrightarrow> event_of s c \<noteq> None \<Longrightarrow> cpu_ok s c \<Longrightarrow> in_event s c"
  using simulator_cpu_state_t.exhaust
  by (auto simp: event_of_def in_event_def cpu_link_def cpu_ok_def split: cpu_pc.splits if_splits)

subsection \<open>The steps of a CPU thread are steps of the contract\<close>

lemma view_running:
  assumes "sched_inv (s, th)" and "c < cpus s" and "current s c = Some p"
  shows "p < PROCESS_COUNT" "os_state (tasks s p) = PROCESS_RUNNING" "d < cpus s \<Longrightarrow> current s d = Some p \<Longrightarrow> d = c"
    "d < cpus s \<Longrightarrow> in_hand (th d) \<noteq> Some p"
proof -
  obtain ps loc where P: "placed s th ps loc" using assms(1) by (auto simp: sched_inv_def)
  note D = placedD[OF P]
  have l: "loc p = Some (On c)" using D(3)[of c p] assms(2,3) by simp
  show "p < PROCESS_COUNT" "os_state (tasks s p) = PROCESS_RUNNING" using D(5)[OF l] by simp_all
  show "d < cpus s \<Longrightarrow> current s d = Some p \<Longrightarrow> d = c" using D(3)[of d p] l by simp
  show "d < cpus s \<Longrightarrow> in_hand (th d) \<noteq> Some p" using D(4)[of d p] l by simp
qed

lemma view_hand:
  assumes "sched_inv (s, th)" and "in_hand (th c) = Some p"
  shows "p < PROCESS_COUNT" "os_state (tasks s p) \<in> {PROCESS_READY, PROCESS_RUNNING}" "d < cpus s \<Longrightarrow> current s d \<noteq> Some p"
proof -
  obtain ps loc where P: "placed s th ps loc" using assms(1) by (auto simp: sched_inv_def)
  note D = placedD[OF P]
  have "th c \<noteq> None" using assms(2) by (cases "th c") (simp_all add: in_hand_def)
  then have l: "loc p = Some (Hand c)" using D(4)[of c p] D(8)[of c] assms(2) by simp
  show "p < PROCESS_COUNT" using D(5)[OF l] by simp
  show "os_state (tasks s p) \<in> {PROCESS_READY, PROCESS_RUNNING}"
    using D(5)[OF l] by (auto simp: hand_state_def split: option.splits callback_pc.splits)
  show "d < cpus s \<Longrightarrow> current s d \<noteq> Some p" using D(3)[of d p] l by simp
qed

lemma view_goto:
  "sch s' = sc \<Longrightarrow> threads s' = (threads s)(c := t) \<Longrightarrow> contract_view s' = (sc, (snd (contract_view s))(c := callback_of t))"
  by (auto simp: contract_view_def fun_eq_iff)

lemma view_same:
  "sch s' = sch s \<Longrightarrow> threads s' = (threads s)(c := t) \<Longrightarrow> callback_of t = callback_of (threads s c) \<Longrightarrow>
    contract_view s' = contract_view s"
  by (auto simp: contract_view_def fun_eq_iff)

text \<open>A step of a callback in the simulator.\<close>

lemma cpu_callback_cases:
  assumes "cpu_step c s = Inr (Some s')" and "threads s c = In_Callback w pc"
  obtains (switch) p where "pc = Call_Switch p" "sch s' = sch s" "threads s' = (threads s)(c := Switch_Set w p)"
      "cpu_data s' = cpu_data s" "operations s' = operations s" "supervisor s' = supervisor s"
      "cpu_count s' = cpu_count s" "processes_created s' = processes_created s"
  | (critical) pc' sc where "\<And>p. pc \<noteq> Call_Switch p" "callback_step c pc (sch s) = Inr (pc', sc)"
      "s' = goto (s\<lparr>sch := sc\<rparr>) c (In_Callback w pc')"
proof (cases "\<exists>p. pc = Call_Switch p")
  case True
  then obtain p where "pc = Call_Switch p" by blast
  then show thesis
    using assms by (intro switch[of p]) (auto simp: cpu_step_def os_context_switch_def goto_def split: if_splits)
next
  case False
  then obtain pc' sc where "callback_step c pc (sch s) = Inr (pc', sc)" "s' = goto (s\<lparr>sch := sc\<rparr>) c (In_Callback w pc')"
    using assms by (cases pc) (auto simp: cpu_step_def split: if_splits)
  then show thesis using False critical by blast
qed

lemma cpu_step_contract:
  assumes inv: "contract_inv s" and c: "c < cpu_count s" and st: "cpu_step c s = Inr (Some s')"
  shows "sched_step\<^sup>*\<^sup>* (contract_view s) (contract_view s')"
proof -
  have live: "supervisor s \<noteq> Sup_Exit" using st by (auto simp: cpu_step_def)
  have cl: "cpu_link s c" "cpu_ok s c" and n: "cpus (sch s) = cpu_count s"
    using inv by (simp_all add: contract_inv_def links_def wait_ok_def os_inv_def)
  have same: ?thesis if "contract_view s' = contract_view s" using that by simp
  have step: ?thesis if "sch s' = sc" "threads s' = (threads s)(c := t)"
    "sched_step (contract_view s) (sc, (snd (contract_view s))(c := callback_of t))" for sc t
    using that(3) unfolding view_goto[OF that(1,2)] by blast
  have enter: ?thesis
    if "callback_of (threads s c) = None" "sch s' = sch s" "threads s' = (threads s)(c := t)" "callback_of t = Some pc"
      "pc \<in> {Idle_Wait, Preempt_Take, Yield_Mark, Terminate_Mark}" "pc = Idle_Wait \<Longrightarrow> current (sch s) c = None" for t pc
  proof -
    have "sched_step (sch s, snd (contract_view s)) (sch s, (snd (contract_view s))(c := Some pc))"
      using c n that by (intro sched_step.enter) (simp_all add: contract_view_def)
    then show ?thesis using that(4) by (intro step[OF that(2,3)]) (simp add: contract_view_def)
  qed
  show ?thesis
  proof (cases "threads s c")
    case At_Loop
    then have "s' = loop_top c s" using st live by (simp add: cpu_step_def split: if_splits)
    then show ?thesis
      using At_Loop by (intro same) (auto simp: contract_view_def callback_of_def loop_top_def Let_def fun_eq_iff)
  next
    case (Dispatch e)
    then have d: "dispatch c e s = Some s'" using st live by (simp add: cpu_step_def)
    show ?thesis
    proof (cases "e = CPU_IDLE")
      case True
      then have "current (sch s) c = None" using Dispatch cl by (simp add: cpu_ok_def cpu_link_def)
      then show ?thesis
        using Dispatch d True by (intro enter[of "In_Callback False Idle_Wait" Idle_Wait]) (auto simp: dispatch_def callback_of_def)
    next
      case False
      then obtain t where t: "sch s' = sch s" "threads s' = (threads s)(c := t)" "callback_of t = None"
        using d by (cases e) (auto simp: dispatch_def callback_of_def split: if_splits)
      then show ?thesis using Dispatch by (intro same view_same[OF t(1,2)]) (simp add: callback_of_def)
    qed
  next
    case (Lock_Writer pc)
    then have "pc \<in> {Preempt_Take, Yield_Mark, Terminate_Mark}"
      using cl by (cases pc) (auto simp: cpu_link_def mark_event_def)
    then show ?thesis
      using st live Lock_Writer enter[of "In_Callback True pc" pc] by (auto simp: cpu_step_def callback_of_def)
  next
    case (In_Callback w pc)
    from st In_Callback show ?thesis
    proof (cases rule: cpu_callback_cases)
      case (switch p)
      have "sched_step (sch s, snd (contract_view s)) (sch s, (snd (contract_view s))(c := None))"
        using In_Callback switch(1) by (intro sched_step.leave[of _ c p]) (simp add: contract_view_def callback_of_def)
      then show ?thesis by (intro step[OF switch(2,3)]) (simp add: contract_view_def callback_of_def)
    next
      case (critical pc' sc)
      have "sched_step (sch s, snd (contract_view s)) (sc, (snd (contract_view s))(c := Some pc'))"
        using In_Callback critical(2) by (intro sched_step.go_on[of _ c pc]) (simp_all add: contract_view_def callback_of_def)
      then show ?thesis
        using critical(3) by (intro step[of sc "In_Callback w pc'"]) (simp_all add: contract_view_def callback_of_def)
    qed
  qed (use st live in \<open>(intro same; auto simp: cpu_step_def contract_view_def callback_of_def fun_eq_iff split: if_splits)+\<close>)
qed

subsection \<open>A CPU thread keeps the links\<close>

lemma linksD:
  assumes "links s"
  shows "cpu_link s c" "event_link s c" "p < PROCESS_COUNT \<Longrightarrow> proc_link s p" "sup_link s"
  using assms by (simp_all add: links_def)

text \<open>Outside the critical sections of the callbacks: the scheduler's state and the events stay as they are.\<close>

lemma links_thread:
  assumes l: "links s" and sch: "sch s' = sch s" and now: "\<And>p. op_now s' p = op_now s p"
    and ev: "\<And>d. event_of s' d = event_of s d" and cpu: "\<And>d. cpu_link s' d"
    and sup: "supervisor s' = supervisor s \<or> supervisor s = Sup_Wait c \<and> supervisor s' = Sup_Woken c"
    and created: "processes_created s' = processes_created s"
  shows "links s'"
proof -
  note L = linksD[OF l]
  have "event_link s' d" for d using L(2)[of d] ev now sch event_link_cong[of s' d s] by simp
  moreover have "proc_link s' p" if "p < PROCESS_COUNT" for p
  proof -
    have "pending s' p e = pending s p e" for e using ev sch by (simp add: pending_def)
    then show ?thesis using L(3)[OF that] sch now sup by (auto simp: proc_link_def Let_def split: op_type.splits)
  qed
  moreover have "sup_link s'"
    using L(4) sch now sup created by (auto simp: sup_link_def wake_link_def split: sup_pc.splits)
  ultimately show ?thesis using cpu by (simp add: links_def)
qed

lemma cpu_step_processes:
  assumes "cpu_step c s = Inr (Some s')"
  shows "processes_created s' = processes_created s"
proof (cases "threads s c")
  case (In_Callback w pc)
  from assms In_Callback show ?thesis by (cases rule: cpu_callback_cases) (auto simp: goto_def)
next
  case (Dispatch e)
  then show ?thesis using assms by (cases e) (auto simp: cpu_step_def dispatch_def goto_def split: if_splits)
qed (use assms in \<open>auto simp: cpu_step_def loop_top_def Let_def goto_def set_cpu_state_def sup_goto_def split: if_splits\<close>)

lemma same_ops_now: "same_ops s s' \<Longrightarrow> op_now s' p = op_now s p"
  by (simp add: same_ops_def op_now_def)

text \<open>A step that is not a critical section of a callback.\<close>

lemma cpu_step_outside:
  assumes st: "cpu_step c s = Inr (Some s')" and link: "cpu_link s c" "cpu_ok s c" and c: "c < cpu_count s"
    and out: "\<And>w pc. threads s c = In_Callback w pc \<Longrightarrow> \<exists>p. pc = Call_Switch p"
  shows "sch s' = sch s \<and> event_of s' c = event_of s c \<and> cpu_link s' c"
proof -
  have live: "supervisor s \<noteq> Sup_Exit" using st by (auto simp: cpu_step_def)
  show ?thesis
  proof (cases "threads s c")
    case At_Loop
    then show ?thesis
      using st live link c
      by (auto simp: cpu_step_def loop_top_def Let_def cpu_link_def event_of_def goto_def set_cpu_state_def sup_goto_def split: if_splits)
  next
    case (Dispatch e)
    then show ?thesis
      using st live link c
      by (cases e) (auto simp: cpu_step_def dispatch_def cpu_ok_def cpu_link_def event_of_def mark_event_def preempt_pc_def goto_def split: if_splits)
  next
    case (In_Callback w pc)
    from st In_Callback show ?thesis
    proof (cases rule: cpu_callback_cases)
      case (switch p)
      then show ?thesis using In_Callback link c by (simp add: cpu_link_def event_of_def mark_event_def)
    next
      case (critical pc' sc)
      then show ?thesis using out[OF In_Callback] by blast
    qed
  next
    case (Switch_Set w p)
    then show ?thesis
      using st live link c by (auto simp: cpu_step_def cpu_link_def event_of_def goto_def split: if_splits)
  next
    case (Lock_Writer pc)
    then show ?thesis
      using st live link c
      by (cases pc) (auto simp: cpu_step_def cpu_link_def event_of_def mark_event_def goto_def)
  next
    case Blocked
    then show ?thesis
      using st live link c by (auto simp: cpu_step_def cpu_link_def cpu_ok_def event_of_def goto_def split: if_splits)
  qed (use st live link c in \<open>auto simp: cpu_step_def cpu_link_def event_of_def goto_def split: if_splits\<close>)
qed

text \<open>A critical section of a callback. Only processes that are ready or running are touched.\<close>

lemma callback_state_keeps:
  assumes "sched_inv (s, th)" and "th c = Some pc" and "c < cpus s" and "os_state (tasks s q) \<notin> {PROCESS_READY, PROCESS_RUNNING}"
  shows "callback_state c pc s q = os_state (tasks s q)"
proof -
  have "in_hand (th c) \<noteq> Some q" using view_hand(2)[OF assms(1), of c q] assms(4) by blast
  moreover have "current s c \<noteq> Some q" using view_running(2)[OF assms(1,3), of q] assms(4) by auto
  ultimately show ?thesis using assms(2) by (auto simp: callback_state_def in_hand_def split: callback_pc.split)
qed

lemma proc_link_keep:
  assumes "proc_link s p" and "op_now s' p = op_now s p" and "os_state (tasks (sch s') p) = os_state (tasks (sch s) p)"
    and "supervisor s' = supervisor s" and "\<And>e. e \<in> {CPU_YIELD, CPU_TERMINATE} \<Longrightarrow> pending s p e \<Longrightarrow> pending s' p e"
  shows "proc_link s' p"
  using assms by (auto simp: proc_link_def Let_def split: op_type.splits)

lemma critical_frame:
  assumes inv: "contract_inv s" and c: "c < cpu_count s" and pc: "threads s c = In_Callback w pc" "\<And>p. pc \<noteq> Call_Switch p"
    and st: "callback_step c pc (sch s) = Inr (pc', sc)" and s': "s' = goto (s\<lparr>sch := sc\<rparr>) c (In_Callback w pc')"
  shows "sch s' = sc" "threads s' = (threads s)(c := In_Callback w pc')" "supervisor s' = supervisor s"
    "cpu_data s' = cpu_data s" "cpu_count s' = cpu_count s" "processes_created s' = processes_created s"
    and "op_now s' p = op_now s p" and "event_of s' d = (if d = c then None else event_of s d)"
    and "event_of s c = mark_event pc"
proof -
  have I: "os_inv s" using inv by (simp add: contract_inv_def)
  have n: "c < cpus (sch s)" using I c by (simp add: os_inv_def)
  have range: "callback_range pc" using I pc(1) by (auto simp: os_inv_def thread_ok_def dest: spec[of _ c])
  have fine: "sched_fine (sch s) sc"
    using callback_step_range[of "sch s" c pc] I n range st by (auto simp: os_inv_def)
  show "op_now s' p = op_now s p"
    using fine s' by (intro same_ops_now) (simp add: same_ops_sch)
  show sch: "sch s' = sc" "threads s' = (threads s)(c := In_Callback w pc')" "supervisor s' = supervisor s"
    "cpu_data s' = cpu_data s" "cpu_count s' = cpu_count s" "processes_created s' = processes_created s"
    using s' by (simp_all add: goto_def)
  show "event_of s' d = (if d = c then None else event_of s d)"
    using callback_effect(3)[OF st] sch event_of_cong[of s' d s] by (simp add: event_of_def)
  show "event_of s c = mark_event pc" using pc(1) by (simp add: event_of_def)
qed

lemma critical_pending:
  assumes inv: "contract_inv s" and c: "c < cpu_count s" and pc: "threads s c = In_Callback w pc" "\<And>p. pc \<noteq> Call_Switch p"
    and st: "callback_step c pc (sch s) = Inr (pc', sc)" and s': "s' = goto (s\<lparr>sch := sc\<rparr>) c (In_Callback w pc')"
    and p: "pending s p e" "\<not> (event_of s c = Some e \<and> current (sch s) c = Some p)"
  shows "pending s' p e"
proof -
  note F = critical_frame[OF inv c pc st s']
  from p obtain d where d: "event_of s d = Some e" "current (sch s) d = Some p" "d \<noteq> c" by (auto simp: pending_def)
  then show ?thesis unfolding pending_def using F(8)[of d] callback_effect(1)[OF st, of d] F(1) by (intro exI[of _ d]) simp
qed

text \<open>A process in the hands of a CPU thread is at a CPU operation.\<close>

lemma hand_at_cpu:
  assumes inv: "contract_inv s" and p: "p < PROCESS_COUNT" "in_hand (callback_of (threads s c)) = Some p"
  shows "op_now s p = OP_CPU"
proof -
  have I: "os_inv s" "sched_inv (sch s, \<lambda>c. callback_of (threads s c))" "links s"
    using inv by (simp_all add: contract_inv_def contract_view_def)
  note L = linksD[OF I(3)] and H = view_hand[OF I(2), OF p(2)]
  have "\<not> pending s p e" for e
  proof
    assume "pending s p e"
    then obtain d where d: "event_of s d = Some e" "current (sch s) d = Some p" by (auto simp: pending_def)
    then have "threads s d \<noteq> At_Loop" by (auto simp: event_of_def)
    then have "d < cpus (sch s)" using L(1)[of d] I(1) by (simp add: cpu_link_def os_inv_def)
    then show False using H(3)[of d] d(2) by simp
  qed
  then show ?thesis using L(3)[OF p(1)] H(2) by (auto simp: proc_link_def Let_def split: op_type.splits)
qed

lemma critical_proc_link:
  assumes inv: "contract_inv s" and c: "c < cpu_count s" and pc: "threads s c = In_Callback w pc" "\<And>p. pc \<noteq> Call_Switch p"
    and st: "callback_step c pc (sch s) = Inr (pc', sc)" and s': "s' = goto (s\<lparr>sch := sc\<rparr>) c (In_Callback w pc')"
    and p: "p < PROCESS_COUNT"
  shows "proc_link s' p"
proof -
  have l: "links s" using inv by (simp add: contract_inv_def)
  note L = linksD[OF l] and F = critical_frame[OF inv c pc st s'] and E = callback_effect[OF st]
  have keep: "proc_link s' p"
    if "callback_state c pc (sch s) p = os_state (tasks (sch s) p)"
      "\<And>e. mark_event pc = Some e \<Longrightarrow> current (sch s) c = Some p \<Longrightarrow> e = CPU_PREEMPT"
    using L(3)[OF p] that E(2) F by (intro proc_link_keep[of s p s'] critical_pending[OF inv c pc st s']) auto
  have mark: "proc_link s' p"
    if "mark_event pc = Some e" "e = CPU_YIELD \<and> st = PROCESS_WAITING \<or> e = CPU_TERMINATE \<and> st = PROCESS_TERMINATED"
      "\<And>q. callback_state c pc (sch s) q = (if current (sch s) c = Some q then st else os_state (tasks (sch s) q))" for e st
  proof (cases "current (sch s) c = Some p")
    case True
    then have "op_now s p = event_op e" using L(2)[of c] F(9) that(1) by (simp add: event_link_def)
    then show ?thesis using that(2,3) True E(2) F(1,7) by (auto simp: proc_link_def Let_def event_op_def)
  next
    case False
    then show ?thesis using that(3) by (intro keep) simp_all
  qed
  have hand: "proc_link s' p"
    if "in_hand (Some pc) = r" "mark_event pc = None" "st \<in> {PROCESS_READY, PROCESS_RUNNING}"
      "\<And>q. callback_state c pc (sch s) q = (if r = Some q then st else os_state (tasks (sch s) q))" for r st
  proof (cases "r = Some p")
    case True
    then have "op_now s p = OP_CPU" using hand_at_cpu[OF inv p, of c] that(1) pc(1) by (simp add: callback_of_def)
    then show ?thesis using F(1) F(7)[of p] E(2)[of p] that(3,4) True by (auto simp: proc_link_def Let_def)
  next
    case False
    then show ?thesis using that(2,4) by (intro keep) simp_all
  qed
  show ?thesis
  proof (cases pc)
    case Yield_Mark
    then show ?thesis
      using mark[of CPU_YIELD PROCESS_WAITING] by (simp add: mark_event_def callback_state_def)
  next
    case Terminate_Mark
    then show ?thesis
      using mark[of CPU_TERMINATE PROCESS_TERMINATED] by (simp add: mark_event_def callback_state_def)
  next
    case (Preempt_Put r)
    then show ?thesis
      using hand[of "Some r" PROCESS_READY] by (simp add: in_hand_def mark_event_def callback_state_def eq_commute)
  next
    case (Install r)
    then show ?thesis
      using hand[of r PROCESS_RUNNING] by (simp add: in_hand_def mark_event_def callback_state_def)
  qed (use keep pc(2) in \<open>simp_all add: mark_event_def callback_state_def\<close>)
qed

lemma cpu_critical_links:
  assumes inv: "contract_inv s" and c: "c < cpu_count s" and pc: "threads s c = In_Callback w pc" "\<And>p. pc \<noteq> Call_Switch p"
    and st: "callback_step c pc (sch s) = Inr (pc', sc)" and s': "s' = goto (s\<lparr>sch := sc\<rparr>) c (In_Callback w pc')"
  shows "links s'"
proof -
  have I: "os_inv s" "sched_inv (sch s, \<lambda>c. callback_of (threads s c))" "links s"
    using inv by (simp_all add: contract_inv_def contract_view_def)
  note L = linksD[OF I(3)] and E = callback_effect[OF st] and F = critical_frame[OF inv c pc st s']
  note sch = F(1-6) and now = F(7) and ev = F(8)
  have n: "c < cpus (sch s)" using I(1) c by (simp add: os_inv_def)
  have th: "callback_of (threads s c) = Some pc" using pc(1) by (simp add: callback_of_def)
  have cl: "cpu_link s' d" for d
  proof (cases "d = c")
    case True
    have "preempt_pc pc' \<longrightarrow> w" using L(1)[of c] pc(1) callback_step_slice[OF st] by (auto simp: cpu_link_def)
    then show ?thesis using True sch E(3,4) pc(2) c by (auto simp: cpu_link_def split: callback_pc.split)
  next
    case False
    then show ?thesis using L(1)[of d] sch E(1) cpu_link_cong[of s' d s] by simp
  qed
  have el: "event_link s' d" for d
  proof (cases "d = c")
    case True
    then show ?thesis using ev by (simp add: event_link_def)
  next
    case False
    then show ?thesis using L(2)[of d] sch E(1) now ev event_link_cong[of s' d s] by simp
  qed
  have other: "os_state (tasks (sch s') q) = os_state (tasks (sch s) q)"
    if "os_state (tasks (sch s) q) \<notin> {PROCESS_READY, PROCESS_RUNNING}" for q
    using callback_state_keeps[OF I(2) th n that] E(2) sch(1) by simp
  have wl: "wake_link s' io p" if "wake_link s io p" for io p
    using that other[of p] now sch by (auto simp: wake_link_def)
  have was_new: "os_state (tasks (sch s) q) = PROCESS_NEW" if "os_state (tasks (sch s') q) = PROCESS_NEW" for q
    using that E(2)[of q] sch(1) by (auto simp: callback_state_def split: callback_pc.splits if_splits)
  have new: "os_state (tasks (sch s') q) = PROCESS_NEW \<longleftrightarrow> os_state (tasks (sch s) q) = PROCESS_NEW" for q
  proof
    assume "os_state (tasks (sch s) q) = PROCESS_NEW"
    with other[of q] show "os_state (tasks (sch s') q) = PROCESS_NEW" by simp
  qed (rule was_new)
  have "sup_link s'"
    using L(4) wl unfolding sup_link_def new sch(3,6) by (cases "supervisor s") auto
  with cl el critical_proc_link[OF inv c pc st s'] show ?thesis by (simp add: links_def)
qed

lemma cpu_step_links:
  assumes inv: "contract_inv s" and c: "c < cpu_count s" and st: "cpu_step c s = Inr (Some s')"
  shows "links s'"
proof (cases "\<exists>w pc. threads s c = In_Callback w pc \<and> (\<forall>p. pc \<noteq> Call_Switch p)")
  case True
  then obtain w pc where pc: "threads s c = In_Callback w pc" "\<And>p. pc \<noteq> Call_Switch p" by blast
  from st pc(1) show ?thesis
    by (cases rule: cpu_callback_cases) (use pc cpu_critical_links[OF inv c pc] in blast)+
next
  case False
  have I: "os_inv s" "links s" "cpu_ok s c" using inv by (simp_all add: contract_inv_def wait_ok_def)
  note L = linksD[OF I(2)]
  have o: "sch s' = sch s" "event_of s' c = event_of s c" "cpu_link s' c"
    using cpu_step_outside[OF st L(1) I(3) c] False by blast+
  note e = cpu_step_effect[OF st, unfolded cpu_effect_def]
  have other: "threads s' d = threads s d" "cpu_data s' d = cpu_data s d" if "d \<noteq> c" for d using e that by simp_all
  have "event_of s' d = event_of s d" for d
    using o(2) other[of d] by (cases "d = c") (auto intro: event_of_cong)
  moreover have "cpu_link s' d" for d
    using o(1,3) other[of d] L(1)[of d] e cpu_link_cong[of s' d s] by (cases "d = c") simp_all
  ultimately show ?thesis
    using o(1) e cpu_step_processes[OF st] same_ops_now[OF cpu_step_same_ops[OF I(1) c st]]
    by (intro links_thread[OF I(2), of s' c]) auto
qed

end
