(* ===== verification/Os_Refine.thy ===== *)
theory Os_Refine
  imports Os_Contract
begin

text \<open>
  The simulator as a client of the scheduler, part 2: the supervisor, and the simulation theorem. The prompt steps of the
  simulator refine the scheduler's contract.
\<close>

subsection \<open>The work of the supervisor\<close>

text \<open>
  What simulating an interval of a process or of I/O does to the scheduler's data: it writes the fields of one process
  that are the simulator's own.
\<close>

definition sup_work :: "os \<Rightarrow> os \<Rightarrow> bool" where
  "sup_work s s' \<longleftrightarrow> sched_step\<^sup>*\<^sup>* (contract_view s) (contract_view s') \<and> threads s' = threads s \<and> cpu_count s' = cpu_count s
     \<and> processes_created s' = processes_created s \<and> current (sch s') = current (sch s)
     \<and> (\<forall>q. os_state (tasks (sch s') q) = os_state (tasks (sch s) q))
     \<and> (\<forall>c. cd_current (cpu_data s' c) = cd_current (cpu_data s c))"

text \<open>The counters of the supervisor.\<close>

definition same_counters :: "os \<Rightarrow> os \<Rightarrow> bool" where
  "same_counters s s' \<longleftrightarrow> processes_terminated s' = processes_terminated s \<and> simulator_time s' = simulator_time s"

lemma same_counters_simps [simp]:
  "same_counters s s" "same_counters s (sup_goto s' t) = same_counters s s'" "same_counters s (raise_event s' c st) = same_counters s s'"
  by (simp_all add: same_counters_def sup_goto_def raise_event_def set_cpu_state_def)

lemma same_counters_trans: "same_counters s s1 \<Longrightarrow> same_counters s1 s2 \<Longrightarrow> same_counters s s2"
  by (simp add: same_counters_def)

lemma sup_work_refl: "sup_work s s"
  by (simp add: sup_work_def)

lemma sup_work_trans: "sup_work s s1 \<Longrightarrow> sup_work s1 s2 \<Longrightarrow> sup_work s s2"
  unfolding sup_work_def using rtranclp_trans[of sched_step] by metis

lemma sup_work_task:
  assumes "p < PROCESS_COUNT" and "sch s' = (sch s)\<lparr>tasks := (tasks (sch s))(p := (tasks (sch s) p)\<lparr>os_pc := i, time_remaining := r\<rparr>)\<rparr>"
    and "threads s' = threads s" "cpu_count s' = cpu_count s" "processes_created s' = processes_created s"
      "\<And>c. cd_current (cpu_data s' c) = cd_current (cpu_data s c)"
  shows "sup_work s s'"
proof -
  have "sched_step (contract_view s) (contract_view s')"
    unfolding contract_view_def assms(2,3) using assms(1) by (rule sched_step.simulate)
  then show ?thesis using assms by (auto simp: sup_work_def)
qed

text \<open>Nothing but fields the contract does not see.\<close>

lemma sup_work_same:
  assumes "sch s' = sch s" "threads s' = threads s" "cpu_count s' = cpu_count s" "processes_created s' = processes_created s"
    "\<And>c. cd_current (cpu_data s' c) = cd_current (cpu_data s c)"
  shows "sup_work s s'"
proof -
  have "contract_view s' = contract_view s" unfolding contract_view_def assms(1,2) ..
  then show ?thesis using assms by (simp add: sup_work_def)
qed

lemma advance_work:
  assumes "advance s p = Inr (op, s')"
  shows "sup_work s s'" "cpu_data s' = cpu_data s" "same_counters s s'"
proof -
  from assms have p: "p < PROCESS_COUNT" by (auto simp: advance_def get_task_def split: if_splits)
  have s': "s' = s\<lparr>sch := (sch s)\<lparr>tasks := (tasks (sch s))(p := (tasks (sch s) p)\<lparr>os_pc := os_pc (tasks (sch s) p) + 1,
      time_remaining := op_time op + 1\<rparr>)\<rparr>\<rparr>"
    using assms p by (auto simp: advance_def update_task_def get_task_def set_task_def)
  show "sup_work s s'" by (rule sup_work_task[OF p, of s' s "op_time op + 1" "os_pc (tasks (sch s) p) + 1"]) (simp_all add: s')
  show "cpu_data s' = cpu_data s" "same_counters s s'" by (simp_all add: s' same_counters_def)
qed

text \<open>Only the I/O queue changes.\<close>

definition queue_frame :: "os \<Rightarrow> os \<Rightarrow> bool" where
  "queue_frame s s' \<longleftrightarrow> sch s' = sch s \<and> threads s' = threads s \<and> cpu_count s' = cpu_count s \<and> operations s' = operations s
     \<and> processes_created s' = processes_created s \<and> cpu_data s' = cpu_data s \<and> same_counters s s'"

lemma queue_frame_work: "queue_frame s s' \<Longrightarrow> sup_work s s' \<and> cpu_data s' = cpu_data s \<and> same_counters s s' \<and> op_now s' p = op_now s p"
  by (auto simp: queue_frame_def op_now_def intro: sup_work_same)

lemma submit_frame: "submit_io_request t s p = Inr s' \<Longrightarrow> queue_frame s s'"
  by (auto simp: submit_io_request_def queue_frame_def same_counters_def split: option.splits if_splits)

lemma remove_frame: "remove_io_request s = Inr (r, s') \<Longrightarrow> queue_frame s s'"
  by (auto simp: remove_io_request_def queue_frame_def same_counters_def Let_def split: option.splits)

text \<open>An interval of a process on CPU \<open>c\<close>.\<close>

definition burst_work :: "nat \<Rightarrow> nat \<Rightarrow> os \<Rightarrow> os \<Rightarrow> bool" where
  "burst_work c p s s' \<longleftrightarrow> sup_work s s' \<and> same_counters s s' \<and> (\<forall>q. q \<noteq> p \<longrightarrow> op_now s' q = op_now s q)
     \<and> (\<forall>d. d \<noteq> c \<longrightarrow> cd_state (cpu_data s' d) = cd_state (cpu_data s d))
     \<and> (supervisor s' = Sup_Cpus (c + 1) \<and> op_now s' p = op_now s p \<and> cd_state (cpu_data s' c) = cd_state (cpu_data s c)
        \<or> supervisor s' = Sup_Wait c \<and> op_now s p = OP_CPU \<and> cd_state (cpu_data s' c) \<in> {CPU_PREEMPT, CPU_YIELD, CPU_TERMINATE}
          \<and> op_now s' p = event_op (cd_state (cpu_data s' c)))"

lemma run_burst_work:
  assumes ok: "ops_ok s" and p: "p < PROCESS_COUNT" and op: "op = operations s p ! os_pc (tasks (sch s) p)" "op_kind op = OP_CPU"
    and st: "run_burst c p op s = Inr s'"
  shows "burst_work c p s s'"
proof -
  let ?t = "tasks (sch s) p" and ?timer = "preemption_timer (cpu_data s c) - 1"
  let ?s1 = "s\<lparr>operations := (operations s)(p := (operations s p)[os_pc ?t := op\<lparr>op_time := op_time op - 1\<rparr>]),
    sch := (sch s)\<lparr>tasks := (tasks (sch s))(p := ?t\<lparr>time_remaining := op_time op - 1 + 1\<rparr>)\<rparr>,
    cpu_data := (cpu_data s)(c := (cpu_data s c)\<lparr>preemption_timer := ?timer\<rparr>)\<rparr>"
  have s': "s' = (if ?timer = 0 then raise_event ?s1 c CPU_PREEMPT else sup_goto ?s1 (Sup_Cpus (c + 1)))"
    using st p by (auto simp: run_burst_def Let_def update_task_def get_task_def set_task_def split: if_splits)
  have "?t\<lparr>time_remaining := r\<rparr> = ?t\<lparr>os_pc := os_pc ?t, time_remaining := r\<rparr>" for r by simp
  then have work: "sup_work s s2" if "sch s2 = sch ?s1" "threads s2 = threads s" "cpu_count s2 = cpu_count s"
      "processes_created s2 = processes_created s" "\<And>d. cd_current (cpu_data s2 d) = cd_current (cpu_data s d)" for s2
    using that by (intro sup_work_task[OF p, of s2 s "op_time op - 1 + 1" "os_pc ?t"]) simp_all
  have now: "op_now s2 q = op_now s q" if "operations s2 = operations ?s1" "sch s2 = sch ?s1" for s2 q
    using that op ops_okD[OF ok p] by (simp add: op_now_def)
  have cpu: "op_now s p = OP_CPU" using op by (simp add: op_now_def)
  have count: "same_counters s ?s1" by (simp add: same_counters_def)
  show ?thesis
  proof (cases "?timer = 0")
    case True
    let ?e = "raise_event ?s1 c CPU_PREEMPT"
    have "sup_work s ?e" by (rule work) (simp_all add: raise_event_def set_cpu_state_def sup_goto_def)
    moreover have "op_now ?e q = op_now s q" for q by (rule now) simp_all
    moreover have "cd_state (cpu_data ?e d) = (if d = c then CPU_PREEMPT else cd_state (cpu_data s d))" for d
      by (simp add: raise_event_def set_cpu_state_def)
    ultimately show ?thesis using s' True cpu count by (simp add: burst_work_def event_op_def)
  next
    case False
    let ?e = "sup_goto ?s1 (Sup_Cpus (c + 1))"
    have "sup_work s ?e" by (rule work) (simp_all add: sup_goto_def)
    moreover have "op_now ?e q = op_now s q" for q by (rule now) simp_all
    ultimately show ?thesis using s' False count by (simp add: burst_work_def)
  qed
qed

lemma advance_now:
  assumes inv: "os_inv s" and p: "p < PROCESS_COUNT" and now: "op_now s p \<noteq> OP_TERMINATE" and st: "advance s p = Inr (op, s')"
  shows "op_now s' q = (if q = p then op_kind op else op_now s q)" "op_now s p = OP_IO \<Longrightarrow> op_kind op = OP_CPU"
    "op_now s p = OP_CPU \<Longrightarrow> op_kind op \<noteq> OP_CPU"
  using advance_ok[OF os_invD(3,1)[OF inv] p now] st by auto

lemma end_burst_work:
  assumes inv: "os_inv s" and p: "p < PROCESS_COUNT" and cpu: "op_now s p = OP_CPU" and st: "end_burst c p s = Inr s'"
  shows "burst_work c p s s'"
proof -
  obtain op s1 where a: "advance s p = Inr (op, s1)" using st by (auto simp: end_burst_def)
  note w = advance_work[OF a]
  have now: "op_now s1 q = (if q = p then op_kind op else op_now s q)" "op_kind op \<noteq> OP_CPU" for q
    using advance_now[OF inv p _ a] cpu by auto
  have raise: ?thesis
    if "sup_work s s2" "same_counters s s2" "cpu_data s2 = cpu_data s" "s' = raise_event s2 c e" "e \<in> {CPU_YIELD, CPU_TERMINATE}"
      "\<And>q. op_now s2 q = (if q = p then event_op e else op_now s q)" for s2 e
  proof -
    have "sup_work s2 s'"
      using that(4) by (intro sup_work_same) (simp_all add: raise_event_def set_cpu_state_def sup_goto_def)
    then have "sup_work s s'" using sup_work_trans that(1) by blast
    moreover have "op_now s' q = op_now s2 q" for q using that(4) by (simp add: op_now_def)
    ultimately show ?thesis
      using that cpu same_counters_simps(3)[of s s2 c e] by (auto simp: burst_work_def raise_event_def set_cpu_state_def)
  qed
  show ?thesis
  proof (cases "op_kind op")
    case OP_CPU
    then show ?thesis using now(2) by simp
  next
    case OP_IO
    then obtain s2 where s2: "submit_io_request (op_time op) s1 p = Inr s2" "s' = raise_event s2 c CPU_YIELD"
      using st a by (auto simp: end_burst_def)
    note f = queue_frame_work[OF submit_frame[OF s2(1)]]
    have "sup_work s s2" "same_counters s s2" using sup_work_trans same_counters_trans w f by blast+
    then show ?thesis by (rule raise) (use f w s2 OP_IO now in \<open>auto simp: event_op_def\<close>)
  next
    case OP_TERMINATE
    then have "s' = raise_event s1 c CPU_TERMINATE" using st a by (simp add: end_burst_def)
    from w(1,3,2) this show ?thesis by (rule raise) (use OP_TERMINATE now in \<open>auto simp: event_op_def\<close>)
  qed
qed

lemma simulate_process_work:
  assumes inv: "os_inv s" and p: "p < PROCESS_COUNT" and st: "simulate_process c p s = Inr s'"
  shows "burst_work c p s s'"
proof -
  obtain op where op: "op_at s p (os_pc (tasks (sch s) p)) = Inr op" "op = operations s p ! os_pc (tasks (sch s) p)"
    "op_now s p = op_kind op"
    using op_now_at[OF os_invD(3)[OF inv] p] by blast
  have get: "get_task (sch s) p = Inr (tasks (sch s) p)" using p by (simp add: get_task_def)
  show ?thesis
  proof (cases "op_kind op = OP_CPU")
    case True
    then show ?thesis
      using st op get run_burst_work[OF os_invD(3)[OF inv] p op(2) True] end_burst_work[OF inv p]
      by (simp add: simulate_process_def split: if_splits)
  next
    case False
    then have "s' = sup_goto s (Sup_Cpus (c + 1))"
      using st op get by (auto simp: simulate_process_def split: op_type.splits)
    then show ?thesis
      using same_counters_simps(2)[of s s "Sup_Cpus (c + 1)"]
      by (auto simp: burst_work_def op_now_def sup_goto_def intro: sup_work_same)
  qed
qed

text \<open>An interval of I/O: the process whose request has completed moves on to a CPU burst.\<close>

lemma simulate_io_work:
  assumes inv: "os_inv s" and st: "simulate_io s = Inr (r, s')"
  shows "sup_work s s' \<and> same_counters s s' \<and> cpu_data s' = cpu_data s \<and> (case r of None \<Rightarrow> (\<forall>q. op_now s' q = op_now s q)
    | Some p \<Rightarrow> p < PROCESS_COUNT \<and> op_now s p = OP_IO \<and> (\<forall>q. op_now s' q = (if q = p then OP_CPU else op_now s q)))"
proof (cases "io_queue_head s")
  case None
  then show ?thesis using st sup_work_refl by (simp add: simulate_io_def)
next
  case (Some a)
  obtain v where v: "cells (io_heap s) a = Some v" "io_pcb v < PROCESS_COUNT" "op_now s (io_pcb v) = OP_IO"
    using io_head_cell[OF inv Some] by blast
  let ?p = "io_pcb v"
  let ?s1 = "s\<lparr>io_heap := (io_heap s)\<lparr>cells := (cells (io_heap s))(a \<mapsto> v\<lparr>execution_time := execution_time v - 1\<rparr>)\<rparr>\<rparr>"
  have f1: "queue_frame s ?s1" by (simp add: queue_frame_def same_counters_def)
  note w1 = queue_frame_work[OF f1]
  have res: "(if execution_time v \<le> 0 then bindE (advance ?s1 ?p) (\<lambda>(_, s2). remove_io_request s2)
      else Inr (None, ?s1)) = Inr (r, s')"
    using st Some v(1) by (simp add: simulate_io_def Let_def)
  show ?thesis
  proof (cases "execution_time v \<le> 0")
    case False
    then have "r = None" "s' = ?s1" using res by simp_all
    then show ?thesis using w1 by simp
  next
    case True
    then obtain op s2 where a2: "advance ?s1 ?p = Inr (op, s2)" "remove_io_request s2 = Inr (r, s')"
      using res by auto
    have "ops_ok ?s1" "sched_range (sch ?s1)" using inv by (simp_all add: os_inv_def ops_ok_def)
    from advance_ok[OF this v(2)] have now: "op_now s2 q = (if q = ?p then OP_CPU else op_now s q)" for q
      using a2(1) w1[of ?p] w1[of q] v(3) by auto
    note w2 = advance_work[OF a2(1)] and w3 = queue_frame_work[OF remove_frame[OF a2(2)]]
    have work: "sup_work s s'" using sup_work_trans[OF sup_work_trans[OF _ w2(1)]] w1 w3 by blast
    have count: "same_counters s s'" using same_counters_trans[OF same_counters_trans[OF _ w2(3)]] w1 w3 by blast
    have io: "io_queue_head s2 = Some a" "io_heap s2 = io_heap ?s1"
      using a2(1) Some by (auto simp: advance_def update_task_def)
    then have "r = Some ?p" using a2(2) by (auto simp: remove_io_request_def Let_def split: option.splits)
    then show ?thesis using work count w2 w3 w1 now v(2,3) by simp
  qed
qed

subsection \<open>The supervisor keeps the links\<close>

text \<open>While the supervisor does not wait there are no events.\<close>

lemma no_events:
  assumes "contract_inv s" and "\<And>c. supervisor s \<noteq> Sup_Wait c"
  shows "event_of s c = None" "\<not> pending s p e"
proof -
  have "cpu_link s c" "cpu_ok s c" "\<not> in_event s c" for c
    using assms by (simp_all add: contract_inv_def links_def wait_ok_def events_ok_def)
  then have n: "event_of s c = None" for c using event_of_in_event by blast
  then show "event_of s c = None" "\<not> pending s p e" by (simp_all add: pending_def)
qed

text \<open>The processes of the CPUs do not change.\<close>

lemma work_links:
  assumes l: "links s" and w: "sup_work s s'" and ev: "\<And>c. event_link s' c"
    and proc: "\<And>p. p < PROCESS_COUNT \<Longrightarrow> proc_link s' p" and sup: "sup_link s'"
  shows "links s'"
proof -
  have "cpu_link s' c" for c
    using linksD(1)[OF l, of c] w cpu_link_cong[of s' c s] by (simp add: sup_work_def)
  then show ?thesis using ev proc sup by (simp add: links_def)
qed

text \<open>Neither do their operations.\<close>

lemma idle_links:
  assumes inv: "contract_inv s" and nowait: "\<And>c. supervisor s \<noteq> Sup_Wait c" and w: "sup_work s s'"
    and now: "\<And>p. op_now s' p = op_now s p" and cd: "\<And>c. cd_state (cpu_data s' c) = cd_state (cpu_data s c)"
    and lock: "\<And>p. supervisor s \<in> {Sup_Lock True p, Sup_Wake True p} \<Longrightarrow> supervisor s' \<in> {Sup_Lock True p, Sup_Wake True p}"
    and sup: "sup_link s'"
  shows "links s'"
proof -
  have l: "links s" using inv by (simp add: contract_inv_def)
  note L = linksD[OF l]
  have ev: "event_of s' c = None" for c
    using no_events(1)[OF inv nowait, of c] event_of_cong[of s' c s] w cd by (simp add: sup_work_def)
  have "proc_link s' p" if "p < PROCESS_COUNT" for p
  proof -
    have "\<not> pending s' p e" for e using ev by (simp add: pending_def)
    moreover have "os_state (tasks (sch s') p) = os_state (tasks (sch s) p)" using w by (simp add: sup_work_def)
    ultimately show ?thesis
      using L(3)[OF that] no_events(2)[OF inv nowait, of p] now[of p] lock[of p]
      by (auto simp: proc_link_def Let_def split: op_type.splits)
  qed
  then show ?thesis using ev by (intro work_links[OF l w _ _ sup]) (simp_all add: event_link_def)
qed

text \<open>An interval of the process of CPU \<open>n\<close>, whose thread is at its condition variable.\<close>

lemma burst_links:
  assumes inv: "contract_inv s" and sup: "supervisor s = Sup_Cpus n" and blocked: "threads s n = Blocked"
    and p: "cd_current (cpu_data s n) = Some p" and w: "burst_work n p s s'"
  shows "links s'"
proof -
  have l: "links s" and wait: "wait_ok s" using inv by (simp_all add: contract_inv_def)
  note L = linksD[OF l]
  have cur: "current (sch s) n = Some p" using L(1)[of n] blocked p by (simp add: cpu_link_def)
  have work: "sup_work s s'" and others: "\<And>q. q \<noteq> p \<Longrightarrow> op_now s' q = op_now s q"
    "\<And>d. d \<noteq> n \<Longrightarrow> cd_state (cpu_data s' d) = cd_state (cpu_data s d)"
    using w by (simp_all add: burst_work_def)
  note f = work[unfolded sup_work_def]
  have none: "event_of s d = None" "\<not> pending s q e" for d q e using no_events[OF inv] sup by simp_all
  consider (moved) "supervisor s' = Sup_Cpus (n + 1)" "op_now s' p = op_now s p" "cd_state (cpu_data s' n) = cd_state (cpu_data s n)"
    | (raised) "supervisor s' = Sup_Wait n" "op_now s p = OP_CPU" "cd_state (cpu_data s' n) \<in> {CPU_PREEMPT, CPU_YIELD, CPU_TERMINATE}"
      "op_now s' p = event_op (cd_state (cpu_data s' n))"
    using w by (auto simp: burst_work_def)
  then show ?thesis
  proof cases
    case moved
    have "op_now s' q = op_now s q" "cd_state (cpu_data s' d) = cd_state (cpu_data s d)" for q d
      using others moved by (cases "q = p"; cases "d = n"; simp)+
    moreover have "sup_link s'" using L(4) moved sup f by (simp add: sup_link_def)
    ultimately show ?thesis using sup by (intro idle_links[OF inv _ work]) simp_all
  next
    case raised
    have th: "threads s' n = Blocked" "current (sch s') n = Some p" using f blocked cur by simp_all
    have ev: "event_of s' d = (if d = n then Some (cd_state (cpu_data s' n)) else None)" for d
    proof (cases "d = n")
      case True
      then show ?thesis using th raised(3) by (auto simp: event_of_def)
    next
      case False
      then show ?thesis using none(1)[of d] others(2)[of d] f event_of_cong[of s' d s] by simp
    qed
    have "event_link s' d" for d using ev[of d] th(2) raised(4) by (simp add: event_link_def)
    moreover have "proc_link s' q" if q: "q < PROCESS_COUNT" for q
    proof (cases "q = p")
      case True
      have "pending s' p e \<longleftrightarrow> cd_state (cpu_data s' n) = e" for e
        using ev th(2) by (auto simp: pending_def)
      moreover have "os_state (tasks (sch s') p) \<notin> {PROCESS_TERMINATED, PROCESS_WAITING}"
        using L(3)[OF q] True raised(2) sup f by (auto simp: proc_link_def Let_def)
      ultimately show ?thesis using True raised(3,4) by (auto simp: proc_link_def Let_def event_op_def)
    next
      case False
      then show ?thesis
        using L(3)[OF q] none(2)[of q] others(1)[OF False] f sup raised(1) by (auto simp: proc_link_def Let_def split: op_type.splits)
    qed
    moreover have "sup_link s'" using L(4) raised sup f by (simp add: sup_link_def)
    ultimately show ?thesis using work_links[OF l work] by blast
  qed
qed

text \<open>Waking up a process that is new or waits: it is not on a CPU, and it is at a CPU burst.\<close>

lemma wake_links:
  assumes inv: "contract_inv s" and sup: "supervisor s = Sup_Wake io p"
    and st: "wake_up p (sch s) = Inr sc" and s': "s' = sup_goto (s\<lparr>sch := sc\<rparr>) (Sup_Unlock io)"
  shows "sched_step\<^sup>*\<^sup>* (contract_view s) (contract_view s')" "links s'"
proof -
  have l: "links s" and I: "os_inv s" using inv by (simp_all add: contract_inv_def)
  note L = linksD[OF l]
  have p: "p < PROCESS_COUNT" using I sup by (simp add: os_inv_def sup_ok_def)
  have wl: "wake_link s io p" using L(4) sup by (simp add: sup_link_def)
  have old: "os_state (tasks (sch s) p) \<in> {PROCESS_NEW, PROCESS_WAITING}"
    using wl L(4) p sup by (auto simp: wake_link_def sup_link_def split: if_splits)
  have "sched_step (sch s, snd (contract_view s)) (sc, snd (contract_view s))"
    using p old st by (rule sched_step.wake)
  then show "sched_step\<^sup>*\<^sup>* (contract_view s) (contract_view s')" using s' by (simp add: contract_view_def)
  have none: "event_of s d = None" "\<not> pending s q e" for d q e using no_events[OF inv] sup by simp_all
  note E = make_ready_effect[OF st[unfolded wake_up_def]]
  have fine: "sched_fine (sch s) sc"
    using make_ready_range[of "sch s" p] I p st by (auto simp: os_inv_def wake_up_def)
  have now: "op_now s' q = op_now s q" for q using fine s' by (intro same_ops_now) (simp add: same_ops_sch)
  have f: "sch s' = sc" "threads s' = threads s" "cpu_data s' = cpu_data s" "cpu_count s' = cpu_count s"
    "processes_created s' = processes_created s" "supervisor s' = Sup_Unlock io"
    using s' by (simp_all add: sup_goto_def)
  have state: "current sc = current (sch s)"
    "os_state (tasks sc q) = (if q = p then PROCESS_READY else os_state (tasks (sch s) q))" for q
    using E by auto
  have cpu: "op_now s p = OP_CPU"
  proof (cases io)
    case True
    then show ?thesis using wl by (simp add: wake_link_def)
  next
    case False
    then have "os_state (tasks (sch s) p) = PROCESS_NEW" using wl L(4) p sup by (auto simp: wake_link_def sup_link_def)
    then show ?thesis using L(3)[OF p] none(2) by (auto simp: proc_link_def Let_def split: op_type.splits)
  qed
  have "cpu_link s' d" "event_link s' d" for d
    using L(1)[of d] cpu_link_cong[of s' d s] none(1)[of d] event_of_cong[of s' d s] f state(1) by (simp_all add: event_link_def)
  moreover have "proc_link s' q" if q: "q < PROCESS_COUNT" for q
  proof (cases "q = p")
    case True
    then show ?thesis using now[of p] cpu f(1) state(2)[of p] by (simp add: proc_link_def Let_def)
  next
    case False
    then show ?thesis
      using L(3)[OF q] none(2)[of q] now[of q] f(1,6) state(2)[of q] sup by (auto simp: proc_link_def Let_def split: op_type.splits)
  qed
  moreover have "sup_link s'"
    using L(4) f(1,5,6) state(2) sup wl old by (auto simp: sup_link_def wake_link_def split: if_splits)
  ultimately show "links s'" by (simp add: links_def)
qed

text \<open>An I/O request of process \<open>p\<close> has completed.\<close>

lemma io_done_links:
  assumes inv: "contract_inv s" and sup: "supervisor s = Sup_Io" and st: "simulate_io s = Inr (Some p, s1)"
  shows "links (sup_goto s1 (Sup_Lock True p))"
proof -
  let ?s = "sup_goto s1 (Sup_Lock True p)"
  have l: "links s" and I: "os_inv s" using inv by (simp_all add: contract_inv_def)
  note L = linksD[OF l]
  have p: "p < PROCESS_COUNT" "op_now s p = OP_IO" "op_now s1 q = (if q = p then OP_CPU else op_now s q)"
    and w: "sup_work s s1" and cd: "cpu_data s1 = cpu_data s" for q
    using simulate_io_work[OF I st] by simp_all
  have none: "event_of s d = None" "\<not> pending s q e" for d q e using no_events[OF inv] sup by simp_all
  have w2: "sup_work s ?s" using w by (rule sup_work_trans) (auto intro: sup_work_same simp: sup_goto_def)
  note f = w2[unfolded sup_work_def]
  have now: "op_now ?s q = (if q = p then OP_CPU else op_now s q)" for q using p(3) by (simp add: op_now_def)
  have waits: "os_state (tasks (sch s) p) = PROCESS_WAITING"
    using L(3)[OF p(1)] p(2) none(2) by (simp add: proc_link_def Let_def)
  have "event_of ?s d = None" for d using none(1)[of d] f cd event_of_cong[of ?s d s] by simp
  then have "event_link ?s d" for d by (simp add: event_link_def)
  moreover have "proc_link ?s q" if q: "q < PROCESS_COUNT" for q
    using L(3)[OF q] none(2)[of q] now[of q] f waits sup by (auto simp: proc_link_def Let_def split: op_type.splits)
  moreover have "sup_link ?s" using L(4) f waits now[of p] sup by (auto simp: sup_link_def wake_link_def)
  ultimately show ?thesis using work_links[OF l w2] by blast
qed

lemma sup_same_links:
  assumes inv: "contract_inv s" and nowait: "\<And>c. supervisor s \<noteq> Sup_Wait c"
    and same: "sch s' = sch s" "threads s' = threads s" "cpu_count s' = cpu_count s" "processes_created s' = processes_created s"
      "cpu_data s' = cpu_data s" "operations s' = operations s"
    and lock: "\<And>p. supervisor s \<in> {Sup_Lock True p, Sup_Wake True p} \<Longrightarrow> supervisor s' \<in> {Sup_Lock True p, Sup_Wake True p}"
    and sup: "sup_link s'"
  shows "sched_step\<^sup>*\<^sup>* (contract_view s) (contract_view s') \<and> links s'"
proof -
  have w: "sup_work s s'" by (rule sup_work_same) (simp_all add: same)
  moreover have "op_now s' p = op_now s p" for p using same by (simp add: op_now_def)
  ultimately have "links s'" using same lock sup by (intro idle_links[OF inv nowait]) simp_all
  then show ?thesis using w by (simp add: sup_work_def)
qed

lemma sup_link_stay:
  assumes "sup_link s" "sch s' = sch s" "processes_created s' = processes_created s"
    "\<And>io p. supervisor s' \<notin> {Sup_Lock io p, Sup_Wake io p, Sup_Unlock io}" "supervisor s \<noteq> Sup_Unlock False"
  shows "sup_link s'"
  using assms by (auto simp: sup_link_def split: sup_pc.splits)

lemma cpus_links:
  assumes inv: "contract_inv s" and prompt: "prompt s" and sup: "supervisor s = Sup_Cpus n" and st: "simulate_cpu n s = Inr s'"
  shows "sched_step\<^sup>*\<^sup>* (contract_view s) (contract_view s') \<and> links s'"
proof (cases "n < cpu_count s \<and> cd_current (cpu_data s n) \<noteq> None")
  case True
  have I: "os_inv s" using inv by (simp add: contract_inv_def)
  obtain p where p: "cd_current (cpu_data s n) = Some p" "simulate_process n p s = Inr s'"
    using st True by (auto simp: simulate_cpu_def)
  then have "p < PROCESS_COUNT" using I unfolding os_inv_def by (metis in_range_simps(2))
  note w = simulate_process_work[OF I this p(2)]
  have "threads s n = Blocked" using prompt True sup by (simp add: prompt_def)
  from burst_links[OF inv sup this p(1) w] show ?thesis using w by (simp add: burst_work_def sup_work_def)
next
  case False
  have l: "sup_link s" using inv by (simp add: contract_inv_def links_def)
  have "s' = sup_goto s (Sup_Cpus (n + 1)) \<or> s' = sup_goto s Sup_Io"
    using st False by (auto simp: simulate_cpu_def split: if_splits)
  then show ?thesis using sup by (intro sup_same_links[OF inv] sup_link_stay[OF l]) (auto simp: sup_goto_def)
qed

lemma io_links:
  assumes inv: "contract_inv s" and sup: "supervisor s = Sup_Io" and st: "simulate_io s = Inr (r, s1)"
    and s': "s' = sup_goto s1 (case r of None \<Rightarrow> Sup_Creat | Some p \<Rightarrow> Sup_Lock True p)"
  shows "sched_step\<^sup>*\<^sup>* (contract_view s) (contract_view s') \<and> links s'"
proof -
  have I: "os_inv s" "sup_link s" using inv by (simp_all add: contract_inv_def links_def)
  note w = simulate_io_work[OF I(1) st]
  have "sup_work s1 s'" using s' by (intro sup_work_same) (simp_all add: sup_goto_def)
  then have w2: "sup_work s s'" using sup_work_trans w by blast
  moreover have "links s'"
  proof (cases r)
    case None
    then have "op_now s' p = op_now s p" "cpu_data s' = cpu_data s" for p using w s' by (simp_all add: op_now_def)
    moreover have "sup_link s'" using I(2) w2 s' None sup by (simp add: sup_link_def sup_work_def)
    ultimately show ?thesis using sup by (intro idle_links[OF inv _ w2]) simp_all
  next
    case (Some p)
    then show ?thesis using io_done_links[OF inv sup] st s' by simp
  qed
  ultimately show ?thesis by (simp add: sup_work_def)
qed

text \<open>The process that has been woken up counts as created.\<close>

lemma created_links:
  assumes inv: "contract_inv s" and sup: "supervisor s = Sup_Unlock False"
    and s': "s' = sup_goto (s\<lparr>writers := w, processes_created := processes_created s + 1\<rparr>) Sup_Tick"
  shows "contract_view s' = contract_view s \<and> links s'"
proof -
  have "links s" using inv by (simp add: contract_inv_def)
  note L = linksD[OF this]
  have nowait: "supervisor s \<noteq> Sup_Wait c" for c using sup by simp
  have none: "event_of s d = None" "\<not> pending s q e" for d q e using no_events[OF inv nowait] .
  have ev: "event_of s' d = None" for d using none(1)[of d] event_of_cong[of s' d s] s' by (simp add: sup_goto_def)
  have now: "op_now s' q = op_now s q" for q using s' by (simp add: op_now_def sup_goto_def)
  have "cpu_link s' d" "event_link s' d" for d
    using L(1)[of d] cpu_link_cong[of s' d s] ev s' by (simp_all add: event_link_def sup_goto_def)
  moreover have "proc_link s' q" if q: "q < PROCESS_COUNT" for q
    using L(3)[OF q] none(2)[of q] now[of q] sup s' by (auto simp: proc_link_def Let_def sup_goto_def split: op_type.splits)
  moreover have "sup_link s'" using L(4) sup s' by (auto simp: sup_link_def sup_goto_def)
  ultimately show ?thesis using s' by (simp add: links_def contract_view_def sup_goto_def)
qed

lemma sup_step_links:
  assumes inv: "contract_inv s" and prompt: "prompt s" and st: "sup_step s = Inr (Some s')"
  shows "sched_step\<^sup>*\<^sup>* (contract_view s) (contract_view s') \<and> links s'"
proof -
  have l: "sup_link s" using inv by (simp add: contract_inv_def links_def)
  note same = sup_same_links[OF inv sup_step_effect(2)[OF st]] and stay = sup_link_stay[OF l]
  show ?thesis
  proof (cases "supervisor s")
    case (Sup_Cpus n)
    then show ?thesis using cpus_links[OF inv prompt Sup_Cpus] st by (simp add: sup_step_def)
  next
    case Sup_Io
    then show ?thesis using io_links[OF inv Sup_Io] st by (auto simp: sup_step_def)
  next
    case (Sup_Wake io p)
    then obtain sc where "wake_up p (sch s) = Inr sc" "s' = sup_goto (s\<lparr>sch := sc\<rparr>) (Sup_Unlock io)"
      using st by (auto simp: sup_step_def lift_sched_def)
    from wake_links[OF inv Sup_Wake this] show ?thesis by blast
  next
    case (Sup_Lock io p)
    then have "s' = sup_goto (s\<lparr>writers := writers s + 1\<rparr>) (Sup_Wake io p)" using st by (simp add: sup_step_def)
    moreover from this have "sup_link s'" using l Sup_Lock by (auto simp: sup_link_def wake_link_def sup_goto_def op_now_def split: if_splits)
    ultimately show ?thesis using Sup_Lock by (intro same) (auto simp: sup_goto_def)
  next
    case (Sup_Unlock io)
    show ?thesis
    proof (cases io)
      case True
      then show ?thesis using Sup_Unlock st by (intro same stay) (auto simp: sup_step_def sup_goto_def)
    next
      case False
      then have "s' = sup_goto (s\<lparr>writers := writers s - 1, processes_created := processes_created s + 1\<rparr>) Sup_Tick"
        using Sup_Unlock st by (simp add: sup_step_def)
      from created_links[OF inv _ this] show ?thesis using Sup_Unlock False by simp
    qed
  next
    case Sup_Creat
    then have s': "s' = simulate_creat s" using st by (simp add: sup_step_def)
    have "sup_link s'"
    proof (cases "simulator_time s mod 10 = 0 \<and> processes_created s < PROCESS_COUNT")
      case True
      then show ?thesis using s' l Sup_Creat by (simp add: sup_link_def wake_link_def sup_goto_def)
    next
      case False
      then show ?thesis using s' Sup_Creat by (intro stay) (auto simp: sup_goto_def)
    qed
    then show ?thesis using s' Sup_Creat by (intro same) (simp_all add: sup_goto_def)
  qed (use st in \<open>(intro same stay; auto simp: sup_step_def sup_goto_def gantt_line_def split: if_splits)+\<close>)
qed

subsection \<open>The refinement\<close>

lemma prompt_step_contract:
  assumes inv: "contract_inv s" and st: "prompt_step s s'"
  shows "sched_step\<^sup>*\<^sup>* (contract_view s) (contract_view s') \<and> contract_inv s'"
proof -
  from st obtain t where t: "thread_step t s = Inr (Some s')" "t = Supervisor \<Longrightarrow> prompt s" by (auto elim: prompt_stepE)
  have os: "os_step s s'" using prompt_os_step[OF st] .
  have I: "os_inv s" "wait_ok s" "events_ok s" "sched_inv (contract_view s)" using inv by (simp_all add: contract_inv_def)
  have step: "sched_step\<^sup>*\<^sup>* (contract_view s) (contract_view s') \<and> links s'"
  proof (cases t)
    case (Cpu c)
    then have "c < cpu_count s" "cpu_step c s = Inr (Some s')" using t(1) by (auto simp: thread_step_def split: if_splits)
    then show ?thesis using cpu_step_contract[OF inv] cpu_step_links[OF inv] by blast
  next
    case Supervisor
    then show ?thesis using t sup_step_links[OF inv] by (simp add: thread_step_def)
  qed
  then have "sched_inv (contract_view s')" using placing.reachable I(4) by blast
  then show ?thesis
    using step os_step_inv[OF I(1) os] wait_ok_step[OF I(2) os] events_ok_step[OF I(3) os] by (simp add: contract_inv_def)
qed

interpretation promptly: step_invariant prompt_step contract_inv
  by unfold_locales (use prompt_step_contract in blast)

interpretation client: simulation sched_step prompt_step "\<lambda>a s. a = contract_view s \<and> contract_inv s"
  by unfold_locales (use prompt_step_contract in blast)

text \<open>The state in which the simulator starts.\<close>

lemma started_view: "started n q room s \<Longrightarrow> contract_view s = (init_sched n q, \<lambda>_. None)"
  by (auto simp: started_def start_simulator_def contract_view_def callback_of_def)

lemma started_contract:
  assumes "started n q room s" and "PROCESS_COUNT \<le> room"
  shows "contract_inv s"
proof -
  have s: "sch s = init_sched n q" "operations s = initial_operations" "processes_created s = 0"
    using assms(1) by (auto simp: started_def start_simulator_def)
  note d = startedD[OF assms(1)]
  have "op_now s p = OP_CPU" if "p < PROCESS_COUNT" for p
  proof -
    have "initial_operations p \<in> set operation_table"
      using that tables_length(2) by (simp add: initial_operations_def)
    then have "op_kind (initial_operations p ! 0) = OP_CPU" using operations_alternate alternating_0 by blast
    then show ?thesis using process_table_new[OF that] s by (simp add: op_now_def init_sched_def)
  qed
  then have "links s"
    using d s init_state
    by (simp add: links_def cpu_link_def event_link_def event_of_def proc_link_def Let_def sup_link_def)
  then show ?thesis
    using started_inv(1,2)[OF assms(1)] assms(2) started_wait[OF assms(1)] started_view[OF assms(1)] init_sched_inv
    by (simp add: contract_inv_def)
qed

text \<open>Runs in which the supervisor does not overtake a thread.\<close>

fun prompt_run :: "thread list \<Rightarrow> os \<Rightarrow> bool" where
  "prompt_run [] s \<longleftrightarrow> True"
| "prompt_run (t # ts) s \<longleftrightarrow> (t = Supervisor \<longrightarrow> prompt s)
     \<and> (case thread_step t s of Inr (Some s1) \<Rightarrow> prompt_run ts s1 | Inr None \<Rightarrow> prompt_run ts s | Inl _ \<Rightarrow> False)"

lemma prompt_run_reach: "prompt_run ts s \<Longrightarrow> run_threads ts s = Inr s' \<Longrightarrow> prompt_step\<^sup>*\<^sup>* s s'"
proof (induction ts arbitrary: s)
  case (Cons t ts)
  then obtain r where r: "thread_step t s = Inr r" "run_threads ts (case r of None \<Rightarrow> s | Some s1 \<Rightarrow> s1) = Inr s'" by auto
  show ?case
  proof (cases r)
    case None
    then show ?thesis using Cons r by simp
  next
    case (Some s1)
    then have "prompt_step s s1" using Cons.prems(1) r(1) by (intro prompt_step.intros) auto
    moreover have "prompt_step\<^sup>*\<^sup>* s1 s'" using Cons Some r by simp
    ultimately show ?thesis by (rule converse_rtranclp_into_rtranclp)
  qed
qed simp

text \<open>Process 0 of a FIFO run has been scheduled on CPU 0, whose thread has blocked, and the supervisor is about to simulate it.\<close>

definition burst_run :: "thread list" where
  "burst_run = [Cpu 0, Cpu 0, Supervisor, Supervisor]"

lemma idle_run_prompt:
  "\<exists>s0. started 2 (-1) PROCESS_COUNT s0 \<and> prompt_step\<^sup>*\<^sup>* s0 idle_state"
proof -
  obtain s0 where s0: "start_simulator (init_sched 2 (-1)) (unat (2 :: u32)) PROCESS_COUNT = Inr s0" "run_threads idle_run s0 = Inr idle_state"
    using run_to_idle by (auto simp: program_def)
  have "prompt_run idle_run s0"
    using s0(1) unfolding idle_run_def
    by (simp add: replicate_unroll start_simulator_def init_sched_def PROCESS_COUNT_def prompt_def del: prompt_run.simps(1))
      (auto simp: run_eval prompt_def)
  then show ?thesis using s0 prompt_run_reach by (auto simp: started_def)
qed

lemma burst_run_prompt:
  "\<exists>s. run_threads burst_run idle_state = Inr s \<and> prompt_run burst_run idle_state \<and> supervisor s = Sup_Cpus 0
    \<and> cpu_count s = 2 \<and> cd_current (cpu_data s 0) = Some 0 \<and> threads s 0 = Blocked"
  unfolding burst_run_def idle_state_def by (simp add: run_eval prompt_def)

subsection \<open>Properties\<close>

lemma burst_reach:
  "\<exists>s0 s. started 2 (-1) PROCESS_COUNT s0 \<and> prompt_step\<^sup>*\<^sup>* s0 s \<and> run_threads burst_run idle_state = Inr s \<and> supervisor s = Sup_Cpus 0
    \<and> cpu_count s = 2 \<and> cd_current (cpu_data s 0) = Some 0 \<and> threads s 0 = Blocked"
  using idle_run_prompt burst_run_prompt prompt_run_reach by (meson rtranclp_trans)

lemma prompt_inv:
  assumes "started n q room s0" and "PROCESS_COUNT \<le> room" and "prompt_step\<^sup>*\<^sup>* s0 s"
  shows "contract_inv s"
  using promptly.reachable[OF assms(3) started_contract[OF assms(1,2)]] .

text \<open>The process of a CPU whose thread has blocked.\<close>

lemma prompt_burst:
  assumes inv: "contract_inv s"
    and sup: "supervisor s = Sup_Cpus c" "c < cpu_count s" "cd_current (cpu_data s c) = Some p" "threads s c = Blocked"
  shows "current (sch s) c = Some p \<and> (\<forall>d < cpu_count s. current (sch s) d = Some p \<longrightarrow> d = c)
    \<and> os_state (tasks (sch s) p) = PROCESS_RUNNING \<and> op_now s p = OP_CPU"
proof -
  have I: "sched_inv (sch s, \<lambda>c. callback_of (threads s c))" "links s" "cpus (sch s) = cpu_count s"
    using inv by (simp_all add: contract_inv_def contract_view_def os_inv_def)
  note L = linksD[OF I(2)]
  have cur: "current (sch s) c = Some p" using L(1)[of c] sup(3,4) by (simp add: cpu_link_def)
  note R = view_running[OF I(1), of c p, unfolded I(3), OF sup(2) cur]
  have "\<not> pending s p e" for e using no_events(2)[OF inv] sup(1) by simp
  then have "op_now s p = OP_CPU" using L(3)[OF R(1)] R(2) by (auto simp: proc_link_def Let_def split: op_type.splits)
  then show ?thesis using cur R(2,3) by blast
qed

text \<open>C3: As long as the supervisor does not simulate a CPU whose thread is still on its way back from the scheduler, the whole
  simulator refines the scheduler's contract: whatever the order of its threads, what its steps do to the scheduler's data
  and to the callbacks in progress is a run of callbacks, calls of \<open>wake_up\<close> for processes that wait or are new, and updates
  of the simulator's own fields, from the scheduler's first state.\<close>

theorem prompt_simulator_keeps_contract:
  assumes "started n q room s0" and "PROCESS_COUNT \<le> room" and "prompt_step\<^sup>*\<^sup>* s0 s"
  shows "sched_step\<^sup>*\<^sup>* (init_sched n q, \<lambda>_. None) (contract_view s)"
  using client.run[OF assms(3)] started_contract[OF assms(1,2)] started_view[OF assms(1)] by metis

theorem prompt_simulator_keeps_contract_witness:
  "sched_step\<^sup>*\<^sup>* (init_sched 2 (-1), \<lambda>_. None) (contract_view idle_state)"
  using idle_run_prompt prompt_simulator_keeps_contract[of 2 "-1" PROCESS_COUNT _ idle_state] by blast

text \<open>C11: In such a run the supervisor spends a CPU's time only on the right process: the one that the scheduler has put on
  this CPU and on no other, which is in the state \<open>PROCESS_RUNNING\<close> and at a CPU burst, never one that waits for I/O or has
  terminated.\<close>

theorem prompt_simulator_runs_running:
  assumes "started n q room s0" and "PROCESS_COUNT \<le> room" and "prompt_step\<^sup>*\<^sup>* s0 s"
    and "supervisor s = Sup_Cpus c" and "c < cpu_count s" and "cd_current (cpu_data s c) = Some p" and "threads s c = Blocked"
  shows "current (sch s) c = Some p \<and> (\<forall>d < cpu_count s. current (sch s) d = Some p \<longrightarrow> d = c)
    \<and> os_state (tasks (sch s) p) = PROCESS_RUNNING \<and> op_now s p = OP_CPU"
  using prompt_burst[OF prompt_inv[OF assms(1-3)] assms(4-7)] .

theorem prompt_simulator_runs_running_witness:
  "\<exists>s. run_threads burst_run idle_state = Inr s \<and> os_state (tasks (sch s) 0) = PROCESS_RUNNING \<and> op_now s 0 = OP_CPU"
  using burst_reach prompt_simulator_runs_running[of 2 "-1" PROCESS_COUNT _ _ 0 0] by fastforce

text \<open>CPU 0 then runs process 0 to its first I/O operation and handles the event, and the next interval begins.\<close>

definition waiting_run :: "thread list" where
  "waiting_run = replicate 2 (Cpu 0) @ replicate 19 Supervisor @ replicate 11 (Cpu 0) @ replicate 7 Supervisor"

lemma waiting_run_prompt:
  "\<exists>s. run_threads waiting_run idle_state = Inr s \<and> prompt_run waiting_run idle_state \<and> supervisor s = Sup_Gantt
    \<and> os_state (tasks (sch s) 0) = PROCESS_WAITING"
  unfolding waiting_run_def idle_state_def by (simp add: replicate_unroll run_eval prompt_def)

end
