(* ===== verification/Os_Exit.thy ===== *)
theory Os_Exit
  imports Os_Refine
begin

text \<open>
  When the simulator ends: the processes that have reached \<open>OP_TERMINATE\<close>, those that have been counted in
  \<open>processes_terminated\<close>, and those whose termination is still to be counted.
\<close>

subsection \<open>Counting terminated processes\<close>

definition at_end :: "os \<Rightarrow> nat set" where
  "at_end s = {p. p < PROCESS_COUNT \<and> op_now s p = OP_TERMINATE}"

text \<open>CPU \<open>c\<close> has an event \<open>CPU_TERMINATE\<close> that it has not counted.\<close>

definition uncounted :: "os \<Rightarrow> nat \<Rightarrow> int" where
  "uncounted s c = (case threads s c of
     Blocked \<Rightarrow> of_bool (cd_state (cpu_data s c) = CPU_TERMINATE)
   | Dispatch st \<Rightarrow> of_bool (st = CPU_TERMINATE)
   | _ \<Rightarrow> 0)"

text \<open>The processes at their end whose termination has been neither counted nor noted.\<close>

definition missed :: "os \<Rightarrow> int" where
  "missed s = int (card (at_end s)) - uint (processes_terminated s) - (\<Sum>c < cpu_count s. uncounted s c)"

lemma uncounted_cong:
  "threads s' c = threads s c \<Longrightarrow> cd_state (cpu_data s' c) = cd_state (cpu_data s c) \<Longrightarrow> uncounted s' c = uncounted s c"
  by (simp add: uncounted_def split: cpu_pc.split)

lemma uncounted_bounds: "0 \<le> uncounted s c" "uncounted s c \<le> 1"
  by (simp_all add: uncounted_def split: cpu_pc.split)

lemma uncounted_event: "\<not> in_event s c \<Longrightarrow> uncounted s c = 0"
  by (auto simp: uncounted_def in_event_def split: cpu_pc.splits)

lemma at_end_finite: "finite (at_end s)" "card (at_end s) \<le> PROCESS_COUNT"
proof -
  have sub: "at_end s \<subseteq> {..<PROCESS_COUNT}" by (auto simp: at_end_def)
  then show "finite (at_end s)" using finite_subset by blast
  show "card (at_end s) \<le> PROCESS_COUNT" using card_mono[OF _ sub] by simp
qed

lemma uint_Suc32: "uint (w :: u32) < 100 \<Longrightarrow> uint (w + 1) = uint w + 1"
  by (simp add: uint_word_ariths(1))

text \<open>What a CPU thread does to the count of its own events.\<close>

lemma cpu_step_counts:
  assumes st: "cpu_step c s = Inr (Some s')" and small: "uint (processes_terminated s) < 100"
  shows "uint (processes_terminated s') + uncounted s' c = uint (processes_terminated s) + uncounted s c"
    and "simulator_time s' = simulator_time s"
proof -
  have live: "supervisor s \<noteq> Sup_Exit" using st by (auto simp: cpu_step_def)
  note inc = uint_Suc32[OF small]
  have "uint (processes_terminated s') + uncounted s' c = uint (processes_terminated s) + uncounted s c
      \<and> simulator_time s' = simulator_time s"
  proof (cases "threads s c")
    case At_Loop
    then show ?thesis
      using st live
      by (auto simp: cpu_step_def loop_top_def Let_def uncounted_def goto_def set_cpu_state_def sup_goto_def split: if_splits)
  next
    case (Dispatch e)
    then show ?thesis
      using st live inc by (cases e) (auto simp: cpu_step_def dispatch_def uncounted_def goto_def split: if_splits)
  next
    case (In_Callback w pc)
    show ?thesis
    proof (cases "\<exists>p. pc = Call_Switch p")
      case True
      then show ?thesis
        using st live In_Callback by (auto simp: cpu_step_def os_context_switch_def uncounted_def goto_def)
    next
      case False
      then obtain pc' sc where "s' = goto (s\<lparr>sch := sc\<rparr>) c (In_Callback w pc')"
        using st live In_Callback by (cases pc) (auto simp: cpu_step_def)
      then show ?thesis using In_Callback by (simp add: uncounted_def goto_def)
    qed
  qed (use st live in \<open>auto simp: cpu_step_def uncounted_def goto_def split: if_splits\<close>)
  then show "uint (processes_terminated s') + uncounted s' c = uint (processes_terminated s) + uncounted s c"
    "simulator_time s' = simulator_time s" by blast+
qed

lemma cpu_step_missed:
  assumes inv: "os_inv s" and c: "c < cpu_count s" and st: "cpu_step c s = Inr (Some s')"
    and small: "uint (processes_terminated s) < 100"
  shows "missed s' = missed s"
proof -
  note e = cpu_step_effect[OF st, unfolded cpu_effect_def]
  have "at_end s' = at_end s" using same_ops_now[OF cpu_step_same_ops[OF inv c st]] by (simp add: at_end_def)
  moreover have "(\<Sum>d < cpu_count s. uncounted s' d) + uncounted s c = (\<Sum>d < cpu_count s. uncounted s d) + uncounted s' c"
    using c e by (intro sum_one_moved uncounted_cong) auto
  ultimately show ?thesis using cpu_step_counts(1)[OF st small] e by (simp add: missed_def)
qed

subsection \<open>The supervisor\<close>

lemma sup_step_burst:
  assumes inv: "os_inv s" and st: "sup_step s = Inr (Some s')"
  obtains (burst) c p where "supervisor s = Sup_Cpus c" "c < cpu_count s" "cd_current (cpu_data s c) = Some p" "p < PROCESS_COUNT"
      "simulate_process c p s = Inr s'" "burst_work c p s s'"
  | (other) "threads s' = threads s" "cpu_count s' = cpu_count s" "\<And>c. cd_state (cpu_data s' c) = cd_state (cpu_data s c)"
      "\<And>c. cd_current (cpu_data s' c) = cd_current (cpu_data s c)" "\<And>c. supervisor s' \<noteq> Sup_Wait c"
      "at_end s' = at_end s" "processes_terminated s' = processes_terminated s"
proof (cases "\<exists>c p. supervisor s = Sup_Cpus c \<and> c < cpu_count s \<and> cd_current (cpu_data s c) = Some p")
  case True
  then obtain c p where c: "supervisor s = Sup_Cpus c" "c < cpu_count s" "cd_current (cpu_data s c) = Some p" by blast
  then have sim: "simulate_process c p s = Inr s'" using st by (simp add: sup_step_def simulate_cpu_def)
  have p: "p < PROCESS_COUNT" using inv c(3) unfolding os_inv_def by (metis in_range_simps(2))
  then show thesis using burst c sim simulate_process_work[OF inv p sim] by blast
next
  case False
  have "\<not> sup_raises s s'" using False by (auto simp: sup_raises_def)
  then have m: "sup_moves s s'" using sup_step_effect(1)[OF st] by blast
  note f = sup_moves_frame[OF m]
  have goto: "op_now (sup_goto s1 t) p = op_now s1 p" for s1 t p by (simp add: op_now_def)
  have now: "at_end s' = at_end s \<and> processes_terminated s' = processes_terminated s"
  proof (cases "supervisor s")
    case Sup_Io
    then obtain r s1 where s1: "simulate_io s = Inr (r, s1)"
      "s' = sup_goto s1 (case r of None \<Rightarrow> Sup_Creat | Some p \<Rightarrow> Sup_Lock True p)"
      using st by (auto simp: sup_step_def)
    note w = simulate_io_work[OF inv s1(1)]
    then have "at_end s1 = at_end s" by (cases r) (auto simp: at_end_def)
    then show ?thesis using w s1(2) goto by (simp add: at_end_def same_counters_def sup_goto_def)
  next
    case (Sup_Wake io p)
    then have p: "p < PROCESS_COUNT" using inv by (simp add: os_inv_def sup_ok_def)
    then obtain sc where sc: "make_ready p (sch s) = Inr sc" "sched_fine (sch s) sc"
      using make_ready_range[of "sch s" p] inv by (auto simp: os_inv_def)
    then have s': "s' = sup_goto (s\<lparr>sch := sc\<rparr>) (Sup_Unlock io)"
      using st Sup_Wake by (simp add: sup_step_def lift_sched_def wake_up_def)
    then have "op_now s' q = op_now s q" for q using sc(2) by (intro same_ops_now) (simp add: same_ops_sch)
    then show ?thesis using s' by (simp add: at_end_def sup_goto_def)
  next
    case (Sup_Cpus n)
    then have "s' = sup_goto s (Sup_Cpus (n + 1)) \<or> s' = sup_goto s Sup_Io"
      using st False by (auto simp: sup_step_def simulate_cpu_def split: if_splits option.splits)
    then show ?thesis by (auto simp: at_end_def goto sup_goto_def op_now_def)
  qed (use st in \<open>auto simp: sup_step_def at_end_def op_now_def sup_goto_def gantt_line_def split: if_splits\<close>)
  show thesis by (rule other) (use f now in auto)
qed

lemma sup_step_missed:
  assumes inv: "os_inv s" and ev: "events_ok s" and st: "sup_step s = Inr (Some s')"
  shows "missed s \<le> missed s'" and "prompt s \<Longrightarrow> missed s' = missed s"
    and "processes_terminated s' = processes_terminated s"
proof -
  have "\<not> in_event s c" for c using ev sup_step_effect(2)[OF st, of c] by (auto simp: events_ok_def)
  then have zero: "uncounted s c = 0" for c using uncounted_event by blast
  have "missed s \<le> missed s' \<and> (prompt s \<longrightarrow> missed s' = missed s) \<and> processes_terminated s' = processes_terminated s"
    using inv st
  proof (cases rule: sup_step_burst)
    case (burst c p)
    have same: "threads s' = threads s" "cpu_count s' = cpu_count s" "processes_terminated s' = processes_terminated s"
      using burst(6) by (simp_all add: burst_work_def sup_work_def same_counters_def)
    have others: "uncounted s' d = 0" if "d \<noteq> c" for d
      using zero[of d] uncounted_cong[of s' d s] same burst(6) that by (simp add: burst_work_def)
    have sum: "(\<Sum>d < cpu_count s. uncounted s' d) = uncounted s' c"
      using sum_one_moved[of c "cpu_count s" "uncounted s'" "\<lambda>_. 0"] others burst(2) by simp
    have rest: "op_now s' q = op_now s q" if "q \<noteq> p" for q using burst(6) that by (simp add: burst_work_def)
    have m: "missed s' = missed s + (int (card (at_end s')) - int (card (at_end s))) - uncounted s' c"
      using sum same zero by (simp add: missed_def)
    show ?thesis
    proof (cases "op_now s' p = op_now s p")
      case True
      then have "op_now s' q = op_now s q" for q using rest by (cases "q = p") auto
      then have at: "at_end s' = at_end s" by (simp add: at_end_def)
      have "uncounted s' c = 0"
      proof (cases "supervisor s' = Sup_Wait c")
        case True
        then have "op_now s p = OP_CPU" "op_now s' p = event_op (cd_state (cpu_data s' c))"
          using burst(6) by (auto simp: burst_work_def)
        then have "cd_state (cpu_data s' c) \<noteq> CPU_TERMINATE" using \<open>op_now s' p = op_now s p\<close> by (auto simp: event_op_def)
        then show ?thesis using zero[of c] same by (simp add: uncounted_def split: cpu_pc.splits)
      next
        case False
        then have "cd_state (cpu_data s' c) = cd_state (cpu_data s c)" using burst(6) by (auto simp: burst_work_def)
        then show ?thesis using zero[of c] same uncounted_cong[of s' c s] by simp
      qed
      then show ?thesis using m at same by simp
    next
      case False
      then have r: "op_now s p = OP_CPU" "cd_state (cpu_data s' c) \<in> {CPU_PREEMPT, CPU_YIELD, CPU_TERMINATE}"
        "op_now s' p = event_op (cd_state (cpu_data s' c))" "supervisor s' = Sup_Wait c"
        using burst(6) by (auto simp: burst_work_def)
      have at: "at_end s' = (if cd_state (cpu_data s' c) = CPU_TERMINATE then insert p (at_end s) else at_end s)"
      proof -
        have "op_now s' q = (if q = p then event_op (cd_state (cpu_data s' c)) else op_now s q)" for q using rest r(3) by simp
        then show ?thesis using r(1,2) burst(4) by (auto simp: at_end_def event_op_def)
      qed
      have notin: "p \<notin> at_end s" using r(1) by (simp add: at_end_def)
      have card: "int (card (at_end s')) - int (card (at_end s)) = of_bool (cd_state (cpu_data s' c) = CPU_TERMINATE)"
        using at notin at_end_finite(1)[of s] by simp
      have le: "uncounted s' c \<le> of_bool (cd_state (cpu_data s' c) = CPU_TERMINATE)"
      proof (cases "threads s c")
        case (Dispatch st)
        then show ?thesis using zero[of c] same by (simp add: uncounted_def)
      qed (use same in \<open>simp_all add: uncounted_def\<close>)
      have "uncounted s' c = of_bool (cd_state (cpu_data s' c) = CPU_TERMINATE)" if "prompt s"
      proof -
        have "threads s' c = Blocked" using that burst(1-3) same by (simp add: prompt_def)
        then show ?thesis by (simp add: uncounted_def)
      qed
      then show ?thesis using m card le same by auto
    qed
  next
    case other
    then have "uncounted s' d = uncounted s d" for d by (intro uncounted_cong) simp_all
    then show ?thesis using other by (simp add: missed_def)
  qed
  then show "missed s \<le> missed s'" "prompt s \<Longrightarrow> missed s' = missed s" "processes_terminated s' = processes_terminated s" by blast+
qed

subsection \<open>Reachable states\<close>

definition exit_ok :: "os \<Rightarrow> bool" where
  "exit_ok s \<longleftrightarrow> os_inv s \<and> events_ok s \<and> 0 \<le> missed s
     \<and> (supervisor s = Sup_Exit \<longrightarrow> int PROCESS_COUNT \<le> uint (processes_terminated s))"

lemma counted_le: "0 \<le> missed s \<Longrightarrow> uint (processes_terminated s) \<le> int (card (at_end s))"
  using sum_nonneg[of "{..<cpu_count s}" "uncounted s"] uncounted_bounds(1) by (simp add: missed_def)

lemma counted_small: "0 \<le> missed s \<Longrightarrow> uint (processes_terminated s) < 100"
  using counted_le[of s] at_end_finite(2)[of s] by (simp add: PROCESS_COUNT_def)

lemma exits_counted: "of_nat PROCESS_COUNT \<le> (w :: u32) \<longleftrightarrow> int PROCESS_COUNT \<le> uint w"
  by (simp add: PROCESS_COUNT_def word_le_def)

lemma sup_step_exit:
  assumes "sup_step s = Inr (Some s')" and "supervisor s' = Sup_Exit"
  shows "supervisor s = Sup_Loop \<and> int PROCESS_COUNT \<le> uint (processes_terminated s)"
proof (cases "supervisor s")
  case Sup_Loop
  then show ?thesis using assms exits_counted[of "processes_terminated s"] by (auto simp: sup_step_def split: if_splits)
next
  case (Sup_Cpus n)
  have "\<not> burst_result n s s'" using assms(2) by (auto simp: burst_result_def)
  then show ?thesis
    using assms Sup_Cpus simulate_process_result[of n _ s s']
    by (auto simp: sup_step_def simulate_cpu_def split: if_splits option.splits)
next
  case (Sup_Unlock io)
  then show ?thesis using assms by (cases io) (auto simp: sup_step_def)
next
  case Sup_Creat
  then show ?thesis using assms by (auto simp: sup_step_def split: if_splits)
qed (use assms in \<open>auto simp: sup_step_def split: if_splits option.splits\<close>)

lemma exit_ok_step:
  assumes ok: "exit_ok s" and st: "os_step s s'"
  shows "exit_ok s'"
proof -
  have I: "os_inv s" "events_ok s" "0 \<le> missed s" using ok by (simp_all add: exit_ok_def)
  from st obtain t where t: "thread_step t s = Inr (Some s')" by (auto elim: os_stepE)
  have "0 \<le> missed s' \<and> (supervisor s' = Sup_Exit \<longrightarrow> int PROCESS_COUNT \<le> uint (processes_terminated s'))"
  proof (cases t)
    case (Cpu c)
    then have c: "c < cpu_count s" "cpu_step c s = Inr (Some s')" using t by (auto simp: thread_step_def split: if_splits)
    have "supervisor s' \<noteq> Sup_Exit" using c(2) cpu_step_effect[OF c(2)] by (auto simp: cpu_step_def cpu_effect_def)
    then show ?thesis using cpu_step_missed[OF I(1) c counted_small[OF I(3)]] I(3) by simp
  next
    case Supervisor
    then have st': "sup_step s = Inr (Some s')" using t by (simp add: thread_step_def)
    show ?thesis using sup_step_missed(1,3)[OF I(1,2) st'] sup_step_exit[OF st'] I(3) by auto
  qed
  then show ?thesis using os_step_inv[OF I(1) st] events_ok_step[OF I(2) st] by (simp add: exit_ok_def)
qed

interpretation exiting: step_invariant os_step exit_ok
  by unfold_locales (rule exit_ok_step)

lemma started_missed:
  assumes "started n q room s" and "PROCESS_COUNT \<le> room"
  shows "missed s = 0"
proof -
  have inv: "contract_inv s" using started_contract[OF assms] .
  have no: "op_now s p \<noteq> OP_TERMINATE" if p: "p < PROCESS_COUNT" for p
  proof
    assume "op_now s p = OP_TERMINATE"
    then have "os_state (tasks (sch s) p) = PROCESS_TERMINATED \<or> pending s p CPU_TERMINATE"
      using inv p by (auto simp: contract_inv_def links_def proc_link_def)
    moreover have "sch s = init_sched n q" "threads s = (\<lambda>_. At_Loop)"
      using assms(1) by (auto simp: started_def start_simulator_def)
    ultimately show False using init_state[OF p] by (simp add: pending_def event_of_def)
  qed
  then have "at_end s = {}" by (auto simp: at_end_def)
  moreover have "processes_terminated s = 0" "threads s = (\<lambda>_. At_Loop)"
    using assms(1) by (auto simp: started_def start_simulator_def)
  ultimately show ?thesis by (simp add: missed_def uncounted_def)
qed

lemma started_exit: "started n q room s \<Longrightarrow> PROCESS_COUNT \<le> room \<Longrightarrow> exit_ok s"
  using started_inv[of n q room s] started_missed[of n q room s] startedD(2)[of n q room s] by (simp add: exit_ok_def)

text \<open>C10: Whatever the order of the threads, the simulator counts a process as terminated at most once, and only when it has
  executed all its operations; so the simulation never ends while a process still has an operation to execute, even if
  events have been lost.\<close>

theorem exits_only_when_done:
  assumes "started n q room s0" and "PROCESS_COUNT \<le> room" and "os_step\<^sup>*\<^sup>* s0 s"
    and "p < PROCESS_COUNT" and "op_now s p \<noteq> OP_TERMINATE"
  shows "uint (processes_terminated s) \<le> int (card {q. q < PROCESS_COUNT \<and> op_now s q = OP_TERMINATE}) \<and> supervisor s \<noteq> Sup_Exit"
proof -
  have ok: "exit_ok s" using exiting.reachable[OF assms(3) started_exit[OF assms(1,2)]] .
  then have le: "uint (processes_terminated s) \<le> int (card (at_end s))" using counted_le by (simp add: exit_ok_def)
  have "at_end s \<subset> {..<PROCESS_COUNT}" using assms(4,5) by (auto simp: at_end_def)
  then have "card (at_end s) < PROCESS_COUNT" using psubset_card_mono[of "{..<PROCESS_COUNT}"] by simp
  then have "supervisor s \<noteq> Sup_Exit" using ok le by (auto simp: exit_ok_def)
  then show ?thesis using le by (simp add: at_end_def)
qed

theorem exits_only_when_done_witness: "supervisor lost_state \<noteq> Sup_Exit \<and> op_now lost_state 0 = OP_IO"
proof -
  have now: "op_now lost_state 0 = OP_IO"
    by (simp add: op_now_def lost_state_def yield_state_def idle_state_def pid0_ops_def)
  then show ?thesis
    using lost_reach exits_only_when_done[of 2 "-1" PROCESS_COUNT _ lost_state 0] by (auto simp: PROCESS_COUNT_def)
qed

text \<open>In a prompt run nothing is missed.\<close>

definition prompt_inv_exact :: "os \<Rightarrow> bool" where
  "prompt_inv_exact s \<longleftrightarrow> contract_inv s \<and> lock_ok s \<and> missed s = 0"

lemma prompt_exact_step:
  assumes ok: "prompt_inv_exact s" and st: "prompt_step s s'"
  shows "prompt_inv_exact s'"
proof -
  have I: "contract_inv s" "lock_ok s" "missed s = 0" "os_inv s" "events_ok s"
    using ok by (simp_all add: prompt_inv_exact_def contract_inv_def)
  from st obtain t where t: "thread_step t s = Inr (Some s')" "t = Supervisor \<Longrightarrow> prompt s" by (auto elim: prompt_stepE)
  have "missed s' = 0"
  proof (cases t)
    case (Cpu c)
    then have "c < cpu_count s" "cpu_step c s = Inr (Some s')" using t(1) by (auto simp: thread_step_def split: if_splits)
    then show ?thesis using cpu_step_missed[OF I(4) _ _ counted_small] I(3) by simp
  next
    case Supervisor
    then show ?thesis using sup_step_missed(2)[OF I(4,5)] t I(3) by (simp add: thread_step_def)
  qed
  then show ?thesis
    using prompt_step_contract[OF I(1) st] lock_ok_step[OF I(2) prompt_os_step[OF st]] by (simp add: prompt_inv_exact_def)
qed

interpretation exact: step_invariant prompt_step prompt_inv_exact
  by unfold_locales (rule prompt_exact_step)

lemma started_exact: "started n q room s \<Longrightarrow> PROCESS_COUNT \<le> room \<Longrightarrow> prompt_inv_exact s"
  using started_contract[of n q room s] started_missed[of n q room s] started_inv(3)[of n q room s] by (simp add: prompt_inv_exact_def)

end
