(* ===== verification/Os_Io_Work.thy ===== *)
theory Os_Io_Work
  imports Os_Exit
begin

text \<open>
  The I/O time the processes still need: it goes down by one in every interval in which the I/O queue is not empty, and nothing
  else changes it.
\<close>

subsection \<open>What is left of the requests and of the operations\<close>

definition io_cost :: "op_t \<Rightarrow> nat" where
  "io_cost op = (if op_kind op = OP_IO then unat (op_time op) + 1 else 0)"

definition queued :: "(nat \<Rightarrow> io_request option) \<Rightarrow> nat" where
  "queued h = (\<Sum>r \<in> dom h. unat (execution_time (the (h r))) + 1)"

text \<open>The operations after the one a process is at; the I/O operation it is at is in the queue.\<close>

definition io_future :: "os \<Rightarrow> nat \<Rightarrow> nat" where
  "io_future s p = (\<Sum>op \<leftarrow> drop (Suc (os_pc (tasks (sch s) p))) (operations s p). io_cost op)"

definition io_left :: "os \<Rightarrow> nat" where
  "io_left s = queued (cells (io_heap s)) + (\<Sum>p < PROCESS_COUNT. io_future s p)"

lemma queued_insert:
  "finite (dom h) \<Longrightarrow> r \<notin> dom h \<Longrightarrow> queued (h(r \<mapsto> v)) = queued h + (unat (execution_time v) + 1)"
proof -
  assume a: "finite (dom h)" "r \<notin> dom h"
  have "(\<Sum>x \<in> dom h. unat (execution_time (the ((h(r \<mapsto> v)) x))) + 1) = queued h"
    unfolding queued_def using a(2) by (intro sum.cong) auto
  then show ?thesis using a by (simp add: queued_def)
qed

lemma queued_remove:
  assumes "finite (dom h)" and "h r = Some v"
  shows "queued h = queued (h(r := None)) + (unat (execution_time v) + 1)"
proof -
  have "(\<Sum>x \<in> dom h - {r}. unat (execution_time (the (h x))) + 1) = queued (h(r := None))"
    unfolding queued_def by (intro sum.cong) auto
  moreover have "r \<in> dom h" using assms(2) by blast
  ultimately show ?thesis using assms sum.remove[of "dom h" r "\<lambda>x. unat (execution_time (the (h x))) + 1"]
    unfolding queued_def by simp
qed

lemma queued_update:
  assumes "finite (dom h)" and "h r = Some v"
  shows "queued (h(r \<mapsto> w)) + unat (execution_time v) = queued h + unat (execution_time w)"
proof -
  have "queued (h(r := None, r \<mapsto> w)) = queued (h(r := None)) + (unat (execution_time w) + 1)"
    using assms(1) by (intro queued_insert) auto
  then show ?thesis using queued_remove[OF assms] by simp
qed

lemma io_dom:
  assumes "io_ok s"
  shows "finite (dom (cells (io_heap s)))" "heap_ok (io_heap s)"
  using assms by (auto simp: io_ok_def io_items_def io_list_def)

lemma io_left_same:
  "same_ops s s' \<Longrightarrow> io_heap s' = io_heap s \<Longrightarrow> io_left s' = io_left s"
  by (simp add: same_ops_def io_left_def io_future_def)

lemma future_change:
  assumes "p < PROCESS_COUNT" and "\<And>q. q \<noteq> p \<Longrightarrow> io_future s' q = io_future s q" and "io_future s p = io_future s' p + k"
  shows "(\<Sum>p < PROCESS_COUNT. io_future s p) = (\<Sum>p < PROCESS_COUNT. io_future s' p) + k"
proof -
  have "(\<Sum>q \<in> {..<PROCESS_COUNT} - {p}. io_future s q) = (\<Sum>q \<in> {..<PROCESS_COUNT} - {p}. io_future s' q)"
    using assms(2) by (intro sum.cong) auto
  then show ?thesis using assms(1,3) by (simp add: sum.remove[of _ p])
qed

subsection \<open>The operations of the supervisor\<close>

lemma advance_future:
  assumes p: "p < PROCESS_COUNT" and st: "advance s p = Inr (op, s')"
  shows "(\<Sum>p < PROCESS_COUNT. io_future s p) = (\<Sum>p < PROCESS_COUNT. io_future s' p) + io_cost op" "io_heap s' = io_heap s"
    "io_queue_head s' = io_queue_head s"
proof -
  let ?i = "os_pc (tasks (sch s) p)"
  have s': "operations s' = operations s" "\<And>q. os_pc (tasks (sch s') q) = (if q = p then Suc ?i else os_pc (tasks (sch s) q))"
    and op: "Suc ?i < length (operations s p)" "op = operations s p ! Suc ?i"
    using st p by (auto simp: advance_def update_task_def get_task_def set_task_def op_at_def split: if_splits)
  show "io_heap s' = io_heap s" "io_queue_head s' = io_queue_head s" using st by (auto simp: advance_def update_task_def)
  have "drop (Suc ?i) (operations s p) = op # drop (Suc (Suc ?i)) (operations s p)"
    using op by (simp add: Cons_nth_drop_Suc)
  then show "(\<Sum>p < PROCESS_COUNT. io_future s p) = (\<Sum>p < PROCESS_COUNT. io_future s' p) + io_cost op"
    using s' by (intro future_change[OF p]) (simp_all add: io_future_def)
qed

lemma submit_left:
  assumes ok: "io_ok s" and st: "submit_io_request t s p = Inr s'"
  shows "queued (cells (io_heap s')) = queued (cells (io_heap s)) + unat t + 1"
proof -
  let ?h = "io_heap s" and ?r = "brk (io_heap s)"
  let ?c = "\<lparr>io_pcb = p, execution_time = t, io_next = None\<rparr>"
  note D = io_dom[OF ok]
  have fresh: "?r \<notin> dom (cells ?h)" using heap_fresh[OF D(2)] by auto
  have new: "queued ((cells ?h)(?r \<mapsto> ?c)) = queued (cells ?h) + unat t + 1"
    using queued_insert[OF D(1) fresh, of ?c] by simp
  show ?thesis
  proof (cases "io_queue_tail s")
    case None
    then show ?thesis using st new by (auto simp: submit_io_request_def heap_alloc_def split: if_splits)
  next
    case (Some l)
    then obtain q where q: "((cells ?h)(?r \<mapsto> ?c)) l = Some q"
      and s': "cells (io_heap s') = ((cells ?h)(?r \<mapsto> ?c))(l \<mapsto> q\<lparr>io_next := Some ?r\<rparr>)"
      using st by (auto simp: submit_io_request_def heap_alloc_def load_def store_def split: if_splits option.splits)
    have "finite (dom ((cells ?h)(?r \<mapsto> ?c)))" using D(1) by simp
    from queued_update[OF this q, of "q\<lparr>io_next := Some ?r\<rparr>"] show ?thesis unfolding s' using new
      by (simp del: fun_upd_apply add: fun_upd_def)
  qed
qed

lemma run_burst_io:
  assumes st: "run_burst c p op s = Inr s'"
  shows "io_left s' = io_left s \<and> io_queue_head s' = io_queue_head s"
proof -
  obtain t where t: "get_task (sch s) p = Inr t" using st by (auto simp: run_burst_def)
  then have p: "p < PROCESS_COUNT" "t = tasks (sch s) p" by (auto simp: get_task_def split: if_splits)
  then have s': "operations s' = (operations s)(p := (operations s p)[os_pc t := op\<lparr>op_time := op_time op - 1\<rparr>])"
    "\<And>q. os_pc (tasks (sch s') q) = os_pc (tasks (sch s) q)" "io_heap s' = io_heap s" "io_queue_head s' = io_queue_head s"
    using st by (auto simp: run_burst_def Let_def update_task_def get_task_def set_task_def raise_event_def set_cpu_state_def sup_goto_def)
  have "io_future s' q = io_future s q" for q
    using s'(1,2) p(2) by (simp add: io_future_def drop_update_cancel)
  then show ?thesis using s'(3,4) by (simp add: io_left_def)
qed

lemma end_burst_io:
  assumes inv: "os_inv s" and p: "p < PROCESS_COUNT" and cpu: "op_now s p = OP_CPU" and st: "end_burst c p s = Inr s'"
  shows "io_left s' = io_left s"
proof -
  obtain op s1 where a: "advance s p = Inr (op, s1)" using st by (auto simp: end_burst_def)
  note f = advance_future[OF p a]
  have kind: "op_kind op \<noteq> OP_CPU" using advance_now(3)[OF inv p _ a] cpu by simp
  have events: "io_left (raise_event s2 d e) = io_left s2" for s2 d e
    by (intro io_left_same) (simp_all add: raise_event_def set_cpu_state_def sup_goto_def same_ops_def)
  show ?thesis
  proof (cases "op_kind op")
    case OP_IO
    then obtain s2 where s2: "submit_io_request (op_time op) s1 p = Inr s2" "s' = raise_event s2 c CPU_YIELD"
      using st a by (auto simp: end_burst_def)
    obtain sc where s1: "s1 = s\<lparr>sch := sc\<rparr>" using a by (auto simp: advance_def update_task_def)
    have "io_ok s" using inv by (simp add: os_inv_def)
    then obtain ps where "io_items s ps" by (auto simp: io_ok_def)
    then have fin: "finite (dom (cells (io_heap s)))" "heap_ok (io_heap s)" by (auto simp: io_items_def io_list_def)
    have same: "submit_io_request (op_time op) s p = Inr (s2\<lparr>sch := sch s\<rparr>)"
      using s2(1) s1 by (auto simp: submit_io_request_def split: option.splits if_splits)
    from submit_left[OF \<open>io_ok s\<close> same]
    have "queued (cells (io_heap s2)) = queued (cells (io_heap s)) + io_cost op" using OP_IO by (simp add: io_cost_def)
    moreover have "io_future s2 q = io_future s1 q" for q
      using submit_frame[OF s2(1)] by (simp add: queue_frame_def io_future_def)
    ultimately have "io_left s2 = io_left s" using f(1) by (simp add: io_left_def)
    then show ?thesis using events s2(2) by simp
  next
    case OP_TERMINATE
    then have "s' = raise_event s1 c CPU_TERMINATE" "io_cost op = 0" using st a by (simp_all add: end_burst_def io_cost_def)
    then show ?thesis using events f by (simp add: io_left_def)
  qed (use kind in simp)
qed

lemma simulate_process_io:
  assumes inv: "os_inv s" and p: "p < PROCESS_COUNT" and st: "simulate_process c p s = Inr s'"
  shows "io_left s' = io_left s"
proof -
  obtain op where op: "op_at s p (os_pc (tasks (sch s) p)) = Inr op" "op_now s p = op_kind op"
    using op_now_at[OF os_invD(3)[OF inv] p] by blast
  have get: "get_task (sch s) p = Inr (tasks (sch s) p)" using p by (simp add: get_task_def)
  show ?thesis
  proof (cases "op_kind op = OP_CPU")
    case True
    then show ?thesis
      using st op get run_burst_io[of c p op s s'] end_burst_io[OF inv p]
      by (simp add: simulate_process_def split: if_splits)
  next
    case False
    then have "s' = sup_goto s (Sup_Cpus (c + 1))"
      using st op get by (auto simp: simulate_process_def split: op_type.splits)
    then show ?thesis by (intro io_left_same) (simp_all add: sup_goto_def same_ops_def)
  qed
qed

text \<open>An interval with a request in the queue.\<close>

lemma simulate_io_io:
  assumes inv: "os_inv s" and st: "simulate_io s = Inr (r, s')"
  shows "io_left s = io_left s' + (if io_queue_head s = None then 0 else 1)"
proof (cases "io_queue_head s")
  case None
  then show ?thesis using st by (simp add: simulate_io_def)
next
  case (Some a)
  have ok: "io_ok s" using inv by (simp add: os_inv_def)
  note D = io_dom[OF ok]
  obtain v where v: "cells (io_heap s) a = Some v" "io_pcb v < PROCESS_COUNT" "op_now s (io_pcb v) = OP_IO"
    using io_head_cell[OF inv Some] by blast
  let ?p = "io_pcb v" and ?h = "cells (io_heap s)"
  let ?v = "v\<lparr>execution_time := execution_time v - 1\<rparr>"
  let ?s1 = "s\<lparr>io_heap := (io_heap s)\<lparr>cells := ?h(a \<mapsto> ?v)\<rparr>\<rparr>"
  have future: "io_future ?s1 q = io_future s q" for q by (simp add: io_future_def)
  have res: "(if execution_time v \<le> 0 then bindE (advance ?s1 ?p) (\<lambda>(_, s2). remove_io_request s2)
      else Inr (None, ?s1)) = Inr (r, s')"
    using st Some v(1) by (simp add: simulate_io_def Let_def)
  have upd: "queued (?h(a \<mapsto> ?v)) + unat (execution_time v) = queued ?h + unat (execution_time v - 1)"
    using queued_update[OF D(1) v(1), of ?v] by simp
  show ?thesis
  proof (cases "execution_time v \<le> 0")
    case False
    then have "unat (execution_time v) = unat (execution_time v - 1) + 1"
      by (metis Suc_eq_plus1 Suc_pred' word_gt_0 unat_gt_0 unat_minus_one word_le_0_iff)
    then have "queued ?h = queued (?h(a \<mapsto> ?v)) + 1" using upd by simp
    moreover have "s' = ?s1" using res False by simp
    ultimately show ?thesis using Some future by (simp add: io_left_def)
  next
    case True
    then have zero: "execution_time v = 0" by simp
    obtain op s2 where a2: "advance ?s1 ?p = Inr (op, s2)" "remove_io_request s2 = Inr (r, s')"
      using res True by auto
    have "ops_ok ?s1" "sched_range (sch ?s1)" "op_now ?s1 ?p = OP_IO"
      using inv v(3) by (simp_all add: os_inv_def ops_ok_def op_now_def)
    from advance_ok[OF this(1,2) v(2)] this(3) have "op_kind op = OP_CPU" using a2(1) by auto
    then have cost: "io_cost op = 0" by (simp add: io_cost_def)
    note f = advance_future[OF v(2) a2(1)]
    have "io_queue_head s2 = Some a" "io_heap s2 = io_heap ?s1" using f Some by simp_all
    then have h: "cells (io_heap s') = (?h(a \<mapsto> ?v))(a := None)"
      using a2(2) by (auto simp: remove_io_request_def Let_def heap_free_def split: if_splits)
    have "queued ?h = queued (?h(a := None)) + 1" using queued_remove[OF D(1) v(1)] zero by simp
    then have "queued ?h = queued (cells (io_heap s')) + 1" using h by simp
    moreover have "io_future s' q = io_future s2 q" for q
      using remove_frame[OF a2(2)] by (simp add: queue_frame_def io_future_def)
    ultimately show ?thesis using Some f(1) cost future by (simp add: io_left_def)
  qed
qed

subsection \<open>Every step\<close>

lemma cpu_step_io:
  assumes inv: "os_inv s" and c: "c < cpu_count s" and st: "cpu_step c s = Inr (Some s')"
  shows "io_left s' = io_left s" "io_queue_head s' = io_queue_head s"
proof -
  have live: "supervisor s \<noteq> Sup_Exit" using st by (auto simp: cpu_step_def)
  have "io_heap s' = io_heap s \<and> io_queue_head s' = io_queue_head s"
  proof (cases "threads s c")
    case (Dispatch e)
    then show ?thesis using st live by (cases e) (auto simp: cpu_step_def dispatch_def goto_def split: if_splits)
  next
    case (In_Callback w pc)
    then show ?thesis
      using st live by (cases pc) (auto simp: cpu_step_def os_context_switch_def goto_def)
  qed (use st live in \<open>auto simp: cpu_step_def loop_top_def Let_def goto_def set_cpu_state_def sup_goto_def split: if_splits\<close>)
  then show "io_left s' = io_left s" "io_queue_head s' = io_queue_head s"
    using io_left_same[OF cpu_step_same_ops[OF inv c st]] by simp_all
qed

lemma sup_step_io:
  assumes inv: "os_inv s" and st: "sup_step s = Inr (Some s')"
  shows "io_left s = io_left s' + (if supervisor s = Sup_Io \<and> io_queue_head s \<noteq> None then 1 else 0)"
proof (cases "supervisor s")
  case Sup_Io
  then obtain r s1 where s1: "simulate_io s = Inr (r, s1)" "s' = sup_goto s1 (case r of None \<Rightarrow> Sup_Creat | Some p \<Rightarrow> Sup_Lock True p)"
    using st by (auto simp: sup_step_def)
  then have "io_left s' = io_left s1" by (intro io_left_same) (simp_all add: sup_goto_def same_ops_def)
  then show ?thesis using simulate_io_io[OF inv s1(1)] Sup_Io by simp
next
  case (Sup_Cpus n)
  show ?thesis
  proof (cases "n < cpu_count s \<and> cd_current (cpu_data s n) \<noteq> None")
    case True
    then obtain p where p: "cd_current (cpu_data s n) = Some p" "simulate_process n p s = Inr s'"
      using st Sup_Cpus by (auto simp: sup_step_def simulate_cpu_def)
    have "p < PROCESS_COUNT" using inv p(1) unfolding os_inv_def by (metis in_range_simps(2))
    from simulate_process_io[OF inv this p(2)] show ?thesis using Sup_Cpus by simp
  next
    case False
    then have "s' = sup_goto s (Sup_Cpus (n + 1)) \<or> s' = sup_goto s Sup_Io"
      using st Sup_Cpus by (auto simp: sup_step_def simulate_cpu_def split: if_splits)
    then show ?thesis using Sup_Cpus io_left_same[of s s'] by (auto simp: sup_goto_def same_ops_def)
  qed
next
  case (Sup_Wake io p)
  then have p: "p < PROCESS_COUNT" using inv by (simp add: os_inv_def sup_ok_def)
  then obtain sc where sc: "make_ready p (sch s) = Inr sc" "sched_fine (sch s) sc"
    using make_ready_range[of "sch s" p] inv by (auto simp: os_inv_def)
  then have "s' = sup_goto (s\<lparr>sch := sc\<rparr>) (Sup_Unlock io)"
    using st Sup_Wake by (simp add: sup_step_def lift_sched_def wake_up_def)
  then show ?thesis using io_left_same[of s s'] same_ops_sch[OF sc(2)] Sup_Wake by (simp add: sup_goto_def same_ops_def)
qed (use st io_left_same[of s s'] in \<open>auto simp: sup_step_def same_ops_def sup_goto_def gantt_line_def split: if_splits\<close>)

end
