(* ===== verification/Os_Settle.thy ===== *)
theory Os_Settle
  imports Os_Io_Work
begin

text \<open>
  The threads of the CPUs come to rest: whatever the order in which they run, after finitely many steps each of them waits, for
  an event, for a process, or for the \<open>simulator_mutex\<close>.
\<close>

subsection \<open>What a CPU thread leaves alone\<close>

definition kept :: "os \<Rightarrow> os \<Rightarrow> bool" where
  "kept s s' \<longleftrightarrow> total_left s' = total_left s \<and> io_left s' = io_left s \<and> simulator_time s' = simulator_time s
     \<and> processes_created s' = processes_created s \<and> io_queue_head s' = io_queue_head s \<and> cpu_count s' = cpu_count s"

lemma exactD:
  assumes "prompt_inv_exact s"
  shows "contract_inv s" "os_inv s" "wait_ok s" "events_ok s" "links s" "lock_ok s" "missed s = 0"
    "uint (processes_terminated s) < 100"
  using assms counted_small[of s] by (simp_all add: prompt_inv_exact_def contract_inv_def)

lemma cpu_step_prompt:
  assumes "c < cpu_count s" and "cpu_step c s = Inr (Some s')"
  shows "prompt_step s s'"
  by (rule prompt_step.intros[of "Cpu c"]) (use assms in \<open>simp_all add: thread_step_def\<close>)

lemma cpu_step_kept:
  assumes inv: "prompt_inv_exact s" and c: "c < cpu_count s" and st: "cpu_step c s = Inr (Some s')"
  shows "kept s s'" and "d \<noteq> c \<Longrightarrow> threads s' d = threads s d \<and> cpu_data s' d = cpu_data s d"
    and "supervisor s' = supervisor s \<or> supervisor s = Sup_Wait c \<and> supervisor s' = Sup_Woken c"
proof -
  note I = exactD[OF inv]
  note e = cpu_step_effect[OF st, unfolded cpu_effect_def]
  show "kept s s'"
    using same_ops_left[OF cpu_step_same_ops[OF I(2) c st]] cpu_step_io[OF I(2) c st] cpu_step_counts(2)[OF st I(8)]
      cpu_step_processes[OF st] e
    by (simp add: kept_def)
  show "d \<noteq> c \<Longrightarrow> threads s' d = threads s d \<and> cpu_data s' d = cpu_data s d" using e by blast
  show "supervisor s' = supervisor s \<or> supervisor s = Sup_Wait c \<and> supervisor s' = Sup_Woken c" using e by blast
qed

subsection \<open>A measure of the steps that are left\<close>

text \<open>The thread is going to put its process in the ready queue, or has taken one from it.\<close>

definition putting :: "os \<Rightarrow> nat \<Rightarrow> bool" where
  "putting s c \<longleftrightarrow> (case threads s c of
     Blocked \<Rightarrow> cd_state (cpu_data s c) = CPU_PREEMPT
   | Dispatch st \<Rightarrow> st = CPU_PREEMPT
   | Lock_Writer pc \<Rightarrow> preempt_pc pc
   | In_Callback w pc \<Rightarrow> preempt_pc pc
   | _ \<Rightarrow> False)"

definition holding :: "os \<Rightarrow> nat \<Rightarrow> bool" where
  "holding s c \<longleftrightarrow> (case threads s c of In_Callback w (Install p) \<Rightarrow> p \<noteq> None | _ \<Rightarrow> False)"

text \<open>An upper bound of the steps of the thread until it waits, as long as no process is put in the queue or taken from it.\<close>

definition detour :: "nat option \<Rightarrow> nat" where
  "detour p = (if p = None then 12 else 0)"

definition rank :: "os \<Rightarrow> nat \<Rightarrow> nat" where
  "rank s c = (case threads s c of
     Blocked \<Rightarrow> if cd_state (cpu_data s c) = CPU_RUNNING then 0 else 25
   | At_Loop \<Rightarrow> 1 + detour (cd_current (cpu_data s c))
   | Unlock_Writer \<Rightarrow> 2 + detour (cd_current (cpu_data s c))
   | Switch_Lock w \<Rightarrow> 3 + detour (cd_current (cpu_data s c))
   | Switch_Set w p \<Rightarrow> 4 + detour p
   | Dispatch st \<Rightarrow> if st = CPU_IDLE then 9 else 24
   | Lock_Writer pc \<Rightarrow> 23
   | In_Callback w pc \<Rightarrow> (case pc of
       Call_Switch p \<Rightarrow> 5 + detour p
     | Install p \<Rightarrow> 6 + detour p
     | Pick \<Rightarrow> if ready_head (sch s) = None then 19 else 7
     | Idle_Wait \<Rightarrow> if ready_head (sch s) = None then 0 else 8
     | Preempt_Take \<Rightarrow> 22
     | _ \<Rightarrow> 20))"

definition ready_set :: "os \<Rightarrow> nat set" where
  "ready_set s = {p. p < PROCESS_COUNT \<and> os_state (tasks (sch s) p) = PROCESS_READY}"

lemma ready_set_finite: "finite (ready_set s)"
  by (simp add: ready_set_def)

definition put_count :: "os \<Rightarrow> nat" where
  "put_count s = (\<Sum>c < cpu_count s. of_bool (putting s c))"

definition free_hands :: "os \<Rightarrow> nat" where
  "free_hands s = (\<Sum>c < cpu_count s. of_bool (\<not> holding s c))"

definition rank_sum :: "os \<Rightarrow> nat" where
  "rank_sum s = (\<Sum>c < cpu_count s. rank s c)"

text \<open>
  A process that is put in the queue, or is to be put there, can be taken once; taking it is completed when it is installed.
  Between these, every thread goes down in its rank.
\<close>

abbreviation thread_measures :: "(os \<Rightarrow> nat) list" where
  "thread_measures \<equiv> [\<lambda>s. card (ready_set s) + put_count s, put_count, free_hands, rank_sum]"

lemma measures_one_moved:
  assumes c: "c < cpu_count s" and n: "cpu_count s' = cpu_count s"
    and others: "\<And>d. d \<noteq> c \<Longrightarrow> threads s' d = threads s d \<and> cpu_data s' d = cpu_data s d"
    and down: "card (ready_set s') + of_bool (putting s' c) < card (ready_set s) + of_bool (putting s c)
      \<or> card (ready_set s') + of_bool (putting s' c) = card (ready_set s) + of_bool (putting s c)
        \<and> (putting s c \<and> \<not> putting s' c \<or> putting s c = putting s' c
          \<and> (holding s' c \<and> \<not> holding s c
            \<or> holding s c = holding s' c \<and> ready_head (sch s') = ready_head (sch s) \<and> rank s' c < rank s c))"
  shows "(s', s) \<in> measures thread_measures"
proof -
  have put: "put_count s' + of_bool (putting s c) = put_count s + of_bool (putting s' c)"
    unfolding put_count_def n using c others by (intro sum_one_moved) (auto simp: putting_def split: cpu_pc.split)
  have hold: "free_hands s' + of_bool (\<not> holding s c) = free_hands s + of_bool (\<not> holding s' c)"
    unfolding free_hands_def n using c others by (intro sum_one_moved) (auto simp: holding_def split: cpu_pc.split callback_pc.split)
  have ranks: "rank_sum s' + rank s c = rank_sum s + rank s' c" if "ready_head (sch s') = ready_head (sch s)"
    unfolding rank_sum_def n using c others that by (intro sum_one_moved) (auto simp: rank_def split: cpu_pc.split callback_pc.split)
  from down show ?thesis
  proof (elim disjE conjE)
    assume "card (ready_set s') + of_bool (putting s' c) < card (ready_set s) + of_bool (putting s c)"
    then have "card (ready_set s') + put_count s' < card (ready_set s) + put_count s" using put by linarith
    then show ?thesis by simp
  next
    assume "card (ready_set s') + of_bool (putting s' c) = card (ready_set s) + of_bool (putting s c)" "putting s c" "\<not> putting s' c"
    then have "card (ready_set s') + put_count s' = card (ready_set s) + put_count s" "put_count s' < put_count s"
      using put by simp_all
    then show ?thesis by simp
  next
    assume "card (ready_set s') + of_bool (putting s' c) = card (ready_set s) + of_bool (putting s c)" "putting s c = putting s' c"
      "holding s' c" "\<not> holding s c"
    then have "card (ready_set s') = card (ready_set s)" "put_count s' = put_count s" "free_hands s' < free_hands s"
      using put hold by simp_all
    then show ?thesis by simp
  next
    assume "card (ready_set s') + of_bool (putting s' c) = card (ready_set s) + of_bool (putting s c)" "putting s c = putting s' c"
      "holding s c = holding s' c" "ready_head (sch s') = ready_head (sch s)" "rank s' c < rank s c"
    then have "card (ready_set s') = card (ready_set s)" "put_count s' = put_count s" "free_hands s' = free_hands s" "rank_sum s' < rank_sum s"
      using put hold ranks by simp_all
    then show ?thesis by simp
  qed
qed

subsection \<open>Every step goes down\<close>

lemma pick_effect:
  assumes "dequeue_process s = Inr (p, s')"
  shows "p = ready_head s" and "p = None \<Longrightarrow> s' = s"
  using assms by (auto simp: dequeue_process_def get_task_def set_task_def Let_def split: option.splits if_splits)

lemma install_head: "install_next c r s = Inr s' \<Longrightarrow> ready_head s' = ready_head s"
  by (auto simp: install_next_def set_current_def set_state_def get_task_def set_task_def split: option.splits if_splits)

lemma retire_head: "retire_current st c s = Inr s' \<Longrightarrow> ready_head s' = ready_head s"
  by (auto simp: retire_current_def get_current_def set_current_def set_state_def get_task_def set_task_def split: option.splits if_splits)

lemma ready_set_subset:
  assumes "\<And>p. os_state (tasks (sch s') p) = PROCESS_READY \<Longrightarrow> os_state (tasks (sch s) p) = PROCESS_READY"
  shows "card (ready_set s') \<le> card (ready_set s)"
  using assms ready_set_finite by (intro card_mono) (auto simp: ready_set_def)

text \<open>A process that a CPU has taken from the queue is still \<open>PROCESS_READY\<close>.\<close>

lemma held_ready:
  assumes inv: "contract_inv s" and c: "c < cpu_count s" and th: "threads s c = In_Callback w (Install (Some p))"
  shows "p \<in> ready_set s"
proof -
  have I: "sched_inv (sch s, \<lambda>c. callback_of (threads s c))" "cpus (sch s) = cpu_count s"
    using inv by (simp_all add: contract_inv_def contract_view_def os_inv_def)
  then obtain ps loc where P: "placed (sch s) (\<lambda>c. callback_of (threads s c)) ps loc" by (auto simp: sched_inv_def)
  have "loc p = Some (Hand c)" using placedD(4)[OF P, of c p] c I(2) th by (simp add: callback_of_def in_hand_def)
  then show ?thesis using placedD(5)[OF P, of p] th by (simp add: ready_set_def callback_of_def hand_state_def)
qed

text \<open>A critical section of a callback.\<close>

lemma callback_measure:
  assumes inv: "contract_inv s" and c: "c < cpu_count s" and th: "threads s c = In_Callback w pc"
    and st: "callback_step c pc (sch s) = Inr (pc', sc)" and moved: "pc' \<noteq> pc"
    and s': "s' = goto (s\<lparr>sch := sc\<rparr>) c (In_Callback w pc')"
  shows "(s', s) \<in> measures thread_measures"
proof -
  have states: "os_state (tasks (sch s') p) = callback_state c pc (sch s) p" for p
    using callback_effect(2)[OF st] s' by (simp add: goto_def)
  have frame: "threads s' c = In_Callback w pc'" "cpu_data s' = cpu_data s" "sch s' = sc" "cpu_count s' = cpu_count s"
    using s' by (simp_all add: goto_def)
  have down: "(s', s) \<in> measures thread_measures"
    if "card (ready_set s') + of_bool (putting s' c) < card (ready_set s) + of_bool (putting s c)
      \<or> card (ready_set s') + of_bool (putting s' c) = card (ready_set s) + of_bool (putting s c)
        \<and> (putting s c \<and> \<not> putting s' c \<or> putting s c = putting s' c
          \<and> (holding s' c \<and> \<not> holding s c
            \<or> holding s c = holding s' c \<and> ready_head (sch s') = ready_head (sch s) \<and> rank s' c < rank s c))"
    using that s' by (intro measures_one_moved[OF c]) (simp_all add: goto_def)
  have at: "putting s c = preempt_pc pc" "putting s' c = preempt_pc pc'"
    "holding s c = (\<exists>p. pc = Install (Some p))" "holding s' c = (\<exists>p. pc' = Install (Some p))"
    using th frame by (auto simp: putting_def holding_def split: callback_pc.split)
  show ?thesis
  proof (cases pc)
    case Idle_Wait
    then have "pc' = Pick" "sc = sch s" using st moved by (auto simp: callback_step_def split: if_splits)
    then show ?thesis
      using st moved th Idle_Wait frame
      by (intro down) (auto simp: at preempt_pc_def rank_def ready_set_def callback_step_def split: if_splits)
  next
    case Preempt_Take
    then have "ready_set s' = ready_set s" using states by (simp add: ready_set_def callback_state_def)
    moreover have "ready_head sc = ready_head (sch s)"
      using st Preempt_Take
      by (auto simp: callback_step_def take_current_def get_current_def set_current_def split: option.splits if_splits)
    moreover have "pc' = Pick \<or> (\<exists>p. pc' = Preempt_Put p)" using st Preempt_Take by (auto simp: callback_step_def split: option.splits)
    ultimately show ?thesis
      using th Preempt_Take frame by (intro down) (auto simp: at preempt_pc_def rank_def)
  next
    case (Preempt_Put p)
    then have "pc' = Pick" using st by (auto simp: callback_step_def)
    have "ready_set s' \<subseteq> insert p (ready_set s)" using states Preempt_Put by (auto simp: ready_set_def callback_state_def)
    then have "card (ready_set s') \<le> card (insert p (ready_set s))" using ready_set_finite by (intro card_mono) auto
    also have "\<dots> \<le> card (ready_set s) + 1" using ready_set_finite[of s] by (simp add: card_insert_if)
    finally show ?thesis using \<open>pc' = Pick\<close> Preempt_Put by (intro down) (auto simp: at preempt_pc_def)
  next
    case Pick
    then obtain p where p: "dequeue_process (sch s) = Inr (p, sc)" "pc' = Install p" using st by (auto simp: callback_step_def)
    have "ready_set s' = ready_set s" using states Pick by (simp add: ready_set_def callback_state_def)
    then show ?thesis
      using pick_effect[OF p(1)] p(2) th Pick frame by (intro down) (auto simp: at preempt_pc_def rank_def detour_def)
  next
    case (Install r)
    then have pc': "pc' = Call_Switch r" and i: "install_next c r (sch s) = Inr sc" using st by (auto simp: callback_step_def)
    show ?thesis
    proof (cases r)
      case None
      then have "ready_set s' = ready_set s" using states Install by (simp add: ready_set_def callback_state_def)
      then show ?thesis
        using install_head[OF i] th Install None pc' frame by (intro down) (auto simp: at preempt_pc_def rank_def)
    next
      case (Some p)
      have p: "p \<in> ready_set s" using held_ready[OF inv c, of w p] th Install Some by simp
      have "ready_set s' \<subseteq> ready_set s - {p}" using states Install Some by (auto simp: ready_set_def callback_state_def split: if_splits)
      then have "ready_set s' \<subset> ready_set s" using p by blast
      then have "card (ready_set s') < card (ready_set s)" using ready_set_finite by (rule psubset_card_mono[rotated])
      then show ?thesis using Install pc' by (intro down) (simp add: at preempt_pc_def)
    qed
  next
    case (Call_Switch p)
    then show ?thesis using st moved by (simp add: callback_step_def)
  next
    case Yield_Mark
    then obtain "retire_current PROCESS_WAITING c (sch s) = Inr sc" "pc' = Pick" using st by (auto simp: callback_step_def)
    moreover have "card (ready_set s') \<le> card (ready_set s)"
      using states Yield_Mark by (intro ready_set_subset) (auto simp: callback_state_def split: if_splits)
    ultimately show ?thesis
      using retire_head th Yield_Mark frame by (intro down) (auto simp: at preempt_pc_def rank_def)
  next
    case Terminate_Mark
    then obtain "retire_current PROCESS_TERMINATED c (sch s) = Inr sc" "pc' = Pick" using st by (auto simp: callback_step_def)
    moreover have "card (ready_set s') \<le> card (ready_set s)"
      using states Terminate_Mark by (intro ready_set_subset) (auto simp: callback_state_def split: if_splits)
    ultimately show ?thesis
      using retire_head th Terminate_Mark frame by (intro down) (auto simp: at preempt_pc_def rank_def)
  qed
qed

lemma cpu_step_measure:
  assumes inv: "contract_inv s" and c: "c < cpu_count s" and st: "cpu_step c s = Inr (Some s')" and moved: "s' \<noteq> s"
  shows "(s', s) \<in> measures thread_measures"
proof -
  have live: "supervisor s \<noteq> Sup_Exit" using st by (auto simp: cpu_step_def)
  have ok: "cpu_ok s c" "cpu_link s c" using inv by (simp_all add: contract_inv_def links_def wait_ok_def)
  have e: "cpu_count s' = cpu_count s" "\<And>d. d \<noteq> c \<Longrightarrow> threads s' d = threads s d \<and> cpu_data s' d = cpu_data s d"
    using cpu_step_effect[OF st] by (auto simp: cpu_effect_def)
  have down: ?thesis if "sch s' = sch s" "putting s' c \<Longrightarrow> putting s c" "\<not> holding s c" "rank s' c < rank s c"
  proof -
    have "ready_set s' = ready_set s" using that(1) by (simp add: ready_set_def)
    then show ?thesis
      using that by (intro measures_one_moved[OF c e]) (auto simp: of_bool_def)
  qed
  show ?thesis
  proof (cases "threads s c")
    case At_Loop
    then show ?thesis
      using st live
      by (intro down)
        (auto simp: cpu_step_def loop_top_def Let_def putting_def holding_def rank_def detour_def goto_def set_cpu_state_def sup_goto_def split: if_splits)
  next
    case Blocked
    then show ?thesis
      using st live ok by (intro down) (auto simp: cpu_step_def cpu_ok_def putting_def holding_def rank_def goto_def split: if_splits)
  next
    case (Dispatch ev)
    then show ?thesis
      using st live ok
      by (cases ev; intro down)
        (auto simp: cpu_step_def dispatch_def cpu_ok_def putting_def holding_def preempt_pc_def rank_def goto_def split: if_splits)
  next
    case (Lock_Writer pc)
    then show ?thesis
      using st live ok
      by (cases pc; intro down) (auto simp: cpu_step_def cpu_link_def mark_event_def putting_def holding_def rank_def goto_def)
  next
    case (In_Callback w pc)
    show ?thesis
    proof (cases "\<exists>p. pc = Call_Switch p")
      case True
      then obtain p where p: "pc = Call_Switch p" by blast
      then have "threads s' c = Switch_Set w p" "sch s' = sch s"
        using st live In_Callback by (auto simp: cpu_step_def os_context_switch_def goto_def split: if_splits)
      then show ?thesis using In_Callback p by (intro down) (simp_all add: putting_def holding_def rank_def)
    next
      case False
      from st In_Callback obtain pc' sc where cb: "callback_step c pc (sch s) = Inr (pc', sc)"
        "s' = goto (s\<lparr>sch := sc\<rparr>) c (In_Callback w pc')"
        using False by (cases rule: cpu_callback_cases) blast+
      have "pc' \<noteq> pc"
      proof
        assume "pc' = pc"
        moreover from this have "pc = Idle_Wait" "sc = sch s"
          using cb(1) False by (cases pc; auto simp: callback_step_def split: option.splits if_splits)+
        moreover have "(threads s)(c := In_Callback w Idle_Wait) = threads s" using In_Callback \<open>pc = Idle_Wait\<close> by auto
        ultimately show False using cb(2) moved by (simp add: goto_def)
      qed
      then show ?thesis using callback_measure[OF inv c In_Callback cb(1) _ cb(2)] by blast
    qed
  next
    case (Switch_Set w p)
    then show ?thesis
      using st live by (intro down) (auto simp: cpu_step_def putting_def holding_def rank_def goto_def split: if_splits)
  next
    case (Switch_Lock w)
    then show ?thesis
      using st live by (intro down) (auto simp: cpu_step_def putting_def holding_def rank_def goto_def split: if_splits)
  next
    case Unlock_Writer
    then show ?thesis
      using st live by (intro down) (auto simp: cpu_step_def putting_def holding_def rank_def goto_def split: if_splits)
  qed
qed

end
