(* ===== verification/Os_Eager.thy ===== *)
theory Os_Eager
  imports Os_Settle
begin

text \<open>
  Eager runs, in which the supervisor takes a step only when no CPU thread can take one: as if the threads of the CPUs were always faster than
  the supervisor, which sleeps between its intervals. They are prompt, an interval begins when all CPUs rest, and the only state without a
  step is the end.
\<close>

subsection \<open>Eager runs\<close>

text \<open>A thread that waits for a process and finds the ready queue empty takes a step that changes nothing.\<close>

definition quiescent :: "os \<Rightarrow> bool" where
  "quiescent s \<longleftrightarrow> (\<forall>c < cpu_count s. \<forall>s'. cpu_step c s = Inr (Some s') \<longrightarrow> s' = s)"

inductive eager_step :: "os \<Rightarrow> os \<Rightarrow> bool" where
  cpu: "c < cpu_count s \<Longrightarrow> cpu_step c s = Inr (Some s') \<Longrightarrow> s' \<noteq> s \<Longrightarrow> eager_step s s'"
| sup: "quiescent s \<Longrightarrow> sup_step s = Inr (Some s') \<Longrightarrow> eager_step s s'"

inductive_cases eager_stepE: "eager_step s s'"

text \<open>A CPU runs a process, or idles with nothing to run.\<close>

definition rests :: "os \<Rightarrow> nat \<Rightarrow> bool" where
  "rests s c \<longleftrightarrow> threads s c = Blocked \<and> cd_state (cpu_data s c) = CPU_RUNNING
     \<or> threads s c = In_Callback False Idle_Wait \<and> ready_head (sch s) = None"

definition calm :: "os \<Rightarrow> bool" where
  "calm s \<longleftrightarrow> mutex_free s \<or> (\<forall>c < cpu_count s. rests s c)"

lemma rests_current: "cpu_ok s c \<Longrightarrow> rests s c \<Longrightarrow> cd_current (cpu_data s c) \<noteq> None \<Longrightarrow> threads s c = Blocked"
  by (auto simp: rests_def cpu_ok_def)

lemma moves_or_rests:
  assumes inv: "os_inv s" and ok: "cpu_ok s c" and c: "c < cpu_count s" and free: "mutex_free s" "supervisor s \<noteq> Sup_Exit"
    and un: "\<not> rests s c"
  shows "\<exists>s'. cpu_step c s = Inr (Some s') \<and> s' \<noteq> s"
proof -
  obtain r where r: "cpu_step c s = Inr r" using cpu_step_ok[OF inv c] by blast
  have "r \<noteq> None"
    using r free un
    by (cases "threads s c") (auto simp: cpu_step_def rests_def dispatch_def split: callback_pc.splits simulator_cpu_state_t.splits if_splits)
  then obtain s' where s': "cpu_step c s = Inr (Some s')" using r by auto
  have "s' \<noteq> s"
  proof
    assume "s' = s"
    then have same: "cpu_step c s = Inr (Some s)" using s' by simp
    show False
    proof (cases "threads s c")
      case (In_Callback w pc)
      from same In_Callback show False
      proof (cases rule: cpu_callback_cases)
        case (switch p)
        then have "threads s c = Switch_Set w p" by (metis fun_upd_same)
        then show False using In_Callback by simp
      next
        case (critical pc' sc)
        have "threads s c = In_Callback w pc'" "sch s = sc"
          using arg_cong[OF critical(3), of threads] arg_cong[OF critical(3), of sch] by (simp_all add: fun_upd_def fun_eq_iff split: if_splits)
        then show False using In_Callback critical(1,2) un ok
          by (cases pc; auto simp: callback_step_def rests_def cpu_ok_def split: option.splits if_splits)
      qed
    next
      case (Dispatch st)
      then have "threads s c \<noteq> Dispatch st"
        using same free by (cases st) (auto simp: cpu_step_def dispatch_def goto_def split: if_splits dest!: arg_cong[of _ s threads] fun_cong[of _ _ c])
      then show False using Dispatch by simp
    qed (use same free in \<open>auto simp: cpu_step_def loop_top_def Let_def goto_def set_cpu_state_def sup_goto_def split: if_splits
        dest!: arg_cong[of _ s threads] fun_cong[of _ _ c]\<close>)
  qed
  then show ?thesis using s' by blast
qed

lemma quiescent_rests:
  assumes "prompt_inv_exact s" and "quiescent s" and "mutex_free s" and "supervisor s \<noteq> Sup_Exit" and "c < cpu_count s"
  shows "rests s c"
proof (rule ccontr)
  note I = exactD[OF assms(1)]
  have "cpu_ok s c" using I(3) by (simp add: wait_ok_def)
  moreover assume "\<not> rests s c"
  ultimately show False using moves_or_rests[OF I(2) _ assms(5,3,4)] assms(2,5) by (auto simp: quiescent_def)
qed

lemma calm_prompt:
  assumes "prompt_inv_exact s" and "calm s"
  shows "prompt s"
proof -
  have "cpu_ok s c" for c using exactD(3)[OF assms(1)] by (simp add: wait_ok_def)
  then show ?thesis
    using assms(2) rests_current by (auto simp: prompt_def calm_def mutex_free_def split: sup_pc.split)
qed

lemma eager_prompt: "prompt_inv_exact s \<Longrightarrow> calm s \<Longrightarrow> eager_step s s' \<Longrightarrow> prompt_step s s'"
  using calm_prompt by (auto elim!: eager_stepE intro: cpu_step_prompt prompt_step.intros[of Supervisor] simp: thread_step_def)

subsection \<open>The supervisor\<close>

text \<open>The supervisor can take its step unless it waits or has finished.\<close>

lemma sup_can_step:
  assumes inv: "prompt_inv_exact s" and sup: "\<And>c. supervisor s \<noteq> Sup_Wait c" "supervisor s \<noteq> Sup_Exit"
  shows "\<exists>s'. sup_step s = Inr (Some s')"
proof -
  note I = exactD[OF inv]
  obtain r where r: "sup_step s = Inr r" using sup_step_ok[OF I(2)] by blast
  have "writers s \<le> 0" if g: "supervisor s = Sup_Gantt"
  proof -
    have "lock_share (threads s c) \<le> 0" for c
      using I(4) g by (cases "threads s c") (auto simp: in_event_def lock_share_def events_ok_def dest: spec[of _ c])
    then have "(\<Sum>c < cpu_count s. lock_share (threads s c)) \<le> 0" by (simp add: sum_nonpos)
    then show ?thesis using I(6) g by (simp add: lock_ok_def sup_share_def)
  qed
  then have "r \<noteq> None" using r sup by (cases "supervisor s") (auto simp: sup_step_def)
  then show ?thesis using r by auto
qed

text \<open>An eager run stops only at its end.\<close>

lemma eager_progress:
  assumes inv: "prompt_inv_exact s" and live: "supervisor s \<noteq> Sup_Exit"
  shows "\<exists>s'. eager_step s s'"
proof (cases "quiescent s")
  case False
  then show ?thesis by (auto simp: quiescent_def intro: eager_step.cpu)
next
  case True
  note I = exactD[OF inv]
  have "supervisor s \<noteq> Sup_Wait c" for c
  proof
    assume w: "supervisor s = Sup_Wait c"
    then have c: "c < cpu_count s" using I(3) by (simp add: wait_ok_def)
    obtain s1 where s1: "thread_step (Cpu c) s = Inr (Some s1)"
      "supervisor s1 = Sup_Woken c \<or> supervisor s1 = Sup_Wait c \<and> steps_to_top (threads s1 c) < steps_to_top (threads s c)"
      using responsive_step[OF I(2,3) w] by blast
    then have "s1 = s" using True c by (auto simp: quiescent_def thread_step_def)
    then show False using s1(2) w by simp
  qed
  then show ?thesis using sup_can_step[OF inv _ live] True by (blast intro: eager_step.sup)
qed

text \<open>The part of an interval that is left.\<close>

definition sup_rank :: "os \<Rightarrow> nat" where
  "sup_rank s = (case supervisor s of
     Sup_Loop \<Rightarrow> 12 + 3 * cpu_count s
   | Sup_Gantt \<Rightarrow> 11 + 3 * cpu_count s
   | Sup_Cpus n \<Rightarrow> 10 + 3 * (cpu_count s - n)
   | Sup_Wait n \<Rightarrow> 12 + 3 * (cpu_count s - Suc n)
   | Sup_Woken n \<Rightarrow> 11 + 3 * (cpu_count s - Suc n)
   | Sup_Io \<Rightarrow> 9
   | Sup_Lock io p \<Rightarrow> if io then 8 else 4
   | Sup_Wake io p \<Rightarrow> if io then 7 else 3
   | Sup_Unlock io \<Rightarrow> if io then 6 else 2
   | Sup_Creat \<Rightarrow> 5
   | Sup_Tick \<Rightarrow> 1
   | Sup_Exit \<Rightarrow> 0)"

lemma sup_cpus_cases:
  assumes inv: "os_inv s" and st: "sup_step s = Inr (Some s')" and sup: "supervisor s = Sup_Cpus c"
  obtains (burst) p where "c < cpu_count s" "cd_current (cpu_data s c) = Some p" "p < PROCESS_COUNT" "burst_work c p s s'"
  | (idle) "c < cpu_count s \<Longrightarrow> cd_current (cpu_data s c) = None" "s' = sup_goto s (if c < cpu_count s then Sup_Cpus (Suc c) else Sup_Io)"
proof (cases "c < cpu_count s \<and> cd_current (cpu_data s c) \<noteq> None")
  case True
  then obtain p where p: "cd_current (cpu_data s c) = Some p" by auto
  then have "p < PROCESS_COUNT" using inv unfolding os_inv_def by (metis in_range_simps(2))
  moreover have "simulate_process c p s = Inr s'" using st sup True p by (simp add: sup_step_def simulate_cpu_def)
  ultimately show thesis using True p simulate_process_work[OF inv] burst by blast
next
  case False
  then show thesis using st sup idle by (auto simp: sup_step_def simulate_cpu_def split: if_splits)
qed

lemma sup_step_count: "os_inv s \<Longrightarrow> sup_step s = Inr (Some s') \<Longrightarrow> cpu_count s' = cpu_count s"
  by (cases rule: sup_step_burst) (simp_all add: burst_work_def sup_work_def)

lemma sup_rank_down:
  assumes inv: "os_inv s" and st: "sup_step s = Inr (Some s')" and tick: "supervisor s \<noteq> Sup_Tick"
  shows "sup_rank s' < sup_rank s"
proof (cases "supervisor s")
  case (Sup_Cpus c)
  from inv st Sup_Cpus show ?thesis
  proof (cases rule: sup_cpus_cases)
    case (burst p)
    then show ?thesis using sup_step_count[OF inv st] Sup_Cpus by (auto simp: burst_work_def sup_rank_def)
  next
    case idle
    then show ?thesis using Sup_Cpus by (auto simp: sup_rank_def sup_goto_def)
  qed
qed (use sup_step_count[OF inv st] st tick in \<open>auto simp: sup_step_def sup_rank_def split: if_splits option.splits\<close>)

subsection \<open>An interval begins when the CPUs rest\<close>

lemma update_task_head: "update_task s p f = Inr s' \<Longrightarrow> ready_head (sch s') = ready_head (sch s)"
  by (auto simp: update_task_def set_task_def split: if_splits)

lemma advance_head: "advance s p = Inr (op, s') \<Longrightarrow> ready_head (sch s') = ready_head (sch s)"
  by (auto simp: advance_def dest: update_task_head)

lemma submit_sch: "submit_io_request t s p = Inr s' \<Longrightarrow> sch s' = sch s"
  by (auto simp: submit_io_request_def split: option.splits if_splits)

lemma remove_sch: "remove_io_request s = Inr (p, s') \<Longrightarrow> sch s' = sch s"
  by (auto simp: remove_io_request_def Let_def split: option.splits)

lemma simulate_io_head: "simulate_io s = Inr (r, s') \<Longrightarrow> ready_head (sch s') = ready_head (sch s)"
  by (auto simp: simulate_io_def Let_def split: if_splits dest!: advance_head remove_sch)

lemma simulate_process_head:
  assumes "simulate_process c p s = Inr s'"
  shows "ready_head (sch s') = ready_head (sch s)"
proof -
  have raise: "sch (raise_event s1 c st) = sch s1" for s1 st by (simp add: raise_event_def sup_goto_def set_cpu_state_def)
  have run: "ready_head (sch s') = ready_head (sch s)" if "run_burst c p op s = Inr s'" for op
    using that by (auto simp: run_burst_def Let_def raise dest!: update_task_head split: if_splits)
  have fin: "ready_head (sch s') = ready_head (sch s)" if e: "end_burst c p s = Inr s'"
  proof -
    obtain op s1 where s1: "advance s p = Inr (op, s1)" using e by (auto simp: end_burst_def)
    then show ?thesis
      using e advance_head[OF s1] by (cases "op_kind op") (auto simp: end_burst_def raise sup_goto_def dest!: submit_sch)
  qed
  obtain op where "(case op_kind op of OP_CPU \<Rightarrow> if op_time op > 0 then run_burst c p op s else end_burst c p s
    | _ \<Rightarrow> Inr (sup_goto s (Sup_Cpus (c + 1)))) = Inr s'"
    using assms by (auto simp: simulate_process_def)
  then show ?thesis using run fin by (cases "op_kind op") (auto simp: sup_goto_def split: if_splits)
qed

lemma sup_step_rests:
  assumes inv: "os_inv s" and st: "sup_step s = Inr (Some s')" and busy: "\<not> mutex_free s'" and r: "rests s c"
  shows "rests s' c"
proof -
  have "threads s' = threads s \<and> cd_state (cpu_data s' c) = cd_state (cpu_data s c) \<and> ready_head (sch s') = ready_head (sch s)"
  proof (cases "supervisor s")
    case (Sup_Cpus n)
    from inv st Sup_Cpus show ?thesis
    proof (cases rule: sup_cpus_cases)
      case (burst p)
      then have "simulate_process n p s = Inr s'" using st Sup_Cpus by (simp add: sup_step_def simulate_cpu_def)
      then show ?thesis
        using simulate_process_head burst(4) busy by (cases "c = n") (auto simp: burst_work_def sup_work_def mutex_free_def)
    next
      case idle
      then show ?thesis by (simp add: sup_goto_def)
    qed
  next
    case Sup_Io
    then obtain r s1 where s1: "simulate_io s = Inr (r, s1)" "s' = sup_goto s1 (case r of None \<Rightarrow> Sup_Creat | Some p \<Rightarrow> Sup_Lock True p)"
      using st by (auto simp: sup_step_def)
    then show ?thesis using simulate_io_quiet simulate_io_head by (simp add: quiet_def sup_goto_def)
  next
    case (Sup_Wake io p)
    then show ?thesis using st busy by (auto simp: sup_step_def mutex_free_def)
  qed (use st in \<open>auto simp: sup_step_def gantt_line_def split: if_splits\<close>)
  then show ?thesis using r by (simp add: rests_def)
qed

lemma rests_stays:
  assumes "rests s c" and "cpu_step c s = Inr (Some s')"
  shows "s' = s"
proof -
  have "threads s c = In_Callback False Idle_Wait \<Longrightarrow> (threads s)(c := In_Callback False Idle_Wait) = threads s" by auto
  then show ?thesis using assms by (auto simp: rests_def cpu_step_def callback_step_def goto_def split: if_splits)
qed

lemma calm_step:
  assumes inv: "prompt_inv_exact s" and calm: "calm s" and st: "eager_step s s'"
  shows "calm s'"
  using st
proof (cases rule: eager_step.cases)
  case (cpu c)
  have "mutex_free s" using calm cpu rests_stays by (auto simp: calm_def)
  then show ?thesis using cpu_step_kept(3)[OF inv cpu(1,2)] by (auto simp: calm_def mutex_free_def)
next
  case sup
  have "supervisor s \<noteq> Sup_Exit" using sup(2) by (auto simp: sup_step_def)
  then have "rests s c" if "c < cpu_count s" for c using calm quiescent_rests[OF inv sup(1)] that by (auto simp: calm_def)
  then show ?thesis
    using sup_step_rests[OF exactD(2)[OF inv] sup(2)] sup_step_count[OF exactD(2)[OF inv] sup(2)] by (auto simp: calm_def)
qed

end
