(* ===== verification/Os_Finish.thy ===== *)
theory Os_Finish
  imports Os_Eager
begin

text \<open>
  The simulation ends: every eager run ends with all processes terminated, after a bounded number of intervals of simulated time. Between two
  intervals, every prompt run can go on as an eager one.
\<close>

subsection \<open>The work that is left\<close>

text \<open>The intervals until all processes have been created, one every ten intervals.\<close>

definition creation_left :: "nat \<Rightarrow> u32 \<Rightarrow> nat" where
  "creation_left created t = (if created < PROCESS_COUNT then 10 * (PROCESS_COUNT - created) + (10 - unat t mod 10) mod 10 else 0)"

lemma clock_mod:
  "unat ((t :: u32) + 1) mod 10 = (if unat t + 1 = 2 ^ 32 then 0 else (unat t + 1) mod 10)"
proof -
  have "unat t < 2 ^ LENGTH(32)" by (rule unsigned_less)
  then show ?thesis by (auto simp: unat_word_ariths(1))
qed

lemma clock_back: "n mod 10 \<noteq> 0 \<Longrightarrow> (10 - Suc n mod 10) mod 10 < 10 - n mod (10 :: nat)"
proof -
  assume "n mod 10 \<noteq> 0"
  moreover have "n mod 10 < 10" by simp
  ultimately show ?thesis by (auto simp: mod_Suc)
qed

lemma creation_tick:
  assumes "created < PROCESS_COUNT"
  shows "(if t mod 10 = 0 then creation_left (Suc created) (t + 1) else creation_left created (t + 1)) < creation_left created t"
proof -
  have "unat (t mod 10) = unat t mod 10" by (simp add: unat_mod)
  then have zero: "t mod 10 = 0 \<longleftrightarrow> unat t mod 10 = 0" by (metis unat_eq_zero)
  show ?thesis
  proof (cases "unat t mod 10 = 0")
    case True
    then show ?thesis using clock_mod[of t] assms zero by (auto simp: creation_left_def)
  next
    case False
    have "10 - unat t mod 10 < 10" using False by simp
    moreover have "(10 - unat (t + 1) mod 10) mod 10 < 10 - unat t mod 10"
      using clock_back[OF False] clock_mod[of t] False by (auto split: if_splits)
    ultimately show ?thesis using False zero assms by (simp add: creation_left_def; linarith)
  qed
qed

text \<open>From \<open>simulate_creat\<close> on, the clock and the number of created processes count as they will be at the end of the interval.\<close>

definition to_create :: "os \<Rightarrow> nat" where
  "to_create s = (let c = processes_created s; t = simulator_time s in case supervisor s of
     Sup_Tick \<Rightarrow> creation_left c (t + 1)
   | Sup_Lock io p \<Rightarrow> if io then creation_left c t else creation_left (Suc c) (t + 1)
   | Sup_Wake io p \<Rightarrow> if io then creation_left c t else creation_left (Suc c) (t + 1)
   | Sup_Unlock io \<Rightarrow> if io then creation_left c t else creation_left (Suc c) (t + 1)
   | _ \<Rightarrow> creation_left c t)"

text \<open>A CPU from \<open>n\<close> on runs a process.\<close>

definition busy_from :: "os \<Rightarrow> nat \<Rightarrow> bool" where
  "busy_from s n \<longleftrightarrow> (\<exists>d. n \<le> d \<and> d < cpu_count s \<and> threads s d = Blocked \<and> cd_state (cpu_data s d) = CPU_RUNNING
     \<and> cd_current (cpu_data s d) \<noteq> None)"

text \<open>The rest of the interval has work to do.\<close>

definition ahead :: "os \<Rightarrow> bool" where
  "ahead s \<longleftrightarrow> (let io = (io_queue_head s \<noteq> None); new = (processes_created s < PROCESS_COUNT) in case supervisor s of
     Sup_Loop \<Rightarrow> True
   | Sup_Gantt \<Rightarrow> busy_from s 0 \<or> io \<or> new
   | Sup_Cpus n \<Rightarrow> busy_from s n \<or> io \<or> new
   | Sup_Wait n \<Rightarrow> busy_from s (Suc n) \<or> io \<or> new
   | Sup_Woken n \<Rightarrow> busy_from s (Suc n) \<or> io \<or> new
   | Sup_Io \<Rightarrow> io \<or> new
   | Sup_Creat \<Rightarrow> new
   | Sup_Tick \<Rightarrow> False
   | Sup_Lock io p \<Rightarrow> io \<and> new
   | Sup_Wake io p \<Rightarrow> io \<and> new
   | Sup_Unlock io \<Rightarrow> io \<and> new
   | Sup_Exit \<Rightarrow> True)"

text \<open>An interval that has done its work, or had none, is still to be ended.\<close>

definition intervals_left :: "os \<Rightarrow> nat" where
  "intervals_left s = total_left s + io_left s + to_create s + of_bool (\<not> ahead s)"

text \<open>If nothing can run and not all processes have terminated, there is a request in the I/O queue.\<close>

lemma idle_means_io:
  assumes inv: "prompt_inv_exact s" and sup: "supervisor s = Sup_Loop" and cpus: "0 < cpu_count s"
    and rest: "\<forall>c < cpu_count s. rests s c" and idle: "\<forall>c < cpu_count s. cd_current (cpu_data s c) = None"
    and created: "\<not> processes_created s < PROCESS_COUNT" and more: "uint (processes_terminated s) < int PROCESS_COUNT"
  shows "io_queue_head s \<noteq> None"
proof -
  note I = exactD[OF inv]
  note L = linksD[OF I(5)]
  have ev: "\<not> in_event s c" for c using I(4) sup by (auto simp: events_ok_def)
  have th: "threads s c = In_Callback False Idle_Wait \<and> ready_head (sch s) = None" if "c < cpu_count s" for c
    using rest idle that L(1)[of c] by (auto simp: rests_def cpu_link_def)
  have "(\<Sum>c < cpu_count s. uncounted s c) = 0" using uncounted_event[OF ev] by simp
  then have "int (card (at_end s)) = uint (processes_terminated s)" using I(7) unfolding missed_def by linarith
  then have few: "card (at_end s) < PROCESS_COUNT" using more by linarith
  obtain p where p: "p < PROCESS_COUNT" "op_now s p \<noteq> OP_TERMINATE"
  proof (rule ccontr)
    assume "\<not> thesis"
    then have "p \<in> at_end s \<longleftrightarrow> p < PROCESS_COUNT" for p unfolding at_end_def using that by blast
    then have "at_end s = {..<PROCESS_COUNT}" by blast
    then show False using few by simp
  qed
  have "op_now s p \<noteq> OP_CPU"
  proof
    assume cpu: "op_now s p = OP_CPU"
    have "os_state (tasks (sch s) p) \<noteq> PROCESS_NEW" using L(4) p(1) created sup by (simp add: sup_link_def)
    then have st: "os_state (tasks (sch s) p) \<in> {PROCESS_READY, PROCESS_RUNNING}"
      using L(3)[OF p(1)] cpu sup by (cases "os_state (tasks (sch s) p)") (auto simp: proc_link_def Let_def)
    have "sched_inv (sch s, \<lambda>c. callback_of (threads s c))" using I(1) by (simp add: contract_inv_def contract_view_def)
    then obtain ps loc where P: "placed (sch s) (\<lambda>c. callback_of (threads s c)) ps loc" by (auto simp: sched_inv_def)
    note D = placedD[OF P]
    have n: "cpus (sch s) = cpu_count s" using I(2) by (simp add: os_inv_def)
    have cb: "callback_of (threads s c) = Some Idle_Wait" if "c < cpu_count s" for c using th[OF that] by (simp add: callback_of_def)
    show False
    proof (cases "loc p")
      case None
      then show ?thesis using D(6)[OF p(1)] st by simp
    next
      case (Some l)
      show ?thesis
      proof (cases l)
        case Queue
        then have "ps \<noteq> []" using D(2)[of p] Some by auto
        moreover have "ready_head (sch s) = None" using th[OF cpus] by simp
        ultimately show ?thesis using D(1) fifo_head_None by (auto simp: ready_items_def)
      next
        case (On c)
        then have "c < cpu_count s" "current (sch s) c = Some p" using D(3)[of c p] Some n by simp_all
        then show ?thesis using D(7)[of c] cb[of c] by (simp add: busy_def)
      next
        case (Hand c)
        then have "c < cpu_count s" "in_hand (callback_of (threads s c)) = Some p" using D(4)[of c p] Some n by simp_all
        then show ?thesis using cb[of c] by (simp add: in_hand_def)
      qed
    qed
  qed
  then have io: "op_now s p = OP_IO" using p(2) by (cases "op_now s p") auto
  obtain ps where ps: "io_items s ps" "set ps = {p. p < PROCESS_COUNT \<and> op_now s p = OP_IO}"
    using os_invD(4)[OF I(2)] by (auto simp: io_ok_def)
  then have "ps \<noteq> []" using io p(1) by force
  then show ?thesis using io_items_head[OF ps(1)] by simp
qed

text \<open>The threads of the CPUs do not work, and do not stop a process that runs.\<close>

lemma cpu_step_intervals:
  assumes inv: "prompt_inv_exact s" and c: "c < cpu_count s" and st: "cpu_step c s = Inr (Some s')"
  shows "intervals_left s' \<le> intervals_left s"
proof -
  note K = cpu_step_kept[OF inv c st]
  note k = K(1)[unfolded kept_def]
  have busy: "busy_from s' n" if "busy_from s n" for n
  proof -
    obtain d where d: "n \<le> d" "d < cpu_count s" "threads s d = Blocked" "cd_state (cpu_data s d) = CPU_RUNNING"
      "cd_current (cpu_data s d) \<noteq> None" using \<open>busy_from s n\<close> by (auto simp: busy_from_def)
    then have "d \<noteq> c \<or> s' = s" using rests_stays[OF _ st] by (auto simp: rests_def)
    then show ?thesis using d K(2) k by (auto simp: busy_from_def)
  qed
  have "to_create s' = to_create s" using K(3) k by (auto simp: to_create_def)
  moreover have "ahead s \<longrightarrow> ahead s'" using K(3) k busy by (cases "supervisor s") (auto simp: ahead_def Let_def)
  ultimately show ?thesis using k by (auto simp: intervals_left_def)
qed

text \<open>The supervisor ends an interval only when it has done its work.\<close>

lemma loop_ahead:
  assumes inv: "prompt_inv_exact s" and sup: "supervisor s = Sup_Loop" and cpus: "0 < cpu_count s" and q: "quiescent s"
    and more: "\<not> of_nat PROCESS_COUNT \<le> processes_terminated s"
  shows "busy_from s 0 \<or> io_queue_head s \<noteq> None \<or> processes_created s < PROCESS_COUNT"
proof (rule ccontr)
  assume a: "\<not> ?thesis"
  have rest: "rests s c" if "c < cpu_count s" for c using quiescent_rests[OF inv q] sup that by (simp add: mutex_free_def)
  have ok: "cpu_ok s c" for c using exactD(3)[OF inv] by (simp add: wait_ok_def)
  have "cd_current (cpu_data s c) = None" if "c < cpu_count s" for c
    using rest[OF that] ok[of c] a that by (auto simp: busy_from_def rests_def cpu_ok_def)
  moreover have "uint (processes_terminated s) < int PROCESS_COUNT" using more exits_counted[of "processes_terminated s"] by simp
  ultimately show False using idle_means_io[OF inv sup cpus] rest a by blast
qed

lemma burst_intervals:
  assumes inv: "prompt_inv_exact s" and calm: "calm s" and st: "sup_step s = Inr (Some s')"
    and sup: "supervisor s = Sup_Cpus c" "c < cpu_count s" "cd_current (cpu_data s c) = Some p" and work: "burst_work c p s s'"
  shows "intervals_left s' \<le> intervals_left s"
proof -
  note I = exactD[OF inv]
  have "cpu_ok s c" using I(3) by (simp add: wait_ok_def)
  moreover have "rests s c" using calm sup by (simp add: calm_def mutex_free_def)
  ultimately have "threads s c = Blocked" using rests_current sup(3) by simp
  then have "op_now s p = OP_CPU" using prompt_burst[OF I(1) sup] by blast
  then have "total_left s = total_left s' + 1" using sup_step_left[OF I(2) st] sup by (simp add: executes_def)
  moreover have "io_left s = io_left s'" using sup_step_io[OF I(2) st] sup by simp
  moreover have "to_create s' = to_create s" using work sup(1) by (auto simp: burst_work_def sup_work_def same_counters_def to_create_def)
  ultimately show ?thesis by (simp add: intervals_left_def)
qed

lemma sup_step_intervals:
  assumes inv: "prompt_inv_exact s" and calm: "calm s" and cpus: "0 < cpu_count s" and q: "quiescent s"
    and st: "sup_step s = Inr (Some s')"
  shows "intervals_left s' + of_bool (supervisor s = Sup_Tick) \<le> intervals_left s"
proof -
  note I = exactD[OF inv]
  have left: "total_left s = total_left s' + of_bool (executes s)"
    "io_left s = io_left s' + of_bool (supervisor s = Sup_Io \<and> io_queue_head s \<noteq> None)"
    using sup_step_left[OF I(2) st] sup_step_io[OF I(2) st] by simp_all
  have same: ?thesis if "to_create s' = to_create s" "ahead s \<longrightarrow> ahead s'" "supervisor s \<noteq> Sup_Tick"
    using that left by (auto simp: intervals_left_def)
  have threads: "busy_from (s1\<lparr>supervisor := t\<rparr>) n = busy_from s1 n" for s1 t n by (simp add: busy_from_def)
  show ?thesis
  proof (cases "supervisor s")
    case Sup_Loop
    then show ?thesis
      using st loop_ahead[OF inv Sup_Loop cpus q]
      by (intro same) (auto simp: sup_step_def to_create_def ahead_def threads Let_def sup_goto_def split: if_splits)
  next
    case (Sup_Cpus c)
    from I(2) st Sup_Cpus show ?thesis
    proof (cases rule: sup_cpus_cases)
      case (burst p)
      then show ?thesis using burst_intervals[OF inv calm st Sup_Cpus] Sup_Cpus by simp
    next
      case idle
      have "busy_from s c \<longrightarrow> c < cpu_count s \<and> busy_from s (Suc c)"
        using idle(1) unfolding busy_from_def by (metis Suc_leI le_less_trans nat_less_le)
      then show ?thesis
        using idle(2) Sup_Cpus by (intro same) (auto simp: to_create_def ahead_def threads Let_def sup_goto_def)
    qed
  next
    case Sup_Io
    then obtain r s1 where s1: "simulate_io s = Inr (r, s1)" "s' = sup_goto s1 (case r of None \<Rightarrow> Sup_Creat | Some p \<Rightarrow> Sup_Lock True p)"
      using st by (auto simp: sup_step_def)
    have f: "processes_created s' = processes_created s" "simulator_time s' = simulator_time s"
      using simulate_io_work[OF I(2) s1(1)] s1(2) by (simp_all add: sup_work_def same_counters_def sup_goto_def)
    have c: "to_create s' = to_create s" using s1(2) f Sup_Io by (cases r) (simp_all add: to_create_def)
    show ?thesis
    proof (cases "io_queue_head s")
      case None
      then have "r = None" using s1(1) by (simp add: simulate_io_def)
      then show ?thesis using c f s1(2) None Sup_Io by (intro same) (auto simp: ahead_def Let_def)
    next
      case (Some a)
      then show ?thesis using left c Sup_Io by (simp add: intervals_left_def)
    qed
  next
    case Sup_Creat
    then have s': "s' = simulate_creat s" using st by (simp add: sup_step_def del: simulate_creat_def)
    show ?thesis
    proof (cases "processes_created s < PROCESS_COUNT")
      case True
      then have "to_create s' < to_create s"
        using creation_tick[OF True, of "simulator_time s"] Sup_Creat s' by (auto simp: to_create_def sup_goto_def split: if_splits)
      then show ?thesis using left Sup_Creat by (simp add: intervals_left_def)
    next
      case False
      then show ?thesis
        using s' Sup_Creat by (intro same) (auto simp: to_create_def creation_left_def ahead_def sup_goto_def)
    qed
  next
    case Sup_Tick
    then show ?thesis
      using st left by (auto simp: sup_step_def intervals_left_def to_create_def ahead_def sup_goto_def)
  qed (use st in \<open>(intro same; auto simp: sup_step_def to_create_def ahead_def Let_def lift_sched_def busy_from_def gantt_line_def sup_goto_def split: if_splits)+\<close>)
qed

subsection \<open>Termination\<close>

definition eager_inv :: "os \<Rightarrow> bool" where
  "eager_inv s \<longleftrightarrow> prompt_inv_exact s \<and> calm s \<and> 0 < cpu_count s"

lemma eager_keeps:
  assumes "eager_inv s" and "eager_step s s'"
  shows "eager_inv s'" and "prompt_step s s'"
proof -
  have inv: "prompt_inv_exact s" "calm s" "0 < cpu_count s" using assms(1) by (simp_all add: eager_inv_def)
  show st: "prompt_step s s'" using eager_prompt[OF inv(1,2) assms(2)] .
  have "cpu_count s' = cpu_count s"
    using assms(2) cpu_step_kept(1)[OF inv(1)] sup_step_count[OF exactD(2)[OF inv(1)]] by (auto elim: eager_step.cases simp: kept_def)
  then show "eager_inv s'" using prompt_exact_step[OF inv(1) st] calm_step[OF inv(1,2) assms(2)] inv(3) by (simp add: eager_inv_def)
qed

abbreviation eager_order :: "(os \<times> os) set" where
  "eager_order \<equiv> measures ([intervals_left, sup_rank] @ thread_measures)"

lemma eager_down:
  assumes inv: "eager_inv s" and st: "eager_step s s'"
  shows "(s', s) \<in> eager_order"
proof -
  have I: "prompt_inv_exact s" "calm s" "0 < cpu_count s" using inv by (simp_all add: eager_inv_def)
  from st show ?thesis
  proof (cases rule: eager_step.cases)
    case (cpu c)
    have "(s', s) \<in> measures thread_measures" using cpu_step_measure[OF exactD(1)[OF I(1)] cpu] .
    moreover have "sup_rank s' \<le> sup_rank s" using cpu_step_kept(1,3)[OF I(1) cpu(1,2)] by (cases "supervisor s") (auto simp: sup_rank_def kept_def)
    ultimately show ?thesis using cpu_step_intervals[OF I(1) cpu(1,2)] by auto
  next
    case sup
    note le = sup_step_intervals[OF I sup]
    show ?thesis
    proof (cases "supervisor s = Sup_Tick")
      case False
      then show ?thesis using le sup_rank_down[OF exactD(2)[OF I(1)] sup(2)] by auto
    qed (use le in auto)
  qed
qed

interpretation eager: terminating eager_step eager_inv eager_order
  by unfold_locales (blast intro: eager_keeps(1), simp, rule eager_down)

lemma eager_clock:
  assumes inv: "eager_inv s" and st: "eager_step s s'"
  shows "\<exists>k. simulator_time s' = simulator_time s + of_nat k \<and> intervals_left s' + k \<le> intervals_left s"
proof -
  have I: "prompt_inv_exact s" "calm s" "0 < cpu_count s" using inv by (simp_all add: eager_inv_def)
  from st show ?thesis
  proof (cases rule: eager_step.cases)
    case (cpu c)
    then show ?thesis using cpu_step_kept(1)[OF I(1) cpu(1,2)] cpu_step_intervals[OF I(1) cpu(1,2)] by (intro exI[of _ 0]) (simp add: kept_def)
  next
    case sup
    have "simulator_time s' = simulator_time s + of_nat (of_bool (supervisor s = Sup_Tick))"
    proof (cases "supervisor s")
      case (Sup_Cpus c)
      from exactD(2)[OF I(1)] sup(2) Sup_Cpus show ?thesis
        by (cases rule: sup_cpus_cases) (auto simp: burst_work_def same_counters_def sup_goto_def Sup_Cpus)
    next
      case Sup_Io
      then obtain r s1 where "simulate_io s = Inr (r, s1)" "simulator_time s' = simulator_time s1"
        using sup(2) by (auto simp: sup_step_def sup_goto_def)
      then show ?thesis using simulate_io_work[OF exactD(2)[OF I(1)]] Sup_Io by (auto simp: same_counters_def)
    qed (use sup(2) in \<open>auto simp: sup_step_def sup_goto_def gantt_line_def lift_sched_def split: if_splits\<close>)
    then show ?thesis using sup_step_intervals[OF I sup] by blast
  qed
qed

lemma eager_run_clock:
  "eager_step\<^sup>*\<^sup>* s s' \<Longrightarrow> eager_inv s \<Longrightarrow>
    prompt_step\<^sup>*\<^sup>* s s' \<and> (\<exists>k. simulator_time s' = simulator_time s + of_nat k \<and> k + intervals_left s' \<le> intervals_left s)"
proof (induction rule: rtranclp_induct)
  case base
  then show ?case by (intro conjI exI[of _ 0]) simp_all
next
  case (step y z)
  obtain k where k: "prompt_step\<^sup>*\<^sup>* s y" "simulator_time y = simulator_time s + of_nat k" "k + intervals_left y \<le> intervals_left s"
    using step.IH[OF step.prems] by blast
  have inv: "eager_inv y" using eager.reachable[OF step.hyps(1) step.prems] .
  from eager_clock[OF inv step.hyps(2)] obtain j
    where j: "simulator_time z = simulator_time y + of_nat j" "intervals_left z + j \<le> intervals_left y" by blast
  have "prompt_step\<^sup>*\<^sup>* s z" using k(1) eager_keeps(2)[OF inv step.hyps(2)] by (rule rtranclp.rtrancl_into_rtrancl)
  moreover have "simulator_time z = simulator_time s + of_nat (k + j)" using k(2) j(1) by simp
  moreover have "(k + j) + intervals_left z \<le> intervals_left s" using k(3) j(2) by linarith
  ultimately show ?case by blast
qed

subsection \<open>From the start to the end\<close>

lemma started_io: "started n q room s \<Longrightarrow> io_left s = 309"
proof -
  assume "started n q room s"
  then have s: "operations s = initial_operations" "tasks (sch s) = initial_process" "cells (io_heap s) = (\<lambda>_. None)"
    by (auto simp: started_def start_simulator_def init_sched_def)
  have "io_future s p = (\<Sum>op \<leftarrow> drop 1 (operation_table ! p). io_cost op)" if "p < PROCESS_COUNT" for p
    using s process_table_new[OF that] by (simp add: io_future_def initial_operations_def)
  then have "(\<Sum>p < PROCESS_COUNT. io_future s p) = (\<Sum>p < PROCESS_COUNT. \<Sum>op \<leftarrow> drop 1 (operation_table ! p). io_cost op)"
    by simp
  also have "\<dots> = 309"
    by (simp add: PROCESS_COUNT_def lessThan_nat_numeral lessThan_Suc operation_table_def pid0_ops_def pid1_ops_def
        pid2_ops_def pid3_ops_def pid4_ops_def pid5_ops_def pid6_ops_def pid7_ops_def cpu_op_def io_op_def
        terminate_op_def io_cost_def)
  finally show ?thesis using s(3) by (simp add: io_left_def queued_def)
qed

lemma started_eager:
  assumes "started n q room s" and "PROCESS_COUNT \<le> room"
  shows "eager_inv s" "intervals_left s = 1055" "simulator_time s = 0"
proof -
  have s: "processes_created s = 0" "simulator_time s = 0" "cpu_count s = unat n" "1 \<le> unat n" "supervisor s = Sup_Loop"
    using assms(1) by (auto simp: started_def start_simulator_def)
  then show "intervals_left s = 1055" "simulator_time s = 0"
    using started_left[OF assms(1)] started_io[OF assms(1)]
    by (simp_all add: intervals_left_def to_create_def creation_left_def ahead_def PROCESS_COUNT_def)
  show "eager_inv s" using started_exact[OF assms] s by (simp add: eager_inv_def calm_def mutex_free_def)
qed

lemma exit_all_terminated:
  assumes inv: "prompt_inv_exact s" and ok: "exit_ok s" and sup: "supervisor s = Sup_Exit" and p: "p < PROCESS_COUNT"
  shows "os_state (tasks (sch s) p) = PROCESS_TERMINATED"
proof -
  note I = exactD[OF inv]
  have "int PROCESS_COUNT \<le> int (card (at_end s))" using ok sup counted_le[of s] by (simp add: exit_ok_def)
  moreover have sub: "at_end s \<subseteq> {..<PROCESS_COUNT}" by (auto simp: at_end_def)
  ultimately have "at_end s = {..<PROCESS_COUNT}" using card_subset_eq[OF _ sub] at_end_finite(2)[of s] by simp
  then have "op_now s p = OP_TERMINATE" using p by (auto simp: at_end_def)
  moreover have "\<not> pending s p e" for e using no_events(2)[OF I(1)] sup by simp
  ultimately show ?thesis using linksD(3)[OF I(5) p] by (simp add: proc_link_def Let_def)
qed

lemma prompt_exit_ok: "prompt_step\<^sup>*\<^sup>* s s' \<Longrightarrow> exit_ok s \<Longrightarrow> exit_ok s'"
  by (induction rule: rtranclp_induct) (auto intro: exit_ok_step prompt_os_step)

lemma prompt_count: "prompt_step\<^sup>*\<^sup>* s s' \<Longrightarrow> cpu_count s' = cpu_count s"
proof (induction rule: rtranclp_induct)
  case (step y z)
  from prompt_os_step[OF step(2)] have "cpu_count z = cpu_count y"
    by (cases rule: os_step_cases) (auto simp: cpu_effect_def dest: sup_moves_frame(2) elim: sup_raises_frame)
  then show ?case using step(3) by simp
qed simp

lemma os_main_started: "os_main strtoul strtol room args = Inr s \<Longrightarrow> \<exists>n q. started n q room s"
  by (auto simp: os_main_def started_def)

text \<open>An eager run without a further step has ended well.\<close>

lemma eager_end:
  assumes "eager_step\<^sup>*\<^sup>* s s'" and "eager_inv s" and "exit_ok s" and "\<nexists>s1. eager_step s' s1"
  shows "supervisor s' = Sup_Exit \<and> (\<forall>p < PROCESS_COUNT. os_state (tasks (sch s') p) = PROCESS_TERMINATED)
    \<and> (\<exists>k. simulator_time s' = simulator_time s + of_nat k \<and> k \<le> intervals_left s)"
proof -
  note run = eager_run_clock[OF assms(1,2)]
  have inv: "prompt_inv_exact s'" using eager.reachable[OF assms(1,2)] by (simp add: eager_inv_def)
  then have "supervisor s' = Sup_Exit" using eager_progress assms(4) by blast
  moreover have "exit_ok s'" using prompt_exit_ok[of s s'] run assms(3) by blast
  ultimately show ?thesis using exit_all_terminated[OF inv] run by fastforce
qed

subsection \<open>Properties\<close>

text \<open>C4: The whole program works: for all accepted options, so every number of CPUs and FIFO or round-robin scheduling with any time slice, as long as
  the CPU threads are faster than the supervisor (it takes a step only when none of them can), there is no infinite run, and a run
  that cannot go on has ended with \<open>exit\<close>, with all eight processes terminated, after at most 1055 intervals of
  simulated time (666 of CPU time, 309 of I/O and 80 until all processes have been created).\<close>

theorem eager_runs_finish:
  assumes "os_main strtoul strtol room args = Inr s0" and "PROCESS_COUNT \<le> room"
  shows "(\<forall>run. run 0 = s0 \<longrightarrow> (\<exists>i. \<not> eager_step (run i) (run (Suc i))))
    \<and> (\<forall>s. eager_step\<^sup>*\<^sup>* s0 s \<longrightarrow> (\<nexists>s'. eager_step s s') \<longrightarrow>
        supervisor s = Sup_Exit \<and> (\<forall>p < PROCESS_COUNT. os_state (tasks (sch s) p) = PROCESS_TERMINATED)
        \<and> unat (simulator_time s) \<le> 1055)"
proof -
  obtain n q where st: "started n q room s0" using os_main_started[OF assms(1)] by blast
  note S = started_eager[OF st assms(2)]
  have "unat (of_nat k :: u32) \<le> 1055" if "k \<le> 1055" for k using that by (simp add: unat_of_nat)
  then have "supervisor s = Sup_Exit \<and> (\<forall>p < PROCESS_COUNT. os_state (tasks (sch s) p) = PROCESS_TERMINATED)
      \<and> unat (simulator_time s) \<le> 1055" if "eager_step\<^sup>*\<^sup>* s0 s" "\<nexists>s'. eager_step s s'" for s
    using eager_end[OF that(1) S(1) started_exit[OF st assms(2)] that(2)] S(2,3) by auto
  moreover have "\<exists>i. \<not> eager_step (run i) (run (Suc i))" if "run 0 = s0" for run using eager.no_infinite_run[of run] S(1) that by simp
  ultimately show ?thesis by blast
qed

text \<open>\<open>./os-sim 2 -r 3\<close>\<close>

theorem eager_runs_finish_witness:
  "\<exists>s0 s. os_main (\<lambda>_. 2) (\<lambda>_. 3) PROCESS_COUNT [''2'', ''-r'', ''3''] = Inr s0
    \<and> eager_step\<^sup>*\<^sup>* s0 s \<and> supervisor s = Sup_Exit \<and> unat (simulator_time s) \<le> 1055"
proof -
  have "\<exists>s0. os_main (\<lambda>_. 2) (\<lambda>_. 3) PROCESS_COUNT [''2'', ''-r'', ''3''] = Inr s0"
    by (simp add: os_main_def parse_options_def is_dash_r_def start_simulator_def Let_def)
  then obtain s0 where s0: "os_main (\<lambda>_. 2) (\<lambda>_. 3) PROCESS_COUNT [''2'', ''-r'', ''3''] = Inr s0" by blast
  then obtain s where "eager_step\<^sup>*\<^sup>* s0 s" "\<nexists>s'. eager_step s s'" using eager.run_ends started_eager(1) os_main_started by blast
  then show ?thesis using s0 eager_runs_finish[OF s0] by blast
qed

text \<open>C13: A prompt run cannot get into a state from which the simulation cannot end: between any two intervals, whatever has
  happened before, the threads can still be run so that all processes terminate, and the number of intervals left is at most the
  CPU time, the I/O time and the time to create processes that are left.\<close>

theorem simulation_never_stuck:
  assumes "started n q room s0" and "PROCESS_COUNT \<le> room" and "prompt_step\<^sup>*\<^sup>* s0 s" and "supervisor s = Sup_Loop"
  shows "\<exists>s' k. prompt_step\<^sup>*\<^sup>* s s' \<and> supervisor s' = Sup_Exit \<and> (\<forall>p < PROCESS_COUNT. os_state (tasks (sch s') p) = PROCESS_TERMINATED)
    \<and> simulator_time s' = simulator_time s + of_nat k
    \<and> k \<le> total_left s + io_left s + creation_left (processes_created s) (simulator_time s)"
proof -
  have "prompt_inv_exact s" using exact.reachable[OF assms(3) started_exact[OF assms(1,2)]] .
  moreover have "0 < cpu_count s" using prompt_count[OF assms(3)] started_eager(1)[OF assms(1,2)] by (simp add: eager_inv_def)
  ultimately have inv: "eager_inv s" using assms(4) by (simp add: eager_inv_def calm_def mutex_free_def)
  have ok: "exit_ok s" using prompt_exit_ok[OF assms(3) started_exit[OF assms(1,2)]] .
  obtain s' where s': "eager_step\<^sup>*\<^sup>* s s'" "\<nexists>s1. eager_step s' s1" using eager.run_ends[OF inv] by blast
  have "intervals_left s = total_left s + io_left s + creation_left (processes_created s) (simulator_time s)"
    using assms(4) by (simp add: intervals_left_def ahead_def to_create_def)
  then show ?thesis using eager_end[OF s'(1) inv ok s'(2)] eager_run_clock[OF s'(1) inv] by fastforce
qed

theorem simulation_never_stuck_witness: "\<exists>s k. prompt_step\<^sup>*\<^sup>* idle_state s \<and> supervisor s = Sup_Exit \<and> simulator_time s = 1 + of_nat k"
proof -
  have "supervisor idle_state = Sup_Loop" "simulator_time idle_state = 1" by (simp_all add: idle_state_def)
  then show ?thesis
    using idle_run_prompt simulation_never_stuck[of 2 "-1" PROCESS_COUNT _ idle_state] by fastforce
qed

end
