(* ===== verification/Os_Report.thy ===== *)
theory Os_Report
  imports Os_Finish C_Float
begin

text \<open>
  What the scheduler simulator prints: the header and the lines of the Gantt chart, and the final statistics. A line is the
  arguments of its \<open>printf\<close> calls; how \<open>printf\<close> pads and rounds a number is the C library's.
\<close>

subsection \<open>The header\<close>

fun decimal :: "nat \<Rightarrow> string" where
  "decimal n = (if n < 10 then [char_of (48 + n)] else decimal (n div 10) @ [char_of (48 + n mod 10)])"

declare decimal.simps [simp del]

definition print_gantt_header :: "os \<Rightarrow> string list" where
  "print_gantt_header s =
     [''Time  Ru Re Wa     '' @ concat (map (\<lambda>n. '' CPU '' @ decimal n @ ''   '') [0..<cpu_count s]) @ ''     < I/O Queue <'',
      ''===== == == ==     '' @ concat (map (\<lambda>n. '' ========'') [0..<cpu_count s]) @ ''     ============='']"

subsection \<open>A line\<close>

record gantt_row =
  row_time :: rat
  row_running :: u32
  row_ready :: u32
  row_waiting :: u32
  row_cpus :: "string list"
  row_io :: "string list"

text \<open>\<open>(float)t / 10.0\<close>\<close>

definition seconds :: "u32 \<Rightarrow> rat" where
  "seconds t = to_double (to_float (of_nat (unat t)) / 10)"

definition process_name :: "os \<Rightarrow> nat \<Rightarrow> string res" where
  "process_name s p = bindE (get_task (sch s) p) (\<lambda>t. Inr (os_name t))"

definition cpu_label :: "os \<Rightarrow> nat \<Rightarrow> string res" where
  "cpu_label s n = (case cd_current (cpu_data s n) of None \<Rightarrow> Inr ''(IDLE)'' | Some p \<Rightarrow> process_name s p)"

fun cpu_labels :: "os \<Rightarrow> nat list \<Rightarrow> string list res" where
  "cpu_labels s [] = Inr []"
| "cpu_labels s (n # ns) = bindE (cpu_label s n) (\<lambda>x. bindE (cpu_labels s ns) (\<lambda>xs. Inr (x # xs)))"

text \<open>The loop over the I/O queue, with the fuel of the other loops that follow pointers.\<close>

fun io_labels :: "nat \<Rightarrow> os \<Rightarrow> nat option \<Rightarrow> string list res" where
  "io_labels 0 s r = Inl Diverges"
| "io_labels (Suc fuel) s r =
     (if r = None then Inr []
      else bindE (load (io_heap s) r) (\<lambda>q.
           bindE (process_name s (io_pcb q)) (\<lambda>x.
           bindE (io_labels fuel s (io_next q)) (\<lambda>xs. Inr (x # xs)))))"

definition print_gantt_line :: "os \<Rightarrow> gantt_row res" where
  "print_gantt_line s =
     bindE (cpu_labels s [0..<cpu_count s]) (\<lambda>cpus.
     bindE (io_labels (brk (io_heap s) + 1) s (io_queue_head s)) (\<lambda>io.
       Inr \<lparr>row_time = seconds (simulator_time s), row_running = count_state s PROCESS_RUNNING,
         row_ready = count_state s PROCESS_READY, row_waiting = count_state s PROCESS_WAITING, row_cpus = cpus, row_io = io\<rparr>))"

subsection \<open>Final statistics\<close>

record final_stats =
  stat_switches :: u32
  stat_time :: rat
  stat_ready :: rat

definition print_final_stats :: "os \<Rightarrow> final_stats" where
  "print_final_stats s = \<lparr>stat_switches = context_switches s, stat_time = seconds (simulator_time s), stat_ready = seconds (ready_counter s)\<rparr>"

subsection \<open>The line is printed\<close>

lemma cpu_labels_ok:
  assumes "os_inv s"
  shows "cpu_labels s ns = Inr (map (\<lambda>n. case cd_current (cpu_data s n) of None \<Rightarrow> ''(IDLE)'' | Some p \<Rightarrow> os_name (tasks (sch s) p)) ns)"
proof (induction ns)
  case (Cons n ns)
  have "in_range (cd_current (cpu_data s n))" using assms by (rule os_invD(5))
  then show ?case
    using Cons by (cases "cd_current (cpu_data s n)") (simp_all add: cpu_label_def process_name_def get_task_def)
qed simp

lemma io_labels_chain:
  "chain (request_next (io_heap s)) r rs None \<Longrightarrow> set rs \<subseteq> dom (cells (io_heap s)) \<Longrightarrow>
    \<forall>a \<in> set rs. request_pcb (io_heap s) a < PROCESS_COUNT \<Longrightarrow> length rs < fuel \<Longrightarrow>
    io_labels fuel s r = Inr (map (\<lambda>a. os_name (tasks (sch s) (request_pcb (io_heap s) a))) rs)"
proof (induction rs arbitrary: r fuel)
  case Nil
  then show ?case by (cases fuel) auto
next
  case (Cons a rs)
  then obtain n q where "fuel = Suc n" "r = Some a" "cells (io_heap s) a = Some q" by (cases fuel) auto
  with Cons request_cell[of "io_heap s" a q] show ?case by (auto simp: process_name_def get_task_def load_def)
qed

lemma io_labels_ok:
  assumes "io_items s ps"
  shows "io_labels (brk (io_heap s) + 1) s (io_queue_head s) = Inr (map (\<lambda>p. os_name (tasks (sch s) p)) ps)"
proof -
  obtain rs where rs: "io_list s rs" "ps = map (request_pcb (io_heap s)) rs" using assms by (auto simp: io_items_def)
  then have q: "fifo (request_next (io_heap s)) (io_queue_head s) (io_queue_tail s) rs" and dom: "dom (cells (io_heap s)) = set rs"
    by (simp_all add: io_list_def)
  have "set rs \<subseteq> {..<brk (io_heap s)}" using rs(1) dom by (auto simp: io_list_def heap_ok_def)
  then have "card (set rs) \<le> brk (io_heap s)" using card_mono[of "{..<brk (io_heap s)}"] by simp
  then have "length rs < brk (io_heap s) + 1" using distinct_card[OF fifo_distinct[OF q]] by simp
  then have "io_labels (brk (io_heap s) + 1) s (io_queue_head s) = Inr (map (\<lambda>a. os_name (tasks (sch s) (request_pcb (io_heap s) a))) rs)"
    using q dom rs(1) by (intro io_labels_chain) (auto simp: fifo_def io_list_def)
  then show ?thesis using rs(2) by simp
qed

lemma count_state_card: "unat (count_state s st) = card {p. p < PROCESS_COUNT \<and> os_state (tasks (sch s) p) = st}"
proof -
  let ?xs = "filter (\<lambda>p. os_state (tasks (sch s) p) = st) [0..<PROCESS_COUNT]"
  have "length ?xs \<le> PROCESS_COUNT" using length_filter_le[of _ "[0..<PROCESS_COUNT]"] by (metis diff_zero length_upt)
  then have "unat (of_nat (length ?xs) :: u32) = length ?xs" by (simp add: unat_of_nat PROCESS_COUNT_def)
  also have "\<dots> = card (set ?xs)" by (intro distinct_card[symmetric]) simp
  also have "set ?xs = {p. p < PROCESS_COUNT \<and> os_state (tasks (sch s) p) = st}" by auto
  finally show ?thesis by (simp add: count_state_def)
qed

text \<open>Times of less than \<open>2 ^ 24\<close> tenths of a second are not rounded to \<open>float\<close>.\<close>

lemma seconds_error:
  assumes "unat t < 2 ^ 24"
  shows "\<bar>seconds t - of_nat (unat t) / 10\<bar> \<le> of_nat (unat t) / 10 / 2 ^ 53"
proof -
  have "to_float (of_nat (unat t)) = of_nat (unat t)" unfolding to_float_def using assms by (rule round_to_nat)
  moreover have "\<bar>round_to 53 (of_nat (unat t) / 10) - of_nat (unat t) / 10\<bar> \<le> of_nat (unat t) / 10 / 2 ^ 53"
    by (intro round_to_error divide_nonneg_nonneg of_nat_0_le_iff) simp
  ultimately show ?thesis by (simp only: seconds_def to_double_def)
qed

subsection \<open>The line is true\<close>

text \<open>C21: In a run in which the supervisor does not overtake the CPU threads, the printed line is true: it is printed without a
  fault, the number of waiting processes is the number of names in the I/O queue, and the names are those of the processes in the
  state \<open>PROCESS_WAITING\<close>, in the order of their requests; and the processes in the state \<open>PROCESS_TERMINATED\<close> are those that have
  executed all their operations.\<close>

theorem prompt_gantt_is_true:
  assumes "started n q room s0" and "PROCESS_COUNT \<le> room" and "prompt_step\<^sup>*\<^sup>* s0 s" and "supervisor s = Sup_Gantt"
  shows "\<exists>row ps. print_gantt_line s = Inr row \<and> io_items s ps \<and> row_io row = map (\<lambda>p. os_name (tasks (sch s) p)) ps
    \<and> unat (row_waiting row) = length (row_io row)
    \<and> (\<forall>p < PROCESS_COUNT. (os_state (tasks (sch s) p) = PROCESS_WAITING \<longleftrightarrow> p \<in> set ps)
      \<and> (os_state (tasks (sch s) p) = PROCESS_TERMINATED \<longleftrightarrow> op_now s p = OP_TERMINATE))"
proof -
  have inv: "contract_inv s" using prompt_inv[OF assms(1-3)] .
  then have I: "links s" "io_ok s" "os_inv s" by (simp_all add: contract_inv_def os_inv_def)
  obtain ps where ps: "io_items s ps" "set ps = {p. p < PROCESS_COUNT \<and> op_now s p = OP_IO}"
    using I(2) by (auto simp: io_ok_def)
  have fit: "(os_state (tasks (sch s) p) = PROCESS_WAITING \<longleftrightarrow> op_now s p = OP_IO)
      \<and> (os_state (tasks (sch s) p) = PROCESS_TERMINATED \<longleftrightarrow> op_now s p = OP_TERMINATE)" if "p < PROCESS_COUNT" for p
    using linksD(3)[OF I(1) that] no_events(2)[OF inv, of p] assms(4) by (auto simp: proc_link_def Let_def split: op_type.splits)
  then have waiting: "{p. p < PROCESS_COUNT \<and> os_state (tasks (sch s) p) = PROCESS_WAITING} = set ps" using ps(2) by blast
  have "distinct ps" using ps(1) by (auto simp: io_items_def io_list_def)
  then have "unat (count_state s PROCESS_WAITING) = length ps" unfolding count_state_card waiting by (rule distinct_card)
  then show ?thesis
    using fit ps io_labels_ok[OF ps(1)] cpu_labels_ok[OF I(3)] by (intro exI[of _ ps] exI) (auto simp: print_gantt_line_def)
qed

theorem prompt_gantt_is_true_witness:
  "\<exists>s row. run_threads waiting_run idle_state = Inr s \<and> print_gantt_line s = Inr row \<and> row_io row \<noteq> []"
proof -
  obtain s where s: "run_threads waiting_run idle_state = Inr s" "prompt_run waiting_run idle_state" "supervisor s = Sup_Gantt"
    "os_state (tasks (sch s) 0) = PROCESS_WAITING"
    using waiting_run_prompt by blast
  then obtain s0 where "started 2 (-1) PROCESS_COUNT s0" "prompt_step\<^sup>*\<^sup>* s0 s"
    using idle_run_prompt prompt_run_reach by (meson rtranclp_trans)
  from prompt_gantt_is_true[OF this(1) _ this(2) s(3)] s show ?thesis by (auto simp: PROCESS_COUNT_def)
qed





end
