(* ===== verification/Os_Slice.thy ===== *)
theory Os_Slice
  imports Os_Eager
begin

text \<open>
  The time slice: with round-robin scheduling no process keeps a CPU for more intervals than its time slice, in a prompt run. (After a lost event the
  timer would go on below 0, and never ask for a preemption again.)
\<close>

subsection \<open>What an interval does to the timer\<close>








subsection \<open>The slice\<close>














end
