(* ===== verification/Os_Sleep.thy ===== *)
theory Os_Sleep
  imports C_Prelude "HOL-Library.Signed_Division"
begin

text \<open>
  \<open>mt_safe_usleep\<close> of \<open>os-sim.c\<close>, with which the supervisor waits between two intervals. \<open>nanosleep\<close> is the C library's: a function of
  the world it runs in, which gives the result, the time that remains, and the world afterwards.
\<close>

subsection \<open>The code\<close>

record timespec =
  tv_sec :: int
  tv_nsec :: int

definition usleep_time :: "int \<Rightarrow> timespec" where
  "usleep_time usec = \<lparr>tv_sec = usec sdiv 1000000, tv_nsec = (usec smod 1000000) * 1000\<rparr>"

text \<open>\<open>while (nanosleep(&ts, &ts) != 0);\<close>. It may never end: then there is no result.\<close>

partial_function (option) nanosleep_loop ::
    "('w \<Rightarrow> timespec \<Rightarrow> int \<times> timespec \<times> 'w) \<Rightarrow> 'w \<Rightarrow> timespec \<Rightarrow> 'w option" where
  "nanosleep_loop nanosleep w ts =
     (case nanosleep w ts of (r, ts', w') \<Rightarrow> if r \<noteq> 0 then nanosleep_loop nanosleep w' ts' else Some w')"

definition mt_safe_usleep :: "('w \<Rightarrow> timespec \<Rightarrow> int \<times> timespec \<times> 'w) \<Rightarrow> 'w \<Rightarrow> int \<Rightarrow> 'w option" where
  "mt_safe_usleep nanosleep w usec = nanosleep_loop nanosleep w (usleep_time usec)"

subsection \<open>It sleeps long enough\<close>

definition nanoseconds :: "timespec \<Rightarrow> int" where
  "nanoseconds ts = 1000000000 * tv_sec ts + tv_nsec ts"

definition valid_time :: "timespec \<Rightarrow> bool" where
  "valid_time ts \<longleftrightarrow> 0 \<le> tv_sec ts \<and> 0 \<le> tv_nsec ts \<and> tv_nsec ts < 1000000000"

lemma usleep_time_valid:
  assumes "0 \<le> usec"
  shows "valid_time (usleep_time usec)" and "nanoseconds (usleep_time usec) = 1000 * usec"
proof -
  have d: "usec sdiv 1000000 = usec div 1000000" "usec smod 1000000 = usec mod 1000000"
    using assms by (simp_all add: signed_divide_int_def signed_modulo_int_def sgn_if)
  show "valid_time (usleep_time usec)" using assms by (simp add: valid_time_def usleep_time_def d pos_imp_zdiv_nonneg_iff)
  have "1000000 * (usec div 1000000) + usec mod 1000000 = usec" by (rule mult_div_mod_eq)
  then show "nanoseconds (usleep_time usec) = 1000 * usec" unfolding nanoseconds_def usleep_time_def d timespec.simps by linarith
qed

text \<open>
  What POSIX says of \<open>nanosleep\<close>: for a valid time it returns 0 after at least that time, or it has been interrupted, and then gives the time that
  remains. An interruption comes after some time has passed, so less than the request remains.
\<close>

definition sleeps :: "('w \<Rightarrow> int) \<Rightarrow> ('w \<Rightarrow> timespec \<Rightarrow> int \<times> timespec \<times> 'w) \<Rightarrow> bool" where
  "sleeps clock nanosleep \<longleftrightarrow> (\<forall>w ts r ts' w'. valid_time ts \<longrightarrow> nanosleep w ts = (r, ts', w') \<longrightarrow>
     (if r = 0 then clock w + nanoseconds ts \<le> clock w'
      else valid_time ts' \<and> nanoseconds ts' < nanoseconds ts \<and> clock w + nanoseconds ts \<le> clock w' + nanoseconds ts'))"

lemma sleepsD:
  assumes "sleeps clock nanosleep" and "valid_time ts" and "nanosleep w ts = (r, ts', w')"
  shows "r = 0 \<Longrightarrow> clock w + nanoseconds ts \<le> clock w'"
    and "r \<noteq> 0 \<Longrightarrow> valid_time ts' \<and> nanoseconds ts' < nanoseconds ts \<and> clock w + nanoseconds ts \<le> clock w' + nanoseconds ts'"
  using assms unfolding sleeps_def by (metis (full_types))+

lemma nanosleep_loop_sleeps:
  assumes "sleeps clock nanosleep"
  shows "valid_time ts \<Longrightarrow> \<exists>w'. nanosleep_loop nanosleep w ts = Some w' \<and> clock w + nanoseconds ts \<le> clock w'"
proof (induction "nat (nanoseconds ts)" arbitrary: ts w rule: less_induct)
  case less
  obtain r ts1 w1 where n: "nanosleep w ts = (r, ts1, w1)" by (cases "nanosleep w ts") auto
  note s = sleepsD[OF assms less.prems n]
  show ?case
  proof (cases "r = 0")
    case True
    then show ?thesis using s(1) n by (simp add: nanosleep_loop.simps)
  next
    case False
    then have "valid_time ts1" "nanoseconds ts1 < nanoseconds ts" "clock w + nanoseconds ts \<le> clock w1 + nanoseconds ts1" using s(2) by simp_all
    moreover from this(1) have "0 \<le> nanoseconds ts1" by (simp add: valid_time_def nanoseconds_def)
    ultimately show ?thesis
      using less.hyps[of ts1 w1] n False by (fastforce simp: nanosleep_loop.simps[of nanosleep w])
  qed
qed

text \<open>For a time that is not negative the loop ends, after at least that time, however often \<open>nanosleep\<close> is interrupted.\<close>

lemma mt_safe_usleep_sleeps:
  assumes "sleeps clock nanosleep" and "0 \<le> usec"
  shows "\<exists>w'. mt_safe_usleep nanosleep w usec = Some w' \<and> clock w + 1000 * usec \<le> clock w'"
  using nanosleep_loop_sleeps[OF assms(1) usleep_time_valid(1)[OF assms(2)], of w] usleep_time_valid(2)[OF assms(2)]
  by (simp add: mt_safe_usleep_def)

text \<open>
  \<open>nanosleep\<close> refuses a time that is not valid, and leaves it as it is: then the loop never ends. A negative time is not valid.
\<close>

lemma nanosleep_loop_refused:
  assumes "\<And>w. fst (nanosleep w ts) \<noteq> 0 \<and> fst (snd (nanosleep w ts)) = ts"
  shows "nanosleep_loop nanosleep w ts = None"
proof -
  let ?refuses = "\<lambda>ns. \<forall>w. fst (ns w ts) \<noteq> 0 \<and> fst (snd (ns w ts)) = ts"
  have "?refuses ns \<longrightarrow> t \<noteq> ts" if "nanosleep_loop ns w t = Some w'" for ns w t w'
    using that
  proof (rule nanosleep_loop.raw_induct[of "\<lambda>ns w t w'. ?refuses ns \<longrightarrow> t \<noteq> ts", rotated], goal_cases)
    case (1 loop ns w t w')
    obtain r t1 w1 where n: "ns w t = (r, t1, w1)" by (cases "ns w t") auto
    show ?case
    proof (intro impI notI)
      assume a: "?refuses ns" "t = ts"
      then have "fst (ns w ts) \<noteq> 0 \<and> fst (snd (ns w ts)) = ts" by blast
      then have "r \<noteq> 0" "t1 = ts" using n a(2) by auto
      then show False using 1 n a(1) by auto
    qed
  qed
  then show ?thesis using assms by (metis not_None_eq)
qed

lemma negative_time_refused: "usec < 0 \<Longrightarrow> \<not> valid_time (usleep_time usec)"
  using mult_sdiv_smod_eq[of 1000000 usec] by (auto simp: valid_time_def usleep_time_def)

lemma mt_safe_usleep_negative:
  assumes "\<And>w ts. \<not> valid_time ts \<Longrightarrow> fst (nanosleep w ts) \<noteq> 0 \<and> fst (snd (nanosleep w ts)) = ts" and "usec < 0"
  shows "mt_safe_usleep nanosleep w usec = None"
  unfolding mt_safe_usleep_def using assms negative_time_refused by (intro nanosleep_loop_refused) blast

text \<open>A clock that is interrupted in the middle of every sleep of more than 100 nanoseconds.\<close>

definition interrupted_sleep :: "int \<Rightarrow> timespec \<Rightarrow> int \<times> timespec \<times> int" where
  "interrupted_sleep now ts =
     (if \<not> valid_time ts then (-1, ts, now)
      else if tv_nsec ts > 100 then (-1, ts\<lparr>tv_nsec := tv_nsec ts - 100\<rparr>, now + 100)
      else (0, ts, now + nanoseconds ts))"

lemma interrupted_sleep_sleeps: "sleeps id interrupted_sleep"
  by (auto simp: sleeps_def interrupted_sleep_def valid_time_def nanoseconds_def)

lemma interrupted_sleep_example: "\<exists>w. mt_safe_usleep interrupted_sleep 7 1 = Some w \<and> 1007 \<le> w"
  using mt_safe_usleep_sleeps[OF interrupted_sleep_sleeps, of 1 7] by simp

end
