(* ===== verification/Os_Forever.thy ===== *)
theory Os_Forever
  imports Os_Finish
begin

text \<open>
  Runs of the simulator that never end: the termination of a process can be lost when the CPU threads are slower than the supervisor. Any eager run
  can be changed so that the thread of one CPU stays at the top of its loop, which nobody notices until the supervisor
  raises the next event for that CPU; the thread then overwrites the event.
\<close>

subsection \<open>A thread that lags behind\<close>

text \<open>The thread of CPU \<open>c\<close> is still at the top of its loop, and the state of the CPU is what it was.\<close>

definition lag :: "nat \<Rightarrow> simulator_cpu_state_t \<Rightarrow> os \<Rightarrow> os" where
  "lag c x s = goto (set_cpu_state s c x) c At_Loop"

lemmas lag_simps = lag_def goto_def set_cpu_state_def

lemma lag_fields [simp]:
  "sch (lag c x s) = sch s" "operations (lag c x s) = operations s" "io_heap (lag c x s) = io_heap s"
  "io_queue_head (lag c x s) = io_queue_head s" "io_queue_tail (lag c x s) = io_queue_tail s" "cpu_count (lag c x s) = cpu_count s"
  "simulator_time (lag c x s) = simulator_time s" "processes_terminated (lag c x s) = processes_terminated s"
  "processes_created (lag c x s) = processes_created s" "writers (lag c x s) = writers s" "supervisor (lag c x s) = supervisor s"
  "cd_current (cpu_data (lag c x s) d) = cd_current (cpu_data s d)"
  "preemption_timer (cpu_data (lag c x s) d) = preemption_timer (cpu_data s d)"
  by (simp_all add: lag_simps)

lemma lag_goto: "sup_goto (lag c x s) t = lag c x (sup_goto s t)"
  by (simp add: lag_simps sup_goto_def)

lemma lag_raise: "raise_event (lag c x s) n st = lag c (if n = c then st else x) (raise_event s n st)"
  by (simp add: lag_simps raise_event_def sup_goto_def fun_eq_iff)

lemma lag_update: "update_task s p f = Inr s' \<Longrightarrow> update_task (lag c x s) p f = Inr (lag c x s')"
  by (auto simp: update_task_def lag_simps)

lemma lag_advance: "advance s p = Inr (op, s') \<Longrightarrow> advance (lag c x s) p = Inr (op, lag c x s')"
  by (auto simp: advance_def op_at_def dest: lag_update split: if_splits)

lemma lag_submit: "submit_io_request t s p = Inr s' \<Longrightarrow> submit_io_request t (lag c x s) p = Inr (lag c x s')"
  by (auto simp: submit_io_request_def lag_simps split: option.splits if_splits)

lemma lag_remove: "remove_io_request s = Inr (p, s') \<Longrightarrow> remove_io_request (lag c x s) = Inr (p, lag c x s')"
  by (auto simp: remove_io_request_def lag_simps Let_def bindE_def split: sum.splits option.splits if_splits)

lemma lag_io:
  assumes "simulate_io s = Inr (p, s')"
  shows "simulate_io (lag c x s) = Inr (p, lag c x s')"
proof (cases "io_queue_head s")
  case None
  then show ?thesis using assms by (simp add: simulate_io_def)
next
  case (Some q)
  obtain r h where rh: "load (io_heap s) (Some q) = Inr r"
    "store (io_heap s) (Some q) (r\<lparr>execution_time := execution_time r - 1\<rparr>) = Inr h"
    using assms Some unfolding simulate_io_def by auto
  define finished where "finished = (execution_time r \<le> 0)"
  have run: "simulate_io t = (if finished then bindE (advance (t\<lparr>io_heap := h\<rparr>) (io_pcb r)) (\<lambda>(_, s2). remove_io_request s2)
      else Inr (None, t\<lparr>io_heap := h\<rparr>))" if "io_queue_head t = Some q" "io_heap t = io_heap s" for t
    using that rh by (simp add: simulate_io_def finished_def Let_def)
  have heap: "(lag c x s)\<lparr>io_heap := h\<rparr> = lag c x (s\<lparr>io_heap := h\<rparr>)" by (simp add: lag_simps)
  show ?thesis
  proof (cases finished)
    case True
    then obtain op s2 where "advance (s\<lparr>io_heap := h\<rparr>) (io_pcb r) = Inr (op, s2)" "remove_io_request s2 = Inr (p, s')"
      using assms Some by (auto simp: run)
    then show ?thesis using True Some lag_advance lag_remove by (simp add: run heap)
  qed (use assms Some in \<open>simp add: run heap\<close>)
qed

text \<open>The event that a burst ends with, if it ends, is the same.\<close>

definition lag_after :: "nat \<Rightarrow> simulator_cpu_state_t \<Rightarrow> os \<Rightarrow> os" where
  "lag_after c x s' = lag c (if supervisor s' = Sup_Wait c then cd_state (cpu_data s' c) else x) s'"

lemma lag_after_raise: "raise_event (lag c x s) n st = lag_after c x (raise_event s n st)"
  by (simp add: lag_after_def lag_raise) (simp add: raise_event_def sup_goto_def set_cpu_state_def)

lemma lag_after_goto: "(\<And>d. t \<noteq> Sup_Wait d) \<Longrightarrow> sup_goto (lag c x s) t = lag_after c x (sup_goto s t)"
  by (simp add: lag_after_def lag_goto)

lemma lag_run_burst:
  assumes "run_burst n p op s = Inr s'"
  shows "run_burst n p op (lag c x s) = Inr (lag_after c x s')"
proof -
  let ?w = "\<lambda>t s. s\<lparr>operations := (operations s)(p := (operations s p)[os_pc t := op\<lparr>op_time := op_time op - 1\<rparr>])\<rparr>"
  let ?f = "\<lambda>t. t\<lparr>time_remaining := op_time op - 1 + 1\<rparr>"
  let ?timer = "\<lambda>s. s\<lparr>cpu_data := (cpu_data s)(n := (cpu_data s n)\<lparr>preemption_timer := preemption_timer (cpu_data s n) - 1\<rparr>)\<rparr>"
  obtain t s2 where t: "get_task (sch s) p = Inr t" "update_task (?w t s) p ?f = Inr s2"
    using assms by (auto simp: run_burst_def Let_def)
  have ops: "?w t (lag c x s) = lag c x (?w t s)" by (simp add: lag_simps)
  have timer: "?timer (lag c x s2) = lag c x (?timer s2)" by (auto simp: lag_simps fun_eq_iff)
  have "update_task (?w t (lag c x s)) p ?f = Inr (lag c x s2)" using lag_update[OF t(2)] ops by simp
  then have "run_burst n p op (lag c x s) = Inr (if preemption_timer (cpu_data s2 n) - 1 = 0
      then raise_event (?timer (lag c x s2)) n CPU_PREEMPT else sup_goto (?timer (lag c x s2)) (Sup_Cpus (n + 1)))"
    using t(1) by (simp add: run_burst_def Let_def)
  moreover have "s' = (if preemption_timer (cpu_data s2 n) - 1 = 0
      then raise_event (?timer s2) n CPU_PREEMPT else sup_goto (?timer s2) (Sup_Cpus (n + 1)))"
    using assms t by (simp add: run_burst_def Let_def)
  ultimately show ?thesis unfolding timer by (simp add: lag_after_raise lag_after_goto)
qed

lemma lag_end_burst:
  assumes "end_burst n p s = Inr s'"
  shows "end_burst n p (lag c x s) = Inr (lag_after c x s')"
proof -
  obtain op s1 where a: "advance s p = Inr (op, s1)" using assms by (auto simp: end_burst_def)
  show ?thesis
  proof (cases "op_kind op")
    case OP_IO
    then obtain s2 where "submit_io_request (op_time op) s1 p = Inr s2" "s' = raise_event s2 n CPU_YIELD"
      using assms a by (auto simp: end_burst_def)
    then show ?thesis using OP_IO lag_advance[OF a] lag_submit by (simp add: end_burst_def lag_after_raise)
  qed (use assms lag_advance[OF a] a in \<open>auto simp: end_burst_def lag_after_raise lag_after_goto\<close>)
qed

lemma lag_simulate_process:
  assumes "simulate_process n p s = Inr s'"
  shows "simulate_process n p (lag c x s) = Inr (lag_after c x s')"
proof -
  obtain t op where "get_task (sch s) p = Inr t" "op_at s p (os_pc t) = Inr op"
    using assms unfolding simulate_process_def bindE_eq_Inr by blast
  moreover from this have "op_at (lag c x s) p (os_pc t) = Inr op" by (simp add: op_at_def split: if_splits)
  ultimately show ?thesis
    using assms lag_run_burst lag_end_burst
    by (cases "op_kind op") (auto simp: simulate_process_def lag_after_goto split: if_splits)
qed

text \<open>The supervisor does not notice.\<close>

lemma sup_step_lag:
  assumes "sup_step s = Inr (Some s')"
  shows "sup_step (lag c x s) = Inr (Some (lag_after c x s'))"
proof (cases "supervisor s")
  case (Sup_Cpus n)
  then have "simulate_cpu n s = Inr s'" using assms by (simp add: sup_step_def)
  then have "simulate_cpu n (lag c x s) = Inr (lag_after c x s')"
    using lag_simulate_process by (auto simp: simulate_cpu_def lag_after_goto split: if_splits option.splits)
  then show ?thesis using Sup_Cpus by (simp add: sup_step_def)
next
  case Sup_Io
  then obtain r s1 where s1: "simulate_io s = Inr (r, s1)" "s' = sup_goto s1 (case r of None \<Rightarrow> Sup_Creat | Some p \<Rightarrow> Sup_Lock True p)"
    using assms by (auto simp: sup_step_def)
  have "sup_goto (lag c x s1) (case r of None \<Rightarrow> Sup_Creat | Some p \<Rightarrow> Sup_Lock True p) = lag_after c x s'"
    unfolding s1(2) by (rule lag_after_goto) (simp split: option.split)
  then show ?thesis using Sup_Io lag_io[OF s1(1)] by (simp add: sup_step_def)
qed (use assms in \<open>auto simp: sup_step_def lag_after_def lag_simps sup_goto_def gantt_line_def count_state_def lift_sched_def split: if_splits\<close>)

text \<open>Neither do the other CPU threads.\<close>

lemma cpu_step_lag:
  assumes "cpu_step d s = Inr (Some s')" and d: "d \<noteq> c"
  shows "cpu_step d (lag c x s) = Inr (Some (lag c x s'))"
proof -
  have th: "threads (lag c x s) d = threads s d" "cd_state (cpu_data (lag c x s) d) = cd_state (cpu_data s d)"
    "mutex_free (lag c x s) = mutex_free s" using d by (simp_all add: lag_simps mutex_free_def)
  have go: "goto (lag c x t) d pc = lag c x (goto t d pc)" for t pc using d by (auto simp: lag_simps fun_eq_iff)
  show ?thesis
  proof (cases "threads s d")
    case At_Loop
    then show ?thesis
      using assms th by (auto simp: cpu_step_def loop_top_def Let_def lag_simps sup_goto_def fun_eq_iff split: if_splits)
  next
    case (Dispatch st)
    then show ?thesis
      using assms th by (cases st) (auto simp: cpu_step_def dispatch_def lag_simps fun_eq_iff split: if_splits)
  next
    case (In_Callback w pc)
    show ?thesis
    proof (cases "\<exists>p. pc = Call_Switch p")
      case True
      then show ?thesis
        using assms th In_Callback by (auto simp: cpu_step_def os_context_switch_def lag_simps fun_eq_iff split: if_splits)
    next
      case False
      then obtain pc' sc where "callback_step d pc (sch s) = Inr (pc', sc)" "s' = goto (s\<lparr>sch := sc\<rparr>) d (In_Callback w pc')"
        "supervisor s \<noteq> Sup_Exit"
        using assms In_Callback by (cases pc) (auto simp: cpu_step_def split: if_splits)
      moreover have "(lag c x s)\<lparr>sch := sc\<rparr> = lag c x (s\<lparr>sch := sc\<rparr>)" by (simp add: lag_simps)
      ultimately show ?thesis
        using False In_Callback th go by (cases pc) (simp_all add: cpu_step_def)
    qed
  qed (use assms th in \<open>auto simp: cpu_step_def lag_simps fun_eq_iff split: if_splits\<close>)
qed

subsection \<open>With eight CPUs a process never takes over the CPU of another\<close>

text \<open>When the supervisor raises an event, all CPUs rest; were a process ready, they would all be running, so there would be more than eight processes.\<close>

lemma ready_means_few_cpus:
  assumes inv: "prompt_inv_exact s" and rest: "\<forall>c < cpu_count s. rests s c" and head: "ready_head (sch s) \<noteq> None"
  shows "cpu_count s < PROCESS_COUNT"
proof -
  note I = exactD[OF inv]
  note L = linksD[OF I(5)]
  have n: "cpus (sch s) = cpu_count s" using I(2) by (simp add: os_inv_def)
  have "sched_inv (sch s, \<lambda>c. callback_of (threads s c))" using I(1) by (simp add: contract_inv_def contract_view_def)
  then obtain ps loc where P: "placed (sch s) (\<lambda>c. callback_of (threads s c)) ps loc" by (auto simp: sched_inv_def)
  note D = placedD[OF P]
  obtain q where "q \<in> set ps"
    using D(1) head fifo_head_None by (cases ps) (auto simp: ready_items_def)
  then have q: "loc q = Some Queue" "q < PROCESS_COUNT" using D(2)[of q] D(5)[of q Queue] by auto
  have "\<exists>p. current (sch s) c = Some p" if "c < cpu_count s" for c
  proof -
    have "threads s c = Blocked" using rest head that by (auto simp: rests_def)
    then show ?thesis using L(1)[of c] by (auto simp: cpu_link_def)
  qed
  then obtain run where run: "\<And>c. c < cpu_count s \<Longrightarrow> current (sch s) c = Some (run c)" by metis
  have on: "loc (run c) = Some (On c)" if "c < cpu_count s" for c using D(3)[of c "run c"] run[OF that] that n by simp
  have "inj_on run {..<cpu_count s}"
    by (rule inj_onI) (metis lessThan_iff on option.inject place.inject(1))
  then have "card (run ` {..<cpu_count s}) = cpu_count s" by (simp add: card_image)
  moreover have "run ` {..<cpu_count s} \<subseteq> {..<PROCESS_COUNT} - {q}"
  proof
    fix p assume "p \<in> run ` {..<cpu_count s}"
    then obtain c where "c < cpu_count s" "p = run c" by auto
    then show "p \<in> {..<PROCESS_COUNT} - {q}" using on D(5)[of p "On c"] q(1) by auto
  qed
  then have "card (run ` {..<cpu_count s}) \<le> card ({..<PROCESS_COUNT} - {q})" by (intro card_mono) auto
  moreover have "card ({..<PROCESS_COUNT} - {q}) < PROCESS_COUNT" using q(2) by (simp add: card_Diff_singleton)
  ultimately show ?thesis by linarith
qed

text \<open>The thread of CPU \<open>c\<close> comes back to the top of its loop without a process.\<close>

definition comes_empty :: "os \<Rightarrow> nat \<Rightarrow> bool" where
  "comes_empty s c \<longleftrightarrow> (case threads s c of
     In_Callback w pc \<Rightarrow> (case pc of Install r \<Rightarrow> r = None | Call_Switch r \<Rightarrow> r = None | _ \<Rightarrow> True)
   | Switch_Set w r \<Rightarrow> r = None
   | Switch_Lock w \<Rightarrow> cd_current (cpu_data s c) = None
   | Unlock_Writer \<Rightarrow> cd_current (cpu_data s c) = None
   | At_Loop \<Rightarrow> cd_current (cpu_data s c) = None
   | _ \<Rightarrow> True)"

definition alone :: "os \<Rightarrow> nat \<Rightarrow> bool" where
  "alone s c \<longleftrightarrow> ready_head (sch s) = None \<and> (\<forall>d < cpu_count s. d \<noteq> c \<longrightarrow> rests s d) \<and> comes_empty s c"

text \<open>Every step of that thread.\<close>

lemma comes_empty_step:
  assumes ok: "cpu_ok s c" "cpu_link s c" and np: "\<not> preempting s c" and re: "responsive s c"
    and e: "comes_empty s c" and head: "ready_head (sch s) = None" and wait: "supervisor s = Sup_Wait c"
    and st: "cpu_step c s = Inr (Some s')"
  shows "comes_empty s' c \<and> ready_head (sch s') = None"
proof (cases "threads s c")
  case (In_Callback w pc)
  have pc: "pc \<noteq> Idle_Wait" "\<not> preempt_pc pc" "w"
    using ok np re In_Callback by (auto simp: cpu_ok_def responsive_def preempting_def)
  from st In_Callback show ?thesis
  proof (cases rule: cpu_callback_cases)
    case (switch p)
    then show ?thesis using e head In_Callback by (simp add: comes_empty_def)
  next
    case (critical pc' sc)
    have "ready_head sc = None \<and> (pc' = Pick \<or> pc' = Install None \<or> pc' = Call_Switch None)"
    proof (cases pc)
      case Pick
      then obtain r where "dequeue_process (sch s) = Inr (r, sc)" "pc' = Install r" using critical by (auto simp: callback_step_def)
      then show ?thesis using pick_effect[of "sch s" r sc] head by auto
    next
      case (Install r)
      then have "r = None" "install_next c r (sch s) = Inr sc" "pc' = Call_Switch r"
        using critical e In_Callback by (auto simp: callback_step_def comes_empty_def)
      then show ?thesis using install_head head by auto
    next
      case Yield_Mark
      then show ?thesis using critical head retire_head by (auto simp: callback_step_def)
    next
      case Terminate_Mark
      then show ?thesis using critical head retire_head by (auto simp: callback_step_def)
    qed (use critical pc in \<open>auto simp: callback_step_def preempt_pc_def\<close>)
    then show ?thesis using critical(3) by (auto simp: comes_empty_def)
  qed
next
  case At_Loop
  then show ?thesis
    using st e head wait
    by (auto simp: cpu_step_def loop_top_def comes_empty_def Let_def goto_def sup_goto_def set_cpu_state_def split: if_splits)
next
  case (Dispatch ev)
  then show ?thesis
    using st e head wait re ok(1)
    by (cases ev) (auto simp: cpu_step_def dispatch_def comes_empty_def responsive_def cpu_ok_def goto_def split: if_splits)
next
  case (Lock_Writer pc)
  then show ?thesis
    using st e head wait ok by (cases pc) (auto simp: cpu_step_def comes_empty_def cpu_link_def mark_event_def goto_def)
qed (use st e head wait in \<open>auto simp: cpu_step_def comes_empty_def goto_def split: if_splits\<close>)

definition wide_inv :: "os \<Rightarrow> bool" where
  "wide_inv s \<longleftrightarrow> eager_inv s \<and> fifo_ok s \<and> PROCESS_COUNT \<le> cpu_count s \<and> (\<forall>c. supervisor s = Sup_Wait c \<longrightarrow> alone s c)"

lemma wide_keeps:
  assumes inv: "wide_inv s" and st: "eager_step s s'"
  shows "wide_inv s'"
proof -
  have E: "eager_inv s" "fifo_ok s" "PROCESS_COUNT \<le> cpu_count s" and A: "\<And>c. supervisor s = Sup_Wait c \<Longrightarrow> alone s c"
    using inv by (simp_all add: wide_inv_def)
  have inv': "prompt_inv_exact s" "calm s" using E(1) by (simp_all add: eager_inv_def)
  note I = exactD[OF inv'(1)]
  have next': "eager_inv s'" "os_step s s'" using eager_keeps[OF E(1) st] prompt_os_step by blast+
  have fifo: "fifo_ok s'" using fifo_ok_step[OF E(2) next'(2)] .
  from st have "cpu_count s' = cpu_count s \<and> (\<forall>c. supervisor s' = Sup_Wait c \<longrightarrow> alone s' c)"
  proof (cases rule: eager_step.cases)
    case (cpu d)
    note K = cpu_step_kept[OF inv'(1) cpu(1,2)]
    have "alone s' c" if w': "supervisor s' = Sup_Wait c" for c
    proof -
      have w: "supervisor s = Sup_Wait c" using K(3) w' by auto
      note a = A[OF w, unfolded alone_def]
      have "d = c" using a cpu rests_stays by blast
      have "comes_empty s' c \<and> ready_head (sch s') = None"
        using comes_empty_step[of s c s'] I(3,5) E(2) a w cpu \<open>d = c\<close>
        by (auto simp: wait_ok_def links_def fifo_ok_def)
      then show ?thesis using a K(1,2) \<open>d = c\<close> by (auto simp: alone_def kept_def rests_def)
    qed
    then show ?thesis using K(1) by (simp add: kept_def)
  next
    case sup
    have "alone s' c" if w': "supervisor s' = Sup_Wait c" for c
    proof -
      have "\<not> sup_moves s s'" using sup_moves_frame[of s s'] w' by auto
      then have "sup_raises s s'" using sup_step_effect(1)[OF sup(2)] by blast
      then obtain s1 st where r: "quiet s s1" "supervisor s = Sup_Cpus c" "c < cpu_count s" "cd_current (cpu_data s c) \<noteq> None"
        "s' = raise_event s1 c st" using w' by (auto simp: sup_raises_def raise_event_def sup_goto_def)
      have rest: "\<forall>d < cpu_count s. rests s d" using inv'(2) r(2) by (simp add: calm_def mutex_free_def)
      then have head: "ready_head (sch s) = None" using ready_means_few_cpus[OF inv'(1)] E(3) by force
      have "simulate_cpu c s = Inr s'" using sup(2) r(2) by (simp add: sup_step_def)
      then have head': "ready_head (sch s') = None"
        using r(3,4) head simulate_process_head by (fastforce simp: simulate_cpu_def split: option.splits)
      have frame: "threads s' = threads s" "cpu_count s' = cpu_count s" "\<And>d. d \<noteq> c \<Longrightarrow> cd_state (cpu_data s' d) = cd_state (cpu_data s d)"
        using r(1,5) by (auto simp: quiet_def raise_event_def sup_goto_def set_cpu_state_def)
      have "threads s c = Blocked" using rests_current[of s c] rest r(3,4) I(3) by (auto simp: wait_ok_def)
      then show ?thesis using rest head head' frame by (auto simp: alone_def comes_empty_def rests_def)
    qed
    then show ?thesis using sup_step_count[OF I(2) sup(2)] by simp
  qed
  then show ?thesis using next'(1) fifo E(3) by (simp add: wide_inv_def)
qed

interpretation wide: step_invariant eager_step wide_inv
  by unfold_locales (rule wide_keeps)

subsection \<open>Every running CPU could still lag\<close>

definition may_lag :: "os \<Rightarrow> os \<Rightarrow> bool" where
  "may_lag s0 s \<longleftrightarrow> (\<forall>c < cpu_count s. threads s c = Blocked \<longrightarrow> cd_state (cpu_data s c) = CPU_RUNNING \<longrightarrow>
     (\<exists>x. os_step\<^sup>*\<^sup>* s0 (lag c x s)))"

lemma blocked_from_top:
  assumes "cpu_step c s = Inr (Some s')" and "threads s' c = Blocked"
  shows "threads s c = At_Loop \<and> cd_current (cpu_data s c) \<noteq> None
    \<and> s' = goto (set_cpu_state (if supervisor s = Sup_Wait c then sup_goto s (Sup_Woken c) else s) c CPU_RUNNING) c Blocked"
proof (cases "threads s c")
  case At_Loop
  then show ?thesis
    using assms by (auto simp: cpu_step_def loop_top_def Let_def goto_def set_cpu_state_def sup_goto_def split: if_splits)
next
  case (Dispatch st)
  then show ?thesis using assms by (cases st) (auto simp: cpu_step_def dispatch_def goto_def split: if_splits)
next
  case (In_Callback w pc)
  from assms(1) In_Callback show ?thesis
    by (cases rule: cpu_callback_cases) (use assms(2) in \<open>auto simp: goto_def\<close>)
qed (use assms in \<open>auto simp: cpu_step_def goto_def split: if_splits\<close>)

lemma may_lag_step:
  assumes inv: "wide_inv s" and reach: "os_step\<^sup>*\<^sup>* s0 s" and lags: "may_lag s0 s" and st: "eager_step s s'"
  shows "may_lag s0 s'"
proof -
  have inv': "prompt_inv_exact s" "calm s" and A: "\<And>c. supervisor s = Sup_Wait c \<Longrightarrow> alone s c"
    using inv by (simp_all add: wide_inv_def eager_inv_def)
  note I = exactD[OF inv'(1)]
  have go: "os_step\<^sup>*\<^sup>* s0 t'" if "os_step\<^sup>*\<^sup>* s0 t" "thread_step d t = Inr (Some t')" for t t' d
    using that os_step.intros by (metis rtranclp.rtrancl_into_rtrancl)
  show ?thesis
    unfolding may_lag_def
  proof (intro allI impI)
    fix c assume c: "c < cpu_count s'" "threads s' c = Blocked" "cd_state (cpu_data s' c) = CPU_RUNNING"
    from st show "\<exists>x. os_step\<^sup>*\<^sup>* s0 (lag c x s')"
    proof (cases rule: eager_step.cases)
      case (cpu d)
      note K = cpu_step_kept[OF inv'(1) cpu(1,2)]
      show ?thesis
      proof (cases "d = c")
        case False
        then obtain x where "os_step\<^sup>*\<^sup>* s0 (lag c x s)" using lags c K by (auto simp: may_lag_def kept_def)
        moreover have "thread_step (Cpu d) (lag c x s) = Inr (Some (lag c x s'))"
          using cpu_step_lag[OF cpu(2) False] cpu(1) by (simp add: thread_step_def)
        ultimately show ?thesis using go by blast
      next
        case True
        have top: "threads s c = At_Loop" "cd_current (cpu_data s c) \<noteq> None"
          "s' = goto (set_cpu_state (if supervisor s = Sup_Wait c then sup_goto s (Sup_Woken c) else s) c CPU_RUNNING) c Blocked"
          using blocked_from_top[of c s s'] cpu(2) c(2) True by blast+
        have "supervisor s \<noteq> Sup_Wait c" using A[of c] top by (auto simp: alone_def comes_empty_def)
        then have "lag c (cd_state (cpu_data s c)) s' = s" using top(1,3) by (auto simp: lag_simps fun_eq_iff)
        then show ?thesis using reach by metis
      qed
    next
      case sup
      have e: "sup_moves s s' \<or> sup_raises s s'" using sup_step_effect(1)[OF sup(2)] .
      have w: "supervisor s' \<noteq> Sup_Wait c \<and> threads s' = threads s \<and> cd_state (cpu_data s c) = CPU_RUNNING \<and> cpu_count s' = cpu_count s"
        using e
      proof
        assume "sup_moves s s'"
        then show ?thesis using sup_moves_frame c(3) by metis
      next
        assume "sup_raises s s'"
        then show ?thesis
        proof (rule sup_raises_frame)
          fix d st
          assume a: "supervisor s' = Sup_Wait d" "event_for s d st" "\<And>d'. d' \<noteq> d \<Longrightarrow> cd_state (cpu_data s' d') = cd_state (cpu_data s d')"
            "cd_state (cpu_data s' d) = st" "threads s' = threads s" "cpu_count s' = cpu_count s"
          have "st \<noteq> CPU_RUNNING" using a(2) by (auto simp: event_for_def)
          then have "c \<noteq> d" using a(4) c(3) by auto
          then show ?thesis using a c(3) by auto
        qed
      qed
      then obtain x where "os_step\<^sup>*\<^sup>* s0 (lag c x s)" using lags c by (auto simp: may_lag_def)
      moreover have "thread_step Supervisor (lag c x s) = Inr (Some (lag c x s'))"
        using sup_step_lag[OF sup(2)] w by (simp add: thread_step_def lag_after_def)
      ultimately show ?thesis using go by blast
    qed
  qed
qed

subsection \<open>A termination that is lost\<close>

lemma missed_mono:
  assumes "exit_ok s" and "os_step s s'"
  shows "missed s \<le> missed s'"
proof -
  have I: "os_inv s" "events_ok s" "0 \<le> missed s" using assms(1) by (simp_all add: exit_ok_def)
  from assms(2) obtain t where t: "thread_step t s = Inr (Some s')" by (auto elim: os_stepE)
  show ?thesis
  proof (cases t)
    case (Cpu c)
    then have "c < cpu_count s" "cpu_step c s = Inr (Some s')" using t by (auto simp: thread_step_def split: if_splits)
    then show ?thesis using cpu_step_missed[OF I(1) _ _ counted_small[OF I(3)]] by simp
  next
    case Supervisor
    then show ?thesis using t sup_step_missed(1)[OF I(1,2)] by (simp add: thread_step_def)
  qed
qed

text \<open>Once a termination has been missed, it is missed for ever, and the simulator does not exit.\<close>

definition lost :: "os \<Rightarrow> bool" where
  "lost s \<longleftrightarrow> exit_ok s \<and> wait_ok s \<and> 0 < missed s"

interpretation losing: step_invariant os_step lost
  by unfold_locales (use exit_ok_step wait_ok_step missed_mono in \<open>fastforce simp: lost_def\<close>)

lemma lost_not_exit: "lost s \<Longrightarrow> supervisor s \<noteq> Sup_Exit"
proof
  assume l: "lost s" and "supervisor s = Sup_Exit"
  then have "int PROCESS_COUNT \<le> uint (processes_terminated s)" by (simp add: lost_def exit_ok_def)
  moreover have "missed s + uint (processes_terminated s) \<le> int (card (at_end s))"
    using sum_nonneg[of "{..<cpu_count s}" "uncounted s"] uncounted_bounds(1) by (simp add: missed_def)
  ultimately show False using l at_end_finite(2)[of s] by (simp add: lost_def)
qed

text \<open>The termination of the first process to get there, on a CPU that lags behind.\<close>

lemma termination_lost:
  assumes inv: "wide_inv s" and ok: "exit_ok s" and reach: "os_step\<^sup>*\<^sup>* s0 s" and lags: "may_lag s0 s"
    and st: "eager_step s s'" and first: "at_end s = {}" "at_end s' \<noteq> {}"
  shows "\<exists>t. os_step\<^sup>*\<^sup>* s0 t \<and> 0 < missed t"
proof -
  have inv': "prompt_inv_exact s" "calm s" using inv by (simp_all add: wide_inv_def eager_inv_def)
  note I = exactD[OF inv'(1)]
  have sup: "sup_step s = Inr (Some s')"
    using st
  proof (cases rule: eager_step.cases)
    case (cpu c)
    then have "at_end s' = at_end s" using same_ops_now[OF cpu_step_same_ops[OF I(2) cpu(1,2)]] by (simp add: at_end_def)
    then show ?thesis using first by simp
  qed
  have "uint (processes_terminated s) \<le> 0" using counted_le[of s] ok first(1) by (simp add: exit_ok_def)
  then have "uint (processes_terminated s) = 0" by (rule order_antisym) simp
  then have zero: "processes_terminated s = 0" by (simp only: uint_0_iff)
  from I(2) sup show ?thesis
  proof (cases rule: sup_step_burst)
    case (burst c p)
    have rest: "rests s c" using inv'(2) burst(1,2) by (simp add: calm_def mutex_free_def)
    moreover have "cpu_ok s c" using I(3) by (simp add: wait_ok_def)
    ultimately have "threads s c = Blocked" using rests_current burst(3) by simp
    moreover from this have "cd_state (cpu_data s c) = CPU_RUNNING" using rest by (simp add: rests_def)
    ultimately obtain x where x: "os_step\<^sup>*\<^sup>* s0 (lag c x s)" using lags burst(2) by (auto simp: may_lag_def)
    let ?t = "lag_after c x s'"
    have "os_step (lag c x s) ?t"
      by (rule os_step.intros[of Supervisor]) (simp add: thread_step_def sup_step_lag[OF sup])
    then have "os_step\<^sup>*\<^sup>* s0 ?t" using x by (rule rtranclp.rtrancl_into_rtrancl[rotated])
    moreover have "0 < missed ?t"
    proof -
      have "\<not> in_event s d" for d using I(4) sup_step_effect(2)[OF sup, of d] by (auto simp: events_ok_def)
      then have "uncounted s d = 0" for d using uncounted_event by blast
      moreover have "uncounted ?t c = 0" by (simp add: uncounted_def lag_after_def lag_simps)
      moreover have "uncounted ?t d = uncounted s d" if "d \<noteq> c" for d
        using that burst(6) by (intro uncounted_cong) (simp_all add: lag_after_def lag_simps burst_work_def sup_work_def)
      ultimately have "uncounted ?t d = 0" for d by metis
      moreover have "at_end ?t = at_end s'" by (simp add: at_end_def op_now_def lag_after_def)
      moreover have "processes_terminated ?t = 0"
        using burst(6) zero by (simp add: lag_after_def burst_work_def sup_work_def same_counters_def)
      moreover have "0 < card (at_end s')" using first(2) at_end_finite(1)[of s'] by (simp add: card_gt_0_iff)
      ultimately show ?thesis by (simp add: missed_def)
    qed
    ultimately show ?thesis by blast
  next
    case other
    then show ?thesis using first by simp
  qed
qed

text \<open>An eager run to the end has such a step.\<close>

lemma lost_on_the_way:
  "eager_step\<^sup>*\<^sup>* s0 s \<Longrightarrow> wide_inv s0 \<Longrightarrow> exit_ok s0 \<Longrightarrow> may_lag s0 s0 \<Longrightarrow> at_end s0 = {} \<Longrightarrow>
    (\<exists>t. os_step\<^sup>*\<^sup>* s0 t \<and> 0 < missed t) \<or> at_end s = {} \<and> os_step\<^sup>*\<^sup>* s0 s \<and> may_lag s0 s"
proof (induction rule: rtranclp_induct)
  case (step y z)
  then consider "\<exists>t. os_step\<^sup>*\<^sup>* s0 t \<and> 0 < missed t" | "at_end y = {}" "os_step\<^sup>*\<^sup>* s0 y" "may_lag s0 y" by blast
  then show ?case
  proof cases
    case 2
    have inv: "wide_inv y" using wide.reachable[OF step.hyps(1) step.prems(1)] .
    have ok: "exit_ok y" using exiting.reachable[OF 2(2) step.prems(2)] .
    have "os_step y z" using eager_keeps(2)[of y z] inv step.hyps(2) prompt_os_step by (simp add: wide_inv_def)
    then have "os_step\<^sup>*\<^sup>* s0 z" using 2(2) by (rule rtranclp.rtrancl_into_rtrancl[rotated])
    then show ?thesis
      using may_lag_step[OF inv 2(2,3) step.hyps(2)] termination_lost[OF inv ok 2(2,3) step.hyps(2) 2(1)] by blast
  qed blast
qed simp

text \<open>From every state that is not the end some thread has a step.\<close>

lemma some_step:
  assumes "started n q room s0" and "PROCESS_COUNT \<le> room" and "os_step\<^sup>*\<^sup>* s0 s" and "supervisor s \<noteq> Sup_Exit"
  shows "\<exists>s'. os_step s s'"
proof -
  have inv: "os_inv s" using work.reachable[OF assms(3)] started_inv(1)[OF assms(1,2)] by blast
  have ok: "wait_ok s" using waiting.reachable[OF assms(3) started_wait[OF assms(1)]] .
  have print: "writers s \<le> 0" if "supervisor s = Sup_Gantt" using gantt_not_blocked[OF assms(1,3) that] .
  show ?thesis
  proof (cases "\<exists>c. supervisor s = Sup_Wait c")
    case True
    then show ?thesis using responsive_step[OF inv ok] by blast
  next
    case False
    obtain r where r: "sup_step s = Inr r" using sup_step_ok[OF inv] by blast
    have "r \<noteq> None" using r False assms(4) print by (cases "supervisor s") (auto simp: sup_step_def)
    then show ?thesis using r os_step.intros[of Supervisor s] by (auto simp: thread_step_def)
  qed
qed

text \<open>C14: The simulation need not end: with at least eight CPUs and FIFO scheduling the program can get into a state from which it never exits, whatever
  the order of the threads from then on. A CPU thread that takes a process for its last burst while idle, and is not back at the top of
  its loop when the burst ends, overwrites the event \<open>CPU_TERMINATE\<close>, so the process is never counted.\<close>

theorem simulation_can_run_forever:
  assumes "started n q room s0" and "q < 0" and "PROCESS_COUNT \<le> unat n" and "PROCESS_COUNT \<le> room"
  shows "\<exists>s. os_step\<^sup>*\<^sup>* s0 s \<and> (\<forall>s'. os_step\<^sup>*\<^sup>* s s' \<longrightarrow> supervisor s' \<noteq> Sup_Exit \<and> (\<exists>s''. os_step s' s''))"
proof -
  have s0: "cpu_count s0 = unat n" "threads s0 = (\<lambda>_. At_Loop)" "supervisor s0 = Sup_Loop"
    using assms(1) by (auto simp: started_def start_simulator_def)
  have inv: "wide_inv s0"
    using started_eager(1)[OF assms(1,4)] started_inv(4)[OF assms(1,2)] assms(3) s0 by (simp add: wide_inv_def)
  have ok: "exit_ok s0" using started_exit[OF assms(1,4)] .
  have "at_end s0 = {}"
  proof -
    have "\<not> in_event s0 c" for c using s0(2) by (simp add: in_event_def)
    then have "uncounted s0 c = 0" for c using uncounted_event by blast
    moreover have "processes_terminated s0 = 0" using assms(1) by (auto simp: started_def start_simulator_def)
    ultimately have "card (at_end s0) = 0" using started_missed[OF assms(1,4)] by (simp add: missed_def)
    then show ?thesis using at_end_finite(1) by simp
  qed
  moreover obtain e where e: "eager_step\<^sup>*\<^sup>* s0 e" "\<nexists>x. eager_step e x"
    using eager.run_ends[of s0] inv by (auto simp: wide_inv_def)
  moreover have "at_end e \<noteq> {}"
  proof -
    have E: "eager_inv s0" using inv by (simp add: wide_inv_def)
    have "supervisor e = Sup_Exit" using eager_end[OF e(1) E ok e(2)] by blast
    moreover have "exit_ok e" using prompt_exit_ok eager_run_clock[OF e(1) E] ok by blast
    ultimately show ?thesis using counted_le[of e] by (auto simp: exit_ok_def PROCESS_COUNT_def)
  qed
  moreover have "may_lag s0 s0" using s0(2) by (simp add: may_lag_def)
  ultimately obtain s where s: "os_step\<^sup>*\<^sup>* s0 s" "0 < missed s" using lost_on_the_way[OF e(1) inv ok] by blast
  then have lost: "lost s"
    using exiting.reachable[OF s(1) ok] waiting.reachable[OF s(1) started_wait[OF assms(1)]] by (simp add: lost_def)
  have "supervisor s' \<noteq> Sup_Exit \<and> (\<exists>s''. os_step s' s'')" if "os_step\<^sup>*\<^sup>* s s'" for s'
  proof -
    have "supervisor s' \<noteq> Sup_Exit" using losing.reachable[OF that lost] lost_not_exit by blast
    moreover have "os_step\<^sup>*\<^sup>* s0 s'" using s(1) that by (rule rtranclp_trans)
    ultimately show ?thesis using some_step[OF assms(1,4)] by blast
  qed
  then show ?thesis using s(1) by blast
qed

text \<open>\<open>./os-sim 8\<close>\<close>

theorem simulation_can_run_forever_witness:
  "\<exists>s0 s. os_main (\<lambda>_. 8) (\<lambda>_. 0) PROCESS_COUNT [''8''] = Inr s0 \<and> os_step\<^sup>*\<^sup>* s0 s
    \<and> (\<forall>s'. os_step\<^sup>*\<^sup>* s s' \<longrightarrow> supervisor s' \<noteq> Sup_Exit)"
proof -
  have "\<exists>s0. os_main (\<lambda>_. 8) (\<lambda>_. 0) PROCESS_COUNT [''8''] = Inr s0 \<and> started 8 (-1) PROCESS_COUNT s0"
    by (simp add: os_main_def parse_options_def start_simulator_def started_def)
  then obtain s0 where "os_main (\<lambda>_. 8) (\<lambda>_. 0) PROCESS_COUNT [''8''] = Inr s0" "started 8 (-1) PROCESS_COUNT s0" by blast
  then show ?thesis using simulation_can_run_forever[of 8 "-1" PROCESS_COUNT s0] by (auto simp: PROCESS_COUNT_def)
qed

end
