(* ===== verification/Spec2Isabelle.thy ===== *)
theory Spec2Isabelle
  imports Lru_Test Cache_Memory_Correct Vm_Report Os_Report Os_Slice Os_Sleep Os_Forever
begin

text \<open>
  A model of the three C programs of this repository, and proofs about them.

  \<^bold>\<open>The programs.\<close> They share nothing but the language.

  \<^item> \<open>src/cache_simulator\<close>: a set-associative write-back cache with LRU replacement, driven by a trace of memory accesses, and
    a test program for its LRU stack.
  \<^item> \<open>src/virtual_memory_simulator\<close>: an operating system's paging (page tables, a frame table, eviction to swap space) on
    top of a simulated memory, driven by a trace of process starts, stops and memory accesses. \<open>simulator-src\<close> holds the driver, the swap
    space and the generator of random numbers, \<open>implementation\<close> the paging operations.
  \<^item> \<open>src/os_scheduler_simulator\<close>: a multiprocessor scheduler (\<open>scheduler.c\<close>) called back by the threads of a simulator
    (\<open>os-sim.c\<close>) that executes the operations of eight fixed processes (\<open>process.c\<close>).

  \<^bold>\<open>Shared theories.\<close> \<open>C_Prelude\<close>: machine integers, failures as values (\<open>res\<close>), bounds-checked arrays, loops. \<open>Linked_List\<close>: a heap with
  bounded memory, chains of pointers, and the contract of a FIFO queue as the locale \<open>fifo_queue\<close>. \<open>Recency\<close>: lists ordered by recency of
  use, the reference for LRU. \<open>Transitions\<close>: invariants and termination of a step relation and simulations between two, the locales \<open>step_invariant\<close>,
  \<open>terminating\<close> and \<open>simulation\<close>. \<open>C_Float\<close>: the rounding of \<open>float\<close> and \<open>double\<close> operations, as functions on rational numbers.

  \<^bold>\<open>Cache simulator.\<close> \<open>Lru_Stack\<close> models \<open>lrustack.c\<close> (\<open>init_lru_stack\<close>, \<open>lru_stack_get_lru\<close>, \<open>lru_stack_set_mru\<close> with its loops), \<open>Lru_Test\<close>
  \<open>lrustacktest.c\<close>, \<open>Cache_Sim\<close> \<open>cachesim.c\<close> (geometry, one access on every branch, the trace loop, \<open>main\<close>). \<open>Cache_Safety\<close> shows that
  no access leaves an array and counters add up, \<open>Cache_Refine\<close> that one access is a step of an abstract cache whose sets are recency lists,
  \<open>Cache_Props\<close> and \<open>Cache_Correct\<close> what follows for whole traces. \<open>Cache_Memory\<close> models both files again, through the pointers of the code: the
  objects that \<open>malloc\<close> returns, \<open>cachesim_cleanup\<close> and \<open>lru_stack_cleanup\<close>, and \<open>main\<close> from \<open>argv\<close> to the status. \<open>Cache_Memory_Refine\<close> and
  \<open>Cache_Memory_Init\<close> show that each operation in memory is the operation on values, on the memory that the value stands for (\<open>memory_of\<close>), and
  \<open>Cache_Memory_Correct\<close> that the whole program prints the same and frees what it allocates.

  \<^bold>\<open>Virtual memory.\<close> \<open>Vm_Types\<close> (\<open>types.h\<close>, \<open>pagesim.h\<close>, \<open>paging.h\<close>, \<open>stats.h\<close>, \<open>page_splitting.h\<close>), \<open>Vm_Swap\<close> (\<open>swap.c\<close>, \<open>swapops.c\<close>), \<open>Vm_Paging\<close> (\<open>page_replacement.c\<close>,
  \<open>page_fault.c\<close>, \<open>paging.c\<close>, and the generator of \<open>util.c\<close>), \<open>Vm_Sim\<close> and \<open>Vm_Options\<close> (\<open>pagesim.c\<close>: commands, \<open>check_validity\<close>, \<open>main\<close>). \<open>Vm_Swap_Map\<close> shows that the
  swap queue implements a map from tokens to pages (locale \<open>swap_store\<close>); \<open>Vm_View\<close> and \<open>Vm_Inv\<close> define what a process sees of its pages, wherever they
  are, and the invariant that ties page tables, frame table and swap space together; \<open>Vm_Steps\<close>, \<open>Vm_Access\<close>, \<open>Vm_Procs\<close> and \<open>Vm_Check\<close> show that each operation
  keeps it; \<open>Vm_Ref\<close> is the machine with private memory that the simulator refines; \<open>Vm_Correct\<close> holds the properties. \<open>Vm_Report\<close> models \<open>stats.c\<close> and
  the report at the end of \<open>main\<close>, and bounds the rounding error of the average. A frame is a frame table, a
  page table or a page, and an access as something else is a failure; swap space has \<open>room\<close> entries, and the theorems ask for as many as the trace has lines.

  \<^bold>\<open>Scheduler.\<close> \<open>Os_Processes\<close> models \<open>os-sim.h\<close> and \<open>process.c\<close>; \<open>Scheduler\<close> models \<open>scheduler.c\<close>: ready queue, the part of each callback under each mutex, the
  callbacks that compose them, and the callbacks as steps of a thread; \<open>Os_Sim\<close> models \<open>os-sim.c\<close>: the supervisor and the CPU threads as program counters
  whose steps are their critical sections, so a run is an order of the threads. A blocked thread has no step (one that waits for a ready process re-checks the queue, which changes nothing); \<open>mutex_free\<close> tells when \<open>simulator_mutex\<close> is
  free. \<open>Sched_Queue\<close> and \<open>Os_Io\<close> show that ready queue and I/O queue are FIFO queues; \<open>Sched_Threads\<close> that under every order of the critical sections a process is in
  one place; \<open>Os_Inv\<close> the invariant under which no thread fails; \<open>Os_Effects\<close> what a step of each thread can change; \<open>Os_Work\<close> the account of CPU time;
  \<open>Os_Runs\<close> concrete runs, among them one that loses an event; \<open>Sched_Correct\<close>, \<open>Os_Correct\<close> and \<open>Os_Progress\<close> (no deadlock) the properties; \<open>Os_Report\<close> the Gantt chart and the
  final statistics (\<open>print_gantt_line\<close>, \<open>print_final_stats\<close>), as the arguments of their \<open>printf\<close> calls. \<open>os_main\<close> is the program from its options to the start of the threads;
  \<open>Os_Sleep\<close> models \<open>mt_safe_usleep\<close> and shows that it sleeps long enough however often it is interrupted. \<open>malloc\<close> has \<open>room\<close> I/O requests; eight, one for each
  process, are shown to be enough.

  \<^bold>\<open>Simulator and scheduler together.\<close> The invariant of \<open>Sched_Threads\<close> holds for every simulator that calls \<open>wake_up\<close> only for processes that are
  new or wait and \<open>idle\<close> only when nothing runs on the CPU. The simulator of this repository keeps to that as long as the supervisor does not
  simulate a CPU whose thread is still on its way back from \<open>context_switch\<close>; the code does not wait for it, but sleeps between the intervals and relies on
  the threads to be faster. \<open>Os_Contract\<close> calls such runs prompt (\<open>prompt_step\<close>) and relates the two states (\<open>links\<close>); \<open>Os_Refine\<close> proves
  that prompt runs refine the contract, so what the scheduler promises holds for the whole program. In other runs an event can be lost, which is what
  \<open>late_event_is_lost\<close> and \<open>process_on_two_cpus\<close> show, so the properties of all runs rest on \<open>Os_Inv\<close> instead, which does not need the contract.
  \<open>Os_Exit\<close> counts terminations, in all runs and in prompt ones; \<open>Os_Io_Work\<close> is the account of I/O time; \<open>Os_Settle\<close> shows that the CPU threads
  come to rest whatever their order; \<open>Os_Eager\<close> defines the runs in which they are always faster than the supervisor, and \<open>Os_Finish\<close> proves that all of these end, within the CPU time,
  I/O time and creation time that are left (\<open>intervals_left\<close>; 666 + 309 + 80 intervals at the start), by a lexicographic order (locale \<open>terminating\<close> of \<open>Transitions\<close>). In these
  runs no CPU idles while a process is ready (\<open>Os_Report\<close>). \<open>Os_Forever\<close> changes an eager run so that one CPU thread lags behind, which loses a termination: a state that the
  program reaches with eight or more CPUs, and from which no run ends. \<open>Os_Slice\<close> shows that prompt runs respect the time slice.

  \<^bold>\<open>Parameters.\<close> \<open>strtoul\<close>, \<open>strtol\<close>, \<open>atol\<close>, \<open>getopt\<close>, \<open>fopen\<close> and \<open>nanosleep\<close> of the C library, and a trace as the records that \<open>fscanf\<close> or \<open>sscanf\<close> give.
  Loops that follow pointers have fuel, one more than the number of cells ever allocated, so running out of it (\<open>Diverges\<close>) means that the chain is cyclic; the theorems that the
  operations succeed show that it does not happen. The loop around
  \<open>nanosleep\<close> is a partial function. All other loops are bounded by an array and end by a measure.

  The loop of \<open>print_gantt_line\<close> over the I/O queue has that fuel too. A \<open>float\<close> or \<open>double\<close> operation rounds its exact result to the nearest value with 24 or 53 bits; the exponents of the
  programs' values are far from their limits, and a compiler that fuses or widens operations is not considered.

  \<^bold>\<open>Not modelled.\<close> The formatting of numbers by \<open>printf\<close>; the two \<open>free\<close> calls at the end of \<open>pagesim.c\<close>; sleeping as a step of the supervisor (any order of the threads is possible instead);
  wake-ups of a condition variable that no signal causes; the interleaving of memory accesses inside a critical section with unlocked reads of a PCB by another thread. The hardware of the
  repository (SystemVerilog, VHDL) is in other languages.
\<close>

end
